(* ===== verification/CBase.thy ===== *)
theory CBase
  imports Main "HOL-Library.Word" "HOL-Library.Signed_Division"
begin

section \<open>The C base of the models\<close>

text \<open>
  What every component shares: undefined behaviour as an error value, the arithmetic of
  C's \<open>int\<close> and \<open>short\<close>, array accesses with their bounds, and a typed store
  (addresses to objects) with its dereference and its field update.  A C function that can
  reach undefined behaviour returns a value of \<open>ub + 'a\<close>; the laws below are in the
  simpset or in the collection \<open>c_simps\<close>, so that a component's proof runs the model
  with \<open>simp add: c_simps\<close>.
\<close>

named_theorems c_simps \<open>rules that run the C operations whose checks succeed\<close>

subsection \<open>Undefined behaviour as an error value\<close>

text \<open>
  \<open>OutOfFuel\<close> is no behaviour of C: it is what a loop of the model returns when the bound on
  its iterations is used up.  Each loop has a lemma that this does not happen on
  well-formed states.  \<open>AssertFailed\<close> is the abort of a failed \<open>assert\<close>.
\<close>

datatype ub =
    NullDeref
  | WildDeref
  | UseAfterFree
  | OutOfBounds
  | SignedOverflow
  | DivByZero
  | AssertFailed
  | UninitRead
  | OutOfFuel

type_synonym 'a res = "ub + 'a"

definition bindE :: "'a res \<Rightarrow> ('a \<Rightarrow> 'b res) \<Rightarrow> 'b res" where
  "bindE r f = (case r of Inl e \<Rightarrow> Inl e | Inr x \<Rightarrow> f x)"

lemma bindE_simps [simp]:
  "bindE (Inl e) f = Inl e"
  "bindE (Inr x) f = f x"
  by (simp_all add: bindE_def)

lemma bindE_assoc: "bindE (bindE r f) g = bindE r (\<lambda>x. bindE (f x) g)"
  by (simp add: bindE_def split: sum.split)

lemma bindE_if: "bindE (if b then x else y) f = (if b then bindE x f else bindE y f)"
  by simp

lemma bindE_eq_Inr_iff: "bindE r f = Inr y \<longleftrightarrow> (\<exists>x. r = Inr x \<and> f x = Inr y)"
  by (cases r) simp_all

lemma bindE_InrE:
  assumes "bindE r f = Inr y"
  obtains x where "r = Inr x" "f x = Inr y"
  using assms by (auto simp: bindE_eq_Inr_iff)

subsection \<open>The integers of C\<close>

definition int_ok :: "int \<Rightarrow> bool" where
  "int_ok x \<longleftrightarrow> - (2 ^ 31) \<le> x \<and> x < 2 ^ 31"

text \<open>The result of an \<open>int\<close> operation: undefined when it leaves the 32 bits.\<close>

definition i32 :: "int \<Rightarrow> int res" where
  "i32 x = (if int_ok x then Inr x else Inl SignedOverflow)"

text \<open>The conversions to \<open>int\<close>, \<open>short\<close> and \<open>uint16_t\<close>: modulo the width, as gcc defines them.\<close>

definition to_i32 :: "int \<Rightarrow> int" where
  "to_i32 x = signed_take_bit 31 x"

definition to_i16 :: "int \<Rightarrow> int" where
  "to_i16 x = signed_take_bit 15 x"

text \<open>Division and remainder truncate towards zero.\<close>

definition c_div :: "int \<Rightarrow> int \<Rightarrow> int res" where
  "c_div a b = (if b = 0 then Inl DivByZero else i32 (a sdiv b))"

definition c_mod :: "int \<Rightarrow> int \<Rightarrow> int res" where
  "c_mod a b = (if b = 0 then Inl DivByZero else i32 (a smod b))"

lemma i32_ok [c_simps]: "int_ok x \<Longrightarrow> i32 x = Inr x"
  by (simp add: i32_def)

lemma i32_eq_Inr: "i32 x = Inr y \<longleftrightarrow> int_ok x \<and> y = x"
  by (auto simp: i32_def)

lemma int_okI [intro?]: "- 2147483648 \<le> x \<Longrightarrow> x < 2147483648 \<Longrightarrow> int_ok x"
  by (simp add: int_ok_def)

lemma int_okD: "int_ok x \<Longrightarrow> - 2147483648 \<le> x \<and> x < 2147483648"
  by (simp add: int_ok_def)

lemma to_i32_id [c_simps]: "int_ok x \<Longrightarrow> to_i32 x = x"
  by (simp add: to_i32_def int_ok_def signed_take_bit_int_eq_self)

lemma to_i16_id [c_simps]: "- 32768 \<le> x \<Longrightarrow> x < 32768 \<Longrightarrow> to_i16 x = x"
  by (simp add: to_i16_def signed_take_bit_int_eq_self)

lemma to_i16_range: "- 32768 \<le> to_i16 x \<and> to_i16 x < 32768"
  using signed_take_bit_int_greater_eq_minus_exp [of 15 x] signed_take_bit_int_less_exp [of 15 x]
  by (simp add: to_i16_def)

lemma sdiv_nonneg: "0 \<le> a \<Longrightarrow> 0 < b \<Longrightarrow> a sdiv b = a div b" for a b :: int
  by (cases "a = 0") (simp_all add: signed_divide_int_def)

lemma smod_nonneg: "0 \<le> a \<Longrightarrow> 0 < b \<Longrightarrow> a smod b = a mod b" for a b :: int
  by (cases "a = 0") (simp_all add: signed_modulo_int_def sdiv_nonneg minus_div_mult_eq_mod)

lemma div_le_self_int: "0 \<le> a \<Longrightarrow> 0 < b \<Longrightarrow> a div b \<le> a" for a b :: int
  using zdiv_mono2 [of a 1 b] by simp

lemma int_ok_div: "0 \<le> a \<Longrightarrow> int_ok a \<Longrightarrow> 0 < b \<Longrightarrow> int_ok (a div b)"
  using div_le_self_int [of a b] pos_imp_zdiv_nonneg_iff [of b a]
  by (auto simp: int_ok_def)

lemma int_ok_mod: "0 \<le> a \<Longrightarrow> 0 < b \<Longrightarrow> int_ok b \<Longrightarrow> int_ok (a mod b)"
proof -
  assume "0 < b" "int_ok b"
  moreover have "0 \<le> a mod b" "a mod b < b" using \<open>0 < b\<close> by simp_all
  ultimately show ?thesis unfolding int_ok_def by linarith
qed

lemma c_div_nonneg [c_simps]:
  "0 \<le> a \<Longrightarrow> int_ok a \<Longrightarrow> 0 < b \<Longrightarrow> c_div a b = Inr (a div b)"
  by (simp add: c_div_def sdiv_nonneg i32_ok int_ok_div)

lemma c_mod_nonneg [c_simps]:
  "0 \<le> a \<Longrightarrow> 0 < b \<Longrightarrow> int_ok b \<Longrightarrow> c_mod a b = Inr (a mod b)"
  by (simp add: c_mod_def smod_nonneg i32_ok int_ok_mod)

lemma c_mod_ok:
  assumes "b \<noteq> 0" and "int_ok b"
  shows "c_mod a b = Inr (a smod b)"
proof -
  have "int_ok (a smod b)"
    using smod_int_range [where a = a and b = b] assms by (auto simp: int_ok_def)
  then show ?thesis using assms(1) by (simp add: c_mod_def i32_ok)
qed

lemma c_div_ok:
  assumes "0 < b" and "int_ok a"
  shows "c_div a b = Inr (a sdiv b)" and "int_ok (a sdiv b)"
proof -
  have "\<bar>a sdiv b\<bar> = \<bar>a\<bar> div b"
    using assms(1) by (cases "a = 0") (simp_all add: signed_divide_int_def abs_mult abs_sgn_eq
        pos_imp_zdiv_nonneg_iff)
  moreover have "\<bar>a\<bar> div b \<le> \<bar>a\<bar>" using assms(1) by (intro div_le_self_int) simp_all
  moreover have "0 \<le> a \<Longrightarrow> a sdiv b \<le> a" using assms(1) by (simp add: sdiv_nonneg div_le_self_int)
  moreover have "a < 0 \<Longrightarrow> a sdiv b \<le> 0"
    using assms(1) by (simp add: signed_divide_int_def pos_imp_zdiv_nonneg_iff)
  ultimately show ok: "int_ok (a sdiv b)"
    using int_okD [OF assms(2)] by (intro int_okI; cases "0 \<le> a") linarith+
  show "c_div a b = Inr (a sdiv b)" using assms(1) ok by (simp add: c_div_def i32_ok)
qed

lemma c_div_zero [simp]: "c_div a 0 = Inl DivByZero"
  by (simp add: c_div_def)

lemma c_mod_zero [simp]: "c_mod a 0 = Inl DivByZero"
  by (simp add: c_mod_def)

subsection \<open>Arrays\<close>

definition arr_get :: "'a list \<Rightarrow> int \<Rightarrow> 'a res" where
  "arr_get xs i = (if 0 \<le> i \<and> i < int (length xs) then Inr (xs ! nat i) else Inl OutOfBounds)"

definition arr_set :: "'a list \<Rightarrow> int \<Rightarrow> 'a \<Rightarrow> 'a list res" where
  "arr_set xs i v =
     (if 0 \<le> i \<and> i < int (length xs) then Inr (xs[nat i := v]) else Inl OutOfBounds)"

lemma arr_get_ok [c_simps]: "0 \<le> i \<Longrightarrow> i < int (length xs) \<Longrightarrow> arr_get xs i = Inr (xs ! nat i)"
  by (simp add: arr_get_def)

lemma arr_set_ok [c_simps]:
  "0 \<le> i \<Longrightarrow> i < int (length xs) \<Longrightarrow> arr_set xs i v = Inr (xs[nat i := v])"
  by (simp add: arr_set_def)

subsection \<open>The typed store\<close>

text \<open>
  An address is an integer and \<open>NULL\<close> is 0.  A store holds the objects of one struct
  type; an address outside its domain is not one of an object of that type.
\<close>

type_synonym addr = int
type_synonym 'o heap = "addr \<rightharpoonup> 'o"

definition deref :: "'o heap \<Rightarrow> addr \<Rightarrow> 'o res" where
  "deref h p = (if p = 0 then Inl NullDeref
     else case h p of None \<Rightarrow> Inl WildDeref | Some ob \<Rightarrow> Inr ob)"

definition modify :: "'o heap \<Rightarrow> addr \<Rightarrow> ('o \<Rightarrow> 'o) \<Rightarrow> 'o heap res" where
  "modify h p f = bindE (deref h p) (\<lambda>ob. Inr (h(p \<mapsto> f ob)))"

lemma deref_ok [c_simps]: "h p = Some ob \<Longrightarrow> p \<noteq> 0 \<Longrightarrow> deref h p = Inr ob"
  by (simp add: deref_def)

lemma modify_ok [c_simps]: "h p = Some ob \<Longrightarrow> p \<noteq> 0 \<Longrightarrow> modify h p f = Inr (h(p \<mapsto> f ob))"
  by (simp add: modify_def deref_ok)

lemma deref_null [simp]: "deref h 0 = Inl NullDeref"
  by (simp add: deref_def)

lemma modify_null [simp]: "modify h 0 f = Inl NullDeref"
  by (simp add: modify_def)

subsection \<open>Lists\<close>

text \<open>
  In a sorted list, the elements below a bound are a prefix: a loop that stops at the first
  element beyond the bound has seen them all.
\<close>

lemma sorted_takeWhile_down:
  fixes f :: "'a \<Rightarrow> 'b :: linorder"
  assumes "sorted (map f xs)" and "\<And>u v. P v \<Longrightarrow> u \<le> v \<Longrightarrow> P u"
  shows "takeWhile (\<lambda>x. P (f x)) xs = filter (\<lambda>x. P (f x)) xs"
    and "dropWhile (\<lambda>x. P (f x)) xs = filter (\<lambda>x. \<not> P (f x)) xs"
proof -
  have "takeWhile (\<lambda>x. P (f x)) xs = filter (\<lambda>x. P (f x)) xs
    \<and> dropWhile (\<lambda>x. P (f x)) xs = filter (\<lambda>x. \<not> P (f x)) xs"
    using assms(1)
  proof (induction xs)
    case Nil
    then show ?case by simp
  next
    case (Cons a xs)
    show ?case
    proof (cases "P (f a)")
      case True
      with Cons show ?thesis by simp
    next
      case False
      then have "\<forall>x\<in>set xs. \<not> P (f x)" using Cons.prems assms(2) by auto
      with False show ?thesis by (simp add: filter_empty_conv)
    qed
  qed
  then show "takeWhile (\<lambda>x. P (f x)) xs = filter (\<lambda>x. P (f x)) xs"
    and "dropWhile (\<lambda>x. P (f x)) xs = filter (\<lambda>x. \<not> P (f x)) xs" by blast+
qed

lemma sorted_insert_place:
  fixes f :: "'a \<Rightarrow> 'b :: linorder"
  assumes "sorted (map f zs)"
  shows "sorted (map f (takeWhile (\<lambda>a. f a < f x) zs @ x # dropWhile (\<lambda>a. f a < f x) zs))"
proof -
  note tw = sorted_takeWhile_down [OF assms, of "\<lambda>v. v < f x"]
  have "takeWhile (\<lambda>a. f a < f x) zs = filter (\<lambda>a. f a < f x) zs"
    "dropWhile (\<lambda>a. f a < f x) zs = filter (\<lambda>a. \<not> f a < f x) zs"
    by (rule tw, simp)+
  then show ?thesis
    using assms by (auto simp: sorted_append sorted_filter not_less intro: order.strict_implies_order order.trans)
qed

end
