(* ===== verification/DList.thy ===== *)
theory DList
  imports CBase
begin

section \<open>Doubly linked lists in the store\<close>

text \<open>
  Both timer implementations keep their timers in intrusive doubly linked lists (the slot
  lists of \<open>ttimer/tdengine_old.c\<close> and the wheel slots of \<open>ttimer/timer.c\<close>).  This theory
  holds what is common to the two: the predicate \<open>dls\<close> (the addresses of a list segment, with
  the predecessor of its first and the successor of its last node), the conditional
  field write \<open>if (p) p->f = v\<close>, and, in the locale \<open>dnode\<close>, the effect of inserting and
  removing a node.  The locale's parameters are the two link fields of a node type; each timer
  theory interprets it on its own record.
\<close>

definition hdp :: "addr list \<Rightarrow> addr \<Rightarrow> addr" where
  "hdp xs q = (case xs of [] \<Rightarrow> q | a # _ \<Rightarrow> a)"

definition lastp :: "addr list \<Rightarrow> addr \<Rightarrow> addr" where
  "lastp xs p = (if xs = [] then p else last xs)"

lemma hdp_simps [simp]: "hdp [] q = q" "hdp (a # xs) q = a"
  by (simp_all add: hdp_def)

lemma lastp_simps [simp]: "lastp [] p = p" "lastp (a # xs) p = lastp xs a"
  by (simp_all add: lastp_def)

lemma lastp_append [simp]: "lastp (xs @ ys) p = lastp ys (lastp xs p)"
  by (simp add: lastp_def)

lemma hdp_append [simp]: "hdp (xs @ ys) q = hdp xs (hdp ys q)"
  by (simp add: hdp_def split: list.split)

lemma lastp_cases: "lastp xs p = p \<and> xs = [] \<or> lastp xs p \<in> set xs"
  by (simp add: lastp_def)

lemma hdp_cases: "hdp xs q = q \<and> xs = [] \<or> hdp xs q \<in> set xs"
  by (cases xs) simp_all

lemma hdp_zero_iff: "0 \<notin> set xs \<Longrightarrow> hdp xs 0 = 0 \<longleftrightarrow> xs = []"
  by (cases xs) auto

lemma lastp_zero_iff: "0 \<notin> set xs \<Longrightarrow> lastp xs 0 = 0 \<longleftrightarrow> xs = []"
  using lastp_cases [of xs 0] by auto

lemma hdp_out: "a \<notin> set xs \<Longrightarrow> a \<noteq> hdp xs 0 \<or> hdp xs 0 = 0"
  using hdp_cases [of xs 0] by auto

lemma lastp_out: "a \<notin> set xs \<Longrightarrow> a \<noteq> lastp xs 0 \<or> lastp xs 0 = 0"
  using lastp_cases [of xs 0] by auto

subsection \<open>List segments\<close>

fun dls :: "('o \<Rightarrow> addr) \<Rightarrow> ('o \<Rightarrow> addr) \<Rightarrow> 'o heap \<Rightarrow> addr \<Rightarrow> addr list \<Rightarrow> addr \<Rightarrow> bool" where
  "dls nxt prv h p [] q = True"
| "dls nxt prv h p (a # xs) q =
     ((case h a of None \<Rightarrow> False | Some ob \<Rightarrow> prv ob = p \<and> nxt ob = hdp xs q)
      \<and> dls nxt prv h a xs q)"

lemma dls_append:
  "dls nxt prv h p (xs @ ys) q \<longleftrightarrow>
     dls nxt prv h p xs (hdp ys q) \<and> dls nxt prv h (lastp xs p) ys q"
  by (induction xs arbitrary: p) (auto split: option.split)

lemma dls_frame:
  "(\<And>a. a \<in> set xs \<Longrightarrow>
      map_option (\<lambda>ob. (nxt ob, prv ob)) (h' a) = map_option (\<lambda>ob. (nxt ob, prv ob)) (h a)) \<Longrightarrow>
   dls nxt prv h' p xs q = dls nxt prv h p xs q"
proof (induction xs arbitrary: p)
  case Nil
  then show ?case by simp
next
  case (Cons a xs)
  from Cons.prems [of a] have
    "map_option (\<lambda>ob. (nxt ob, prv ob)) (h' a) = map_option (\<lambda>ob. (nxt ob, prv ob)) (h a)"
    by simp
  with Cons.IH [of a] Cons.prems show ?case
    by (cases "h a"; cases "h' a") auto
qed

lemma dls_upd_notin: "x \<notin> set xs \<Longrightarrow> dls nxt prv (h(x := v)) p xs q = dls nxt prv h p xs q"
  by (rule dls_frame) auto

lemma dls_in_dom: "dls nxt prv h p xs q \<Longrightarrow> set xs \<subseteq> dom h"
  by (induction xs arbitrary: p) (auto split: option.splits)

lemma dls_at:
  assumes "dls nxt prv h p (xs @ a # ys) q" and "h a = Some ob"
  shows "prv ob = lastp xs p" and "nxt ob = hdp ys q"
  using assms by (simp_all add: dls_append)

subsection \<open>Conditional field writes\<close>

text \<open>The statement \<open>if (p) p->field = v;\<close>, and its effect where it has no error.\<close>

definition modify_nn :: "'o heap \<Rightarrow> addr \<Rightarrow> ('o \<Rightarrow> 'o) \<Rightarrow> 'o heap res" where
  "modify_nn h p f = (if p = 0 then Inr h else modify h p f)"

definition upd_nn :: "'o heap \<Rightarrow> addr \<Rightarrow> ('o \<Rightarrow> 'o) \<Rightarrow> 'o heap" where
  "upd_nn h p f = (if p = 0 then h else case h p of None \<Rightarrow> h | Some ob \<Rightarrow> h(p \<mapsto> f ob))"

lemma modify_nn_ok [c_simps]: "p = 0 \<or> p \<in> dom h \<Longrightarrow> modify_nn h p f = Inr (upd_nn h p f)"
  by (auto simp: modify_nn_def upd_nn_def modify_ok)

lemma upd_nn_other [simp]: "a \<noteq> p \<Longrightarrow> upd_nn h p f a = h a"
  by (simp add: upd_nn_def split: option.split)

lemma upd_nn_null [simp]: "upd_nn h 0 f = h"
  by (simp add: upd_nn_def)

lemma upd_nn_same: "h p = Some ob \<Longrightarrow> p \<noteq> 0 \<Longrightarrow> upd_nn h p f = h(p \<mapsto> f ob)"
  by (simp add: upd_nn_def)

lemma dom_upd_nn [simp]: "dom (upd_nn h p f) = dom h"
  by (auto simp: upd_nn_def split: option.split)

text \<open>A field that the write does not change is read back unchanged at every address.\<close>

lemma upd_nn_field:
  "(\<And>ob. g (f ob) = g ob) \<Longrightarrow> map_option g (upd_nn h p f a) = map_option g (h a)"
  by (simp add: upd_nn_def split: option.split)

subsection \<open>Nodes with two link fields\<close>

locale dnode =
  fixes nxt :: "'o \<Rightarrow> addr"
    and prv :: "'o \<Rightarrow> addr"
    and set_nxt :: "addr \<Rightarrow> 'o \<Rightarrow> 'o"
    and set_prv :: "addr \<Rightarrow> 'o \<Rightarrow> 'o"
  assumes nxt_set_nxt: "nxt (set_nxt q ob) = q"
    and prv_set_nxt: "prv (set_nxt q ob) = prv ob"
    and prv_set_prv: "prv (set_prv q ob) = q"
    and nxt_set_prv: "nxt (set_prv q ob) = nxt ob"
begin

lemma seg_set_last:
  assumes "dls nxt prv h p xs q" and "distinct xs" and "0 \<notin> set xs"
  shows "dls nxt prv (upd_nn h (lastp xs 0) (set_nxt r)) p xs r"
proof (cases xs rule: rev_cases)
  case Nil
  then show ?thesis by simp
next
  case (snoc ys a)
  with assms obtain ob where ob: "h a = Some ob" "prv ob = lastp ys p"
    and ys: "dls nxt prv h p ys a" "a \<notin> set ys" "a \<noteq> 0"
    by (auto simp: dls_append split: option.splits)
  then show ?thesis
    by (simp add: snoc dls_append upd_nn_same dls_upd_notin nxt_set_nxt prv_set_nxt)
qed

lemma seg_set_hd:
  assumes "dls nxt prv h p xs q" and "distinct xs" and "0 \<notin> set xs"
  shows "dls nxt prv (upd_nn h (hdp xs 0) (set_prv r)) r xs q"
proof (cases xs)
  case Nil
  then show ?thesis by simp
next
  case (Cons a ys)
  with assms obtain ob where "h a = Some ob" "nxt ob = hdp ys q"
    and "dls nxt prv h a ys q" "a \<notin> set ys" "a \<noteq> 0"
    by (auto split: option.splits)
  then show ?thesis
    by (simp add: Cons upd_nn_same dls_upd_notin nxt_set_prv prv_set_prv)
qed

lemma seg_frame_nn: "p' \<notin> set xs \<Longrightarrow> dls nxt prv (upd_nn h p' f) p xs q = dls nxt prv h p xs q"
  by (rule dls_frame) (metis upd_nn_other)

text \<open>Removing the node \<open>x\<close>: its neighbours are linked to each other.\<close>

lemma dls_remove:
  assumes "dls nxt prv h 0 (xs @ x # ys) 0" and "distinct (xs @ x # ys)"
    and "0 \<notin> set (xs @ x # ys)"
  shows "dls nxt prv (upd_nn (upd_nn h (lastp xs 0) (set_nxt (hdp ys 0)))
           (hdp ys 0) (set_prv (lastp xs 0))) 0 (xs @ ys) 0"
proof -
  let ?h1 = "upd_nn h (lastp xs 0) (set_nxt (hdp ys 0))"
  let ?h2 = "upd_nn ?h1 (hdp ys 0) (set_prv (lastp xs 0))"
  have *: "lastp xs 0 \<notin> set ys" "hdp ys 0 \<notin> set xs"
    using assms(2,3) lastp_cases [of xs 0] hdp_cases [of ys 0] by auto
  have "dls nxt prv ?h1 0 xs (hdp ys 0)"
    using assms by (intro seg_set_last) (auto simp: dls_append)
  then have "dls nxt prv ?h2 0 xs (hdp ys 0)"
    using * by (simp add: seg_frame_nn)
  moreover have "dls nxt prv ?h1 x ys 0"
    using assms * by (simp add: seg_frame_nn dls_append)
  then have "dls nxt prv ?h2 (lastp xs 0) ys 0"
    using assms by (intro seg_set_hd) auto
  ultimately show ?thesis by (simp add: dls_append)
qed

text \<open>
  Inserting the node \<open>x\<close>, whose own link fields are already written, between \<open>xs\<close> and \<open>ys\<close>.
\<close>

lemma dls_insert:
  assumes "dls nxt prv h 0 (xs @ ys) 0" and "distinct (xs @ x # ys)"
    and "0 \<notin> set (xs @ x # ys)"
    and "h x = Some ob" and "nxt ob = hdp ys 0" and "prv ob = lastp xs 0"
  shows "dls nxt prv (upd_nn (upd_nn h (hdp ys 0) (set_prv x)) (lastp xs 0) (set_nxt x))
           0 (xs @ x # ys) 0"
proof -
  let ?h1 = "upd_nn h (hdp ys 0) (set_prv x)"
  let ?h2 = "upd_nn ?h1 (lastp xs 0) (set_nxt x)"
  have *: "lastp xs 0 \<notin> set ys" "hdp ys 0 \<notin> set xs" "lastp xs 0 \<noteq> x" "hdp ys 0 \<noteq> x"
    using assms(2,3) lastp_cases [of xs 0] hdp_cases [of ys 0] by auto
  have "dls nxt prv ?h1 0 xs (hdp ys 0)"
    using assms * by (simp add: seg_frame_nn dls_append)
  then have "dls nxt prv ?h2 0 xs x"
    using assms by (intro seg_set_last) auto
  moreover have "dls nxt prv ?h1 x ys 0"
    using assms by (intro seg_set_hd) (auto simp: dls_append)
  then have "dls nxt prv ?h2 x ys 0"
    using * by (simp add: seg_frame_nn)
  moreover have "?h2 x = Some ob" using assms * by simp
  ultimately show ?thesis using assms by (simp add: dls_append)
qed

end

end
