(* ===== verification/RingBuffer.thy ===== *)
theory RingBuffer
  imports CBase
begin

section \<open>Ring buffers and FIFO queues\<close>

text \<open>
  \<open>ring xs s n\<close> is the content of a ring buffer: the \<open>n\<close> cells of the array \<open>xs\<close> from
  the position \<open>s\<close> on, wrapping at the end of the array.  The locale \<open>fifo\<close> is the contract
  of a bounded queue over a state type; the memory pool's free list is its model.
\<close>

definition ring :: "'a list \<Rightarrow> nat \<Rightarrow> nat \<Rightarrow> 'a list" where
  "ring xs s n = map (\<lambda>k. xs ! ((s + k) mod length xs)) [0..<n]"

lemma length_ring [simp]: "length (ring xs s n) = n"
  by (simp add: ring_def)

lemma ring_0 [simp]: "ring xs s 0 = []"
  by (simp add: ring_def)

lemma ring_Suc: "ring xs s (Suc n) = ring xs s n @ [xs ! ((s + n) mod length xs)]"
  by (simp add: ring_def)

lemma ring_Cons: "ring xs s (Suc n) = xs ! (s mod length xs) # ring xs (Suc s mod length xs) n"
proof (induction n)
  case 0
  then show ?case by (simp add: ring_def)
next
  case (Suc n)
  have "(Suc s mod length xs + n) mod length xs = (s + Suc n) mod length xs"
    by (simp add: mod_add_left_eq)
  with Suc show ?case by (simp add: ring_Suc [of xs _ "Suc n"] ring_Suc [of xs _ n])
qed

lemma add_mod_inj_nat:
  fixes s i j m :: nat
  assumes "(s + i) mod m = (s + j) mod m" and "i < m" and "j < m"
  shows "i = j"
proof -
  have "(int s + int i) mod int m = (int s + int j) mod int m"
    using assms(1) by (metis of_nat_add of_nat_mod)
  then have "int i mod int m = int j mod int m"
    by (metis add_diff_cancel_left' mod_diff_left_eq)
  with assms(2,3) show ?thesis by simp
qed

lemma ring_update_outside:
  assumes "n < length xs"
  shows "ring (xs[(s + n) mod length xs := v]) s n = ring xs s n"
proof -
  have "(s + n) mod length xs \<noteq> (s + k) mod length xs" if "k < n" for k
    using add_mod_inj_nat [of s n "length xs" k] that assms by auto
  then show ?thesis by (auto simp: ring_def)
qed

lemma ring_push:
  assumes "n < length xs"
  shows "ring (xs[(s + n) mod length xs := v]) s (Suc n) = ring xs s n @ [v]"
proof -
  have "(s + n) mod length xs < length xs" using assms by (intro mod_less_divisor) linarith
  then show ?thesis
    using ring_update_outside [OF assms, of s v] by (simp add: ring_Suc)
qed

lemma ring_full_0: "ring xs 0 (length xs) = xs"
  by (rule nth_equalityI) (simp_all add: ring_def)

text \<open>Takes up to \<open>n\<close> elements out of a queue.\<close>

primrec drain :: "('q \<Rightarrow> ('a \<times> 'q) option) \<Rightarrow> nat \<Rightarrow> 'q \<Rightarrow> 'a list \<times> 'q" where
  "drain deq 0 q = ([], q)"
| "drain deq (Suc n) q =
     (case deq q of None \<Rightarrow> ([], q)
      | Some (x, q') \<Rightarrow> (let (xs, q'') = drain deq n q' in (x # xs, q'')))"

subsection \<open>The contract of a bounded queue\<close>

text \<open>
  \<open>deq\<close> returns \<open>None\<close> on an empty queue.  \<open>enq\<close> is promised to work only below the
  capacity.  The client lemmas derive what a client of any such queue relies on: elements
  come out in the order they went in.
\<close>

locale fifo =
  fixes view :: "'q \<Rightarrow> 'a list"
    and capacity :: "'q \<Rightarrow> nat"
    and deq :: "'q \<Rightarrow> ('a \<times> 'q) option"
    and enq :: "'a \<Rightarrow> 'q \<Rightarrow> 'q"
    and inv :: "'q \<Rightarrow> bool"
    and elem_ok :: "'q \<Rightarrow> 'a \<Rightarrow> bool"
  assumes deq_empty: "inv q \<Longrightarrow> view q = [] \<Longrightarrow> deq q = None"
    and deq_cons: "inv q \<Longrightarrow> view q = x # xs \<Longrightarrow>
      \<exists>q'. deq q = Some (x, q') \<and> inv q' \<and> view q' = xs \<and> capacity q' = capacity q"
    and enq_view: "inv q \<Longrightarrow> elem_ok q x \<Longrightarrow> length (view q) < capacity q \<Longrightarrow>
      inv (enq x q) \<and> view (enq x q) = view q @ [x] \<and> capacity (enq x q) = capacity q"
begin

lemma deq_iff: "inv q \<Longrightarrow> deq q = None \<longleftrightarrow> view q = []"
  using deq_empty deq_cons by (cases "view q") fastforce+

lemma deq_SomeD:
  "inv q \<Longrightarrow> deq q = Some (x, q') \<Longrightarrow> inv q' \<and> view q = x # view q' \<and> capacity q' = capacity q"
  using deq_empty deq_cons by (cases "view q") fastforce+

text \<open>Draining \<open>n\<close> elements yields the first \<open>n\<close> of the queue, in order.\<close>

lemma drain_take: "inv q \<Longrightarrow> fst (drain deq n q) = take n (view q)"
proof (induction n arbitrary: q)
  case 0
  then show ?case by simp
next
  case (Suc n)
  show ?case
  proof (cases "view q")
    case Nil
    with Suc.prems show ?thesis by (simp add: deq_empty)
  next
    case (Cons x xs)
    with deq_cons [OF Suc.prems] obtain q' where
      "deq q = Some (x, q')" "inv q'" "view q' = xs" by blast
    with Suc.IH [of q'] Cons show ?thesis by (simp add: split_beta)
  qed
qed

text \<open>
  An element that is put in comes out only after all that were in the queue before it.
\<close>

lemma drain_enq_last:
  assumes "inv q" and "elem_ok q x" and "length (view q) < capacity q"
  shows "fst (drain deq (Suc (length (view q))) (enq x q)) = view q @ [x]"
proof -
  from enq_view [OF assms] have "inv (enq x q)" and v: "view (enq x q) = view q @ [x]"
    by blast+
  then show ?thesis using drain_take [of "enq x q" "Suc (length (view q))"] by simp
qed

lemma drain_inv: "inv q \<Longrightarrow> inv (snd (drain deq n q)) \<and> view (snd (drain deq n q)) = drop n (view q)"
proof (induction n arbitrary: q)
  case 0
  then show ?case by simp
next
  case (Suc n)
  show ?case
  proof (cases "view q")
    case Nil
    with Suc.prems show ?thesis by (simp add: deq_empty)
  next
    case (Cons x xs)
    with deq_cons [OF Suc.prems] obtain q' where
      "deq q = Some (x, q')" "inv q'" "view q' = xs" by blast
    with Suc.IH [of q'] Cons show ?thesis by (simp add: split_beta)
  qed
qed

end

end
