(* ===== verification/MemPool.thy ===== *)
theory MemPool
  imports RingBuffer
begin

section \<open>The memory pool (\<open>ttimer/tdengine_old.c\<close>, \<open>memPool*\<close>)\<close>

text \<open>
  A pool of \<open>numOfBlock\<close> blocks of \<open>blockSize\<close> bytes in one \<open>malloc\<close>ed region, with a ring
  buffer \<open>freeList\<close> of the indices of its free blocks: \<open>first\<close> is the position the next
  block is taken from, \<open>numOfFree\<close> the number of entries.  \<open>memPoolMalloc\<close> takes from the
  front, \<open>memPoolFree\<close> appends at the back.

  The blocks' contents live in a store (\<open>CBase\<close>), one object per block address, of a type
  the pool does not know; \<open>memset(p, 0, blockSize)\<close> writes the object \<open>zero\<close>.  The handle is
  \<open>None\<close> for \<open>NULL\<close>.  Every operation runs under the pool's own mutex and is one atomic
  step here.  The messages the operations print are not modelled.
\<close>

record pool_t =
  numOfFree :: int
  first :: int
  numOfBlock :: int
  blockSize :: int
  freeList :: "int list"
  pool :: addr

text \<open>
  What \<open>malloc\<close> answers to the three requests of \<open>memPoolInit\<close>: whether the struct and
  the free list were allocated, the address of the block region (0 for failure), and the
  contents the region and the list happen to have.
\<close>

record 'b malloc_env =
  struct_ok :: bool
  pool_mem :: addr
  list_ok :: bool
  junk :: "addr \<Rightarrow> 'b"
  list_junk :: "int \<Rightarrow> int"

text \<open>
  A pointer to a \<open>malloc\<close>ed struct, with the struct when it points to a live one: every
  access goes through \<open>struct_get\<close> or \<open>struct_mod\<close>, which fail on \<open>NULL\<close> and on a struct
  that has been given back; \<open>free\<close> of \<open>NULL\<close> does nothing.
\<close>

datatype 'a cptr = Null | Live 'a | Freed

definition struct_get :: "'a cptr \<Rightarrow> 'a res" where
  "struct_get b = (case b of Null \<Rightarrow> Inl NullDeref | Live x \<Rightarrow> Inr x | Freed \<Rightarrow> Inl UseAfterFree)"

definition struct_mod :: "'a cptr \<Rightarrow> ('a \<Rightarrow> 'a) \<Rightarrow> 'a cptr res" where
  "struct_mod b f = bindE (struct_get b) (\<lambda>x. Inr (Live (f x)))"

definition struct_free :: "'a cptr \<Rightarrow> 'a cptr res" where
  "struct_free b = (case b of Null \<Rightarrow> Inr Null | Live x \<Rightarrow> Inr Freed | Freed \<Rightarrow> Inl UseAfterFree)"

lemma struct_get_simps [simp]:
  "struct_get (Live x) = Inr x" "struct_get Freed = Inl UseAfterFree" "struct_get Null = Inl NullDeref"
  by (simp_all add: struct_get_def)

lemma struct_mod_Live [simp]: "struct_mod (Live x) f = Inr (Live (f x))"
  by (simp add: struct_mod_def)

lemma struct_free_Live [simp]: "struct_free (Live x) = Inr Freed"
  by (simp add: struct_free_def)

definition block_addr :: "pool_t \<Rightarrow> int \<Rightarrow> addr" where
  "block_addr p i = pool p + blockSize p * i"

definition block_addrs :: "pool_t \<Rightarrow> addr set" where
  "block_addrs p = block_addr p ` {0..<numOfBlock p}"

subsection \<open>The operations\<close>

text \<open>
  The calls of \<open>malloc\<close> and \<open>free\<close>.  A free list that was not allocated is \<open>[]\<close>: the
  lists that are have at least two cells.  \<open>free\<close> of the region takes its blocks out of the
  store, and of \<open>NULL\<close> does nothing.
\<close>

definition malloc_region :: "'b malloc_env \<Rightarrow> pool_t \<Rightarrow> 'b heap \<Rightarrow> 'b heap" where
  "malloc_region env p h =
     (if pool p = 0 then h else (\<lambda>a. if a \<in> block_addrs p then Some (junk env a) else h a))"

definition malloc_list :: "'b malloc_env \<Rightarrow> int \<Rightarrow> int list" where
  "malloc_list env n = (if list_ok env then map (list_junk env) [0..n - 1] else [])"

definition free_region :: "pool_t \<Rightarrow> 'b heap \<Rightarrow> 'b heap" where
  "free_region p h = (if pool p = 0 then h else (\<lambda>a. if a \<in> block_addrs p then None else h a))"

text \<open>\<open>for(i = 0; i < pool_p->numOfBlock; i++) pool_p->freeList[i] = i;\<close>\<close>

fun fill_loop :: "nat \<Rightarrow> pool_t cptr \<Rightarrow> int \<Rightarrow> pool_t cptr res" where
  "fill_loop 0 b i = Inl OutOfFuel"
| "fill_loop (Suc n) b i =
     bindE (struct_get b) (\<lambda>p.
     if i < numOfBlock p then
       bindE (arr_set (freeList p) i i) (\<lambda>fl.
       bindE (struct_mod b (\<lambda>p. p\<lparr>freeList := fl\<rparr>)) (\<lambda>b'. fill_loop n b' (i + 1)))
     else Inr b)"

text \<open>
  When one of the two later allocations fails, the code frees all three and then goes on to
  initialise the mutex and the fields of the struct: there is no \<open>return\<close>.  Reading the
  struct for \<open>pthread_mutex_init\<close> stands for that call.
\<close>

definition memPoolInit ::
  "'b malloc_env \<Rightarrow> int \<Rightarrow> int \<Rightarrow> 'b heap \<Rightarrow> (pool_t option \<times> 'b heap) res" where
  "memPoolInit env num bsize h =
     (if num \<le> 1 \<or> bsize \<le> 1 then Inr (None, h)
      else if \<not> struct_ok env then Inr (None, h)
      else
        bindE (struct_mod (Live \<lparr>numOfFree = 0, first = 0, numOfBlock = 0, blockSize = 0,
                                 freeList = [], pool = 0\<rparr>)
          (\<lambda>p. p\<lparr>blockSize := bsize, numOfBlock := num\<rparr>)) (\<lambda>b.
        bindE (i32 (bsize * num)) (\<lambda>_.
        bindE (struct_mod b (\<lambda>p. p\<lparr>pool := pool_mem env\<rparr>)) (\<lambda>b.
        bindE (struct_mod b (\<lambda>p. p\<lparr>freeList := malloc_list env num\<rparr>)) (\<lambda>b.
        bindE (struct_get b) (\<lambda>p.
        bindE (if pool p = 0 \<or> freeList p = [] then
                 bindE (struct_free b) (\<lambda>b'. Inr (b', free_region p (malloc_region env p h)))
               else Inr (b, malloc_region env p h)) (\<lambda>(b, h').
        bindE (struct_get b) (\<lambda>_.
        bindE (fill_loop (Suc (nat num)) b 0) (\<lambda>b.
        bindE (struct_mod b (\<lambda>p. p\<lparr>first := 0\<rparr>)) (\<lambda>b.
        bindE (struct_mod b (\<lambda>p. p\<lparr>numOfFree := numOfBlock p\<rparr>)) (\<lambda>b.
        bindE (struct_get b) (\<lambda>p. Inr (Some p, h')))))))))))))"

fun memPoolMalloc ::
  "'b \<Rightarrow> pool_t option \<Rightarrow> 'b heap \<Rightarrow> (addr \<times> pool_t option \<times> 'b heap) res" where
  "memPoolMalloc zero None h = Inl NullDeref"
| "memPoolMalloc zero (Some p) h =
     (if numOfFree p \<le> 0 then Inr (0, Some p, h)
      else
        bindE (arr_get (freeList p) (first p)) (\<lambda>i.
        bindE (i32 (blockSize p * i)) (\<lambda>off.
        bindE (i32 (first p + 1)) (\<lambda>f1.
        bindE (c_mod f1 (numOfBlock p)) (\<lambda>f.
          (let pos = pool p + off;
               p' = p\<lparr>first := f, numOfFree := numOfFree p - 1\<rparr>
           in if pos \<noteq> 0
              then bindE (modify h pos (\<lambda>_. zero)) (\<lambda>h'. Inr (pos, Some p', h'))
              else Inr (pos, Some p', h)))))))"

text \<open>The difference of two pointers is a 64-bit integer, and so is its quotient.\<close>

definition ptr_div :: "int \<Rightarrow> int \<Rightarrow> int res" where
  "ptr_div d n = (if n = 0 then Inl DivByZero else Inr (d sdiv n))"

fun memPoolFree ::
  "'b \<Rightarrow> pool_t option \<Rightarrow> 'b heap \<Rightarrow> addr \<Rightarrow> (pool_t option \<times> 'b heap) res" where
  "memPoolFree zero None h pMem = Inr (None, h)"
| "memPoolFree zero (Some p) h pMem =
     (if pMem = 0 then Inr (Some p, h)
      else
        bindE (c_mod (to_i32 (pMem - pool p)) (blockSize p)) (\<lambda>r.
        if r \<noteq> 0 then Inr (Some p, h)
        else
          bindE (ptr_div (pMem - pool p) (blockSize p)) (\<lambda>d.
          if to_i32 d < 0 \<or> to_i32 d \<ge> numOfBlock p then Inr (Some p, h)
          else
            bindE (i32 (first p + numOfFree p)) (\<lambda>s.
            bindE (c_mod s (numOfBlock p)) (\<lambda>k.
            bindE (arr_set (freeList p) k (to_i32 d)) (\<lambda>fl.
            bindE (i32 (numOfFree p + 1)) (\<lambda>nf.
            bindE (modify h pMem (\<lambda>_. zero)) (\<lambda>h'.
              Inr (Some (p\<lparr>freeList := fl, numOfFree := nf\<rparr>), h')))))))))"

text \<open>
  \<open>memPoolCleanup\<close> gives the region and the free list back; the struct itself stays
  allocated.  It reads the handle before any check.
\<close>

fun memPoolCleanup :: "pool_t option \<Rightarrow> 'b heap \<Rightarrow> (pool_t option \<times> 'b heap) res" where
  "memPoolCleanup None h = Inl NullDeref"
| "memPoolCleanup (Some p) h =
     Inr (Some (p\<lparr>freeList := []\<rparr>), free_region p h)"

subsection \<open>The free queue and the invariant\<close>

definition free_queue :: "pool_t \<Rightarrow> int list" where
  "free_queue p = ring (freeList p) (nat (first p)) (nat (numOfFree p))"

definition free_addrs :: "pool_t \<Rightarrow> addr list" where
  "free_addrs p = map (block_addr p) (free_queue p)"

definition allocated :: "pool_t \<Rightarrow> addr set" where
  "allocated p = block_addrs p - set (free_addrs p)"

definition pool_shape :: "pool_t \<Rightarrow> bool" where
  "pool_shape p \<longleftrightarrow>
     1 < numOfBlock p \<and> 1 < blockSize p \<and> blockSize p * numOfBlock p < 2 ^ 31 \<and> 0 < pool p
     \<and> 0 \<le> first p \<and> first p < numOfBlock p
     \<and> 0 \<le> numOfFree p \<and> numOfFree p \<le> numOfBlock p
     \<and> length (freeList p) = nat (numOfBlock p)"

definition pool_inv :: "pool_t \<Rightarrow> 'b heap \<Rightarrow> bool" where
  "pool_inv p h \<longleftrightarrow>
     pool_shape p \<and> distinct (free_queue p) \<and> set (free_queue p) \<subseteq> {0..<numOfBlock p}
     \<and> block_addrs p \<subseteq> dom h"

definition same_geometry :: "pool_t \<Rightarrow> pool_t \<Rightarrow> bool" where
  "same_geometry p q \<longleftrightarrow>
     numOfBlock q = numOfBlock p \<and> blockSize q = blockSize p \<and> pool q = pool p"

lemma pool_invD:
  assumes "pool_inv p h"
  shows "1 < numOfBlock p" "1 < blockSize p" "blockSize p * numOfBlock p < 2147483648"
    "0 < pool p" "0 \<le> first p" "first p < numOfBlock p" "0 \<le> numOfFree p"
    "numOfFree p \<le> numOfBlock p" "length (freeList p) = nat (numOfBlock p)"
    "distinct (free_queue p)" "set (free_queue p) \<subseteq> {0..<numOfBlock p}"
    "block_addrs p \<subseteq> dom h"
  using assms by (auto simp: pool_inv_def pool_shape_def)

lemma numOfBlock_bound: "pool_inv p h \<Longrightarrow> 2 * numOfBlock p < 2147483648"
  using mult_right_mono [of 2 "blockSize p" "numOfBlock p"] by (force dest: pool_invD)

lemma blockSize_bound: "pool_inv p h \<Longrightarrow> blockSize p < 2147483648"
  using mult_left_mono [of 1 "numOfBlock p" "blockSize p"] by (force dest: pool_invD)

lemma block_addr_inj: "pool_inv p h \<Longrightarrow> block_addr p i = block_addr p j \<longleftrightarrow> i = j"
  by (auto simp: block_addr_def dest: pool_invD)

lemma inj_block_addr: "pool_inv p h \<Longrightarrow> inj (block_addr p)"
  by (rule injI) (simp add: block_addr_inj)

lemma block_addr_bounds:
  assumes "pool_inv p h" and "0 \<le> i" and "i < numOfBlock p"
  shows "0 \<le> blockSize p * i" "blockSize p * i < 2147483648"
proof -
  from pool_invD [OF assms(1)] assms(2,3)
  show "0 \<le> blockSize p * i" by simp
  from pool_invD(2) [OF assms(1)] assms(3) have "blockSize p * i < blockSize p * numOfBlock p"
    by simp
  with pool_invD(3) [OF assms(1)] show "blockSize p * i < 2147483648" by simp
qed

lemma block_addrs_nonzero: "pool_inv p h \<Longrightarrow> a \<in> block_addrs p \<Longrightarrow> a \<noteq> 0"
  using block_addr_bounds(1) [of p h] pool_invD(4) [of p h]
  by (fastforce simp: block_addrs_def block_addr_def)

lemma block_addrs_geometry: "same_geometry p q \<Longrightarrow> block_addrs q = block_addrs p"
  by (simp add: same_geometry_def block_addrs_def block_addr_def)

lemma block_addr_geometry: "same_geometry p q \<Longrightarrow> block_addr q = block_addr p"
  by (simp add: same_geometry_def block_addr_def fun_eq_iff)

lemma length_free_addrs: "length (free_addrs p) = nat (numOfFree p)"
  by (simp add: free_addrs_def free_queue_def)

lemma distinct_free_addrs: "pool_inv p h \<Longrightarrow> distinct (free_addrs p)"
  using inj_block_addr [of p h]
  by (auto simp: free_addrs_def distinct_map pool_invD intro: inj_on_subset)

lemma set_free_addrs: "pool_inv p h \<Longrightarrow> set (free_addrs p) \<subseteq> block_addrs p"
  using pool_invD(11) [of p h] by (auto simp: free_addrs_def block_addrs_def)

lemma allocated_subset: "allocated p \<subseteq> block_addrs p"
  by (auto simp: allocated_def)

lemma finite_block_addrs [simp]: "finite (block_addrs p)"
  by (simp add: block_addrs_def)

lemma finite_allocated [simp]: "finite (allocated p)"
  by (simp add: allocated_def)

lemma card_block_addrs: "pool_inv p h \<Longrightarrow> card (block_addrs p) = nat (numOfBlock p)"
  using inj_block_addr [of p h] by (simp add: block_addrs_def card_image inj_on_subset)

text \<open>The pool's books balance: what is not free is allocated.\<close>

lemma card_allocated:
  assumes "pool_inv p h"
  shows "int (card (allocated p)) = numOfBlock p - numOfFree p"
proof -
  have "card (allocated p) = card (block_addrs p) - card (set (free_addrs p))"
    unfolding allocated_def by (rule card_Diff_subset) (simp_all add: set_free_addrs [OF assms])
  also have "card (set (free_addrs p)) = nat (numOfFree p)"
    using distinct_free_addrs [OF assms] by (simp add: distinct_card length_free_addrs)
  finally show ?thesis
    using pool_invD [OF assms] by (simp add: card_block_addrs [OF assms])
qed

lemma pool_inv_heap: "pool_inv p h \<Longrightarrow> dom h \<subseteq> dom h' \<Longrightarrow> pool_inv p h'"
  unfolding pool_inv_def by blast

subsection \<open>Taking a block and giving one back\<close>

text \<open>The successor states of a successful \<open>memPoolMalloc\<close> and \<open>memPoolFree\<close>.\<close>

definition pool_take :: "pool_t \<Rightarrow> pool_t" where
  "pool_take p = p\<lparr>first := (first p + 1) mod numOfBlock p, numOfFree := numOfFree p - 1\<rparr>"

definition pool_give :: "pool_t \<Rightarrow> int \<Rightarrow> pool_t" where
  "pool_give p i = p\<lparr>freeList := (freeList p)[nat ((first p + numOfFree p) mod numOfBlock p) := i],
                     numOfFree := numOfFree p + 1\<rparr>"

lemma same_geometry_take [simp]: "same_geometry p (pool_take p)"
  by (simp add: same_geometry_def pool_take_def)

lemma same_geometry_give [simp]: "same_geometry p (pool_give p i)"
  by (simp add: same_geometry_def pool_give_def)

lemma numOfFree_take [simp]: "numOfFree (pool_take p) = numOfFree p - 1"
  by (simp add: pool_take_def)

lemma numOfFree_give [simp]: "numOfFree (pool_give p i) = numOfFree p + 1"
  by (simp add: pool_give_def)

lemma numOfBlock_take_give [simp]:
  "numOfBlock (pool_take p) = numOfBlock p" "numOfBlock (pool_give p i) = numOfBlock p"
  by (simp_all add: pool_take_def pool_give_def)

lemma free_queue_take:
  assumes "pool_inv p h" and "0 < numOfFree p"
  shows "free_queue p = freeList p ! nat (first p) # free_queue (pool_take p)"
proof -
  note inv = pool_invD [OF assms(1)]
  obtain n where n: "nat (numOfFree p) = Suc n" "nat (numOfFree p - 1) = n"
    using assms(2) by (metis Suc_nat_eq_nat_zadd1 add.commute diff_add_cancel zle_diff1_eq diff_ge_0_iff_ge zero_less_imp_eq_int nat_int int_one_le_iff_zero_less)
  have "nat (first p) mod nat (numOfBlock p) = nat (first p)"
    using inv by simp
  moreover have "Suc (nat (first p)) mod nat (numOfBlock p) = nat ((first p + 1) mod numOfBlock p)"
    using inv by (simp add: nat_mod_distrib Suc_nat_eq_nat_zadd1 add.commute)
  ultimately show ?thesis
    using inv n by (simp add: free_queue_def pool_take_def ring_Cons)
qed

lemma free_queue_give:
  assumes "pool_inv p h" and "numOfFree p < numOfBlock p"
  shows "free_queue (pool_give p i) = free_queue p @ [i]"
proof -
  note inv = pool_invD [OF assms(1)]
  let ?L = "length (freeList p)"
  have "nat ((first p + numOfFree p) mod numOfBlock p) = (nat (first p) + nat (numOfFree p)) mod ?L"
    using inv by (simp add: nat_mod_distrib nat_add_distrib)
  moreover have "nat (numOfFree p + 1) = Suc (nat (numOfFree p))"
    using inv by (simp add: Suc_nat_eq_nat_zadd1 add.commute)
  moreover have "nat (numOfFree p) < ?L" using inv assms(2) by simp
  ultimately show ?thesis
    by (simp add: free_queue_def pool_give_def ring_push)
qed

lemma free_addrs_take:
  assumes "pool_inv p h" and "0 < numOfFree p"
  shows "free_addrs p = block_addr p (freeList p ! nat (first p)) # free_addrs (pool_take p)"
  by (simp add: free_addrs_def free_queue_take [OF assms] block_addr_geometry [of p "pool_take p"])

lemma free_addrs_give:
  assumes "pool_inv p h" and "numOfFree p < numOfBlock p"
  shows "free_addrs (pool_give p i) = free_addrs p @ [block_addr p i]"
  by (simp add: free_addrs_def free_queue_give [OF assms] block_addr_geometry [of p "pool_give p i"])

lemma pool_inv_take:
  assumes "pool_inv p h" and "0 < numOfFree p"
  shows "pool_inv (pool_take p) h"
proof -
  note inv = pool_invD [OF assms(1)]
  have "pool_shape (pool_take p)"
    using inv assms(2) by (simp add: pool_shape_def pool_take_def)
  with inv show ?thesis
    by (simp add: pool_inv_def free_queue_take [OF assms] block_addrs_geometry [of p "pool_take p"])
qed

lemma pool_inv_give:
  assumes "pool_inv p h" and "0 \<le> i" and "i < numOfBlock p" and "i \<notin> set (free_queue p)"
  shows "pool_inv (pool_give p i) h" and "numOfFree p < numOfBlock p"
proof -
  note inv = pool_invD [OF assms(1)]
  have "insert i (set (free_queue p)) \<subseteq> {0..<numOfBlock p}" using inv assms by simp
  then have "card (insert i (set (free_queue p))) \<le> card {0..<numOfBlock p}"
    by (rule card_mono [rotated]) simp
  then have "Suc (nat (numOfFree p)) \<le> nat (numOfBlock p)"
    using assms(4) inv by (simp add: distinct_card free_queue_def)
  then show lt: "numOfFree p < numOfBlock p" by simp
  have "pool_shape (pool_give p i)"
    using inv lt by (simp add: pool_shape_def pool_give_def)
  with inv assms lt show "pool_inv (pool_give p i) h"
    by (simp add: pool_inv_def free_queue_give [OF assms(1)]
        block_addrs_geometry [of p "pool_give p i"])
qed

lemma allocated_take:
  assumes "pool_inv p h" and "0 < numOfFree p"
  shows "allocated (pool_take p) = insert (hd (free_addrs p)) (allocated p)"
    and "hd (free_addrs p) \<notin> allocated p" and "hd (free_addrs p) \<in> block_addrs p"
proof -
  note fa = free_addrs_take [OF assms]
  show "hd (free_addrs p) \<notin> allocated p" by (simp add: allocated_def fa)
  show blk: "hd (free_addrs p) \<in> block_addrs p"
    using set_free_addrs [OF assms(1)] by (simp add: fa)
  show "allocated (pool_take p) = insert (hd (free_addrs p)) (allocated p)"
    using distinct_free_addrs [OF assms(1)] blk
    by (auto simp: allocated_def fa block_addrs_geometry [of p "pool_take p"])
qed

lemma allocated_give:
  assumes "pool_inv p h" and "numOfFree p < numOfBlock p"
  shows "allocated (pool_give p i) = allocated p - {block_addr p i}"
  by (auto simp: allocated_def free_addrs_give [OF assms] block_addrs_geometry [of p "pool_give p i"])

subsection \<open>What the operations return\<close>

lemma memPoolMalloc_full:
  "numOfFree p \<le> 0 \<Longrightarrow> memPoolMalloc zero (Some p) h = Inr (0, Some p, h)"
  by simp

lemma memPoolMalloc_some:
  assumes "pool_inv p h" and "0 < numOfFree p"
  shows "memPoolMalloc zero (Some p) h =
    Inr (hd (free_addrs p), Some (pool_take p), h(hd (free_addrs p) \<mapsto> zero))"
proof -
  note inv = pool_invD [OF assms(1)]
  let ?i = "freeList p ! nat (first p)"
  have i: "0 \<le> ?i" "?i < numOfBlock p"
    using inv(11) by (auto simp: free_queue_take [OF assms])
  have a: "hd (free_addrs p) = block_addr p ?i" by (simp add: free_addrs_take [OF assms])
  have "block_addr p ?i \<in> block_addrs p" using i by (simp add: block_addrs_def)
  then have nz: "block_addr p ?i \<noteq> 0" and "block_addr p ?i \<in> dom h"
    using block_addrs_nonzero [OF assms(1)] inv(12) by auto
  then obtain ob where ob: "h (block_addr p ?i) = Some ob" by blast
  have ok: "int_ok (blockSize p * ?i)" "int_ok (first p + 1)" "int_ok (numOfBlock p)"
    using block_addr_bounds [OF assms(1) i] inv numOfBlock_bound [OF assms(1)]
    by (simp_all add: int_ok_def)
  show ?thesis
    using inv assms(2) ok nz ob by (simp add: c_simps a block_addr_def pool_take_def Let_def)
qed

text \<open>
  \<open>memPoolFree\<close> takes any block address back, whether or not the block is allocated.
\<close>

lemma memPoolFree_block:
  assumes "pool_inv p h" and "0 \<le> i" and "i < numOfBlock p"
  shows "memPoolFree zero (Some p) h (block_addr p i) =
    Inr (Some (pool_give p i), h(block_addr p i \<mapsto> zero))"
proof -
  note inv = pool_invD [OF assms(1)]
  have "block_addr p i \<in> block_addrs p" using assms(2,3) by (simp add: block_addrs_def)
  with block_addrs_nonzero [OF assms(1)] inv(12) obtain ob
    where a: "block_addr p i \<noteq> 0" "h (block_addr p i) = Some ob" by blast
  note b = block_addr_bounds [OF assms]
  have "int_ok (blockSize p * i)" by (rule int_okI) (use b in linarith)+
  moreover have "int_ok (first p + numOfFree p)" "int_ok (numOfBlock p)"
      "int_ok (blockSize p)" "int_ok (numOfFree p + 1)" "int_ok i"
    using inv numOfBlock_bound [OF assms(1)] blockSize_bound [OF assms(1)] assms
    by (simp_all add: int_ok_def)
  ultimately have ok: "int_ok (blockSize p * i)" "int_ok (first p + numOfFree p)"
      "int_ok (numOfBlock p)" "int_ok (blockSize p)" "int_ok (numOfFree p + 1)" "int_ok i"
    by blast+
  have nz: "pool p + blockSize p * i \<noteq> 0" using inv(4) b by linarith
  have q: "(blockSize p * i) sdiv blockSize p = i" using inv b by (simp add: sdiv_nonneg)
  show ?thesis
    using inv a ok b q assms nz by (simp add: c_simps block_addr_def ptr_div_def pool_give_def)
qed

lemma memPoolFree_ok:
  assumes "pool_inv p h" and "a \<in> allocated p"
  shows "\<exists>i. a = block_addr p i \<and> i \<notin> set (free_queue p) \<and> 0 \<le> i \<and> i < numOfBlock p \<and>
    memPoolFree zero (Some p) h a = Inr (Some (pool_give p i), h(a \<mapsto> zero))"
proof -
  from assms(2) obtain i where i: "a = block_addr p i" "0 \<le> i" "i < numOfBlock p"
    by (auto simp: allocated_def block_addrs_def)
  with assms(2) have "i \<notin> set (free_queue p)"
    by (auto simp: allocated_def free_addrs_def)
  with i memPoolFree_block [OF assms(1) i(2,3)] show ?thesis by blast
qed

text \<open>
  What \<open>memPoolInit\<close> comes to: the fill loop writes every index, and its fuel, one more than
  the number of blocks, is enough.
\<close>

lemma fill_loop_prefix:
  assumes "length (freeList p) = nat (numOfBlock p)" and "j \<le> nat (numOfBlock p)"
    and "nat (numOfBlock p) - j < n" and "take j (freeList p) = map int [0..<j]"
  shows "fill_loop n (Live p) (int j) = Inr (Live (p\<lparr>freeList := map int [0..<nat (numOfBlock p)]\<rparr>))"
  using assms
proof (induction n arbitrary: p j)
  case (Suc n)
  show ?case
  proof (cases "j < nat (numOfBlock p)")
    case True
    let ?fl = "(freeList p)[j := int j]"
    have "take (Suc j) ?fl = map int [0..<Suc j]"
      using True Suc.prems(1,4) by (simp add: take_Suc_conv_app_nth)
    with Suc.IH [of "p\<lparr>freeList := ?fl\<rparr>" "Suc j"] Suc.prems True show ?thesis
      by (simp add: arr_set_def add.commute)
  next
    case False
    with Suc.prems show ?thesis by simp
  qed
qed simp

lemma map_int_upt: "map int [0..<n] = [0..int n - 1]"
  by (rule nth_equalityI) simp_all

lemma fill_loop_all:
  assumes "length (freeList p) = nat (numOfBlock p)" and "0 \<le> numOfBlock p"
  shows "fill_loop (Suc (nat (numOfBlock p))) (Live p) 0 = Inr (Live (p\<lparr>freeList := [0..numOfBlock p - 1]\<rparr>))"
  using fill_loop_prefix [of p 0 "Suc (nat (numOfBlock p))"] assms
  by (simp add: map_int_upt del: fill_loop.simps)

lemma malloc_list_empty: "1 < n \<Longrightarrow> malloc_list env n = [] \<longleftrightarrow> \<not> list_ok env"
  by (simp add: malloc_list_def)

lemma malloc_list_length: "list_ok env \<Longrightarrow> length (malloc_list env n) = nat n"
  by (simp add: malloc_list_def)

lemma malloc_region_geometry: "same_geometry p q \<Longrightarrow> malloc_region env q = malloc_region env p"
  by (simp add: malloc_region_def block_addrs_geometry fun_eq_iff) (simp add: same_geometry_def)

lemma memPoolInit_null:
  "num \<le> 1 \<or> bsize \<le> 1 \<or> \<not> struct_ok env \<Longrightarrow> memPoolInit env num bsize h = Inr (None, h)"
  by (simp only: memPoolInit_def) auto

lemma memPoolInit_eq:
  assumes "1 < num" and "1 < bsize" and "struct_ok env"
  shows "memPoolInit env num bsize h =
    bindE (i32 (bsize * num)) (\<lambda>_.
      if pool_mem env = 0 \<or> \<not> list_ok env then Inl UseAfterFree
      else
        (let p = \<lparr>numOfFree = num, first = 0, numOfBlock = num, blockSize = bsize,
                  freeList = [0..num - 1], pool = pool_mem env\<rparr>
         in Inr (Some p, malloc_region env p h)))"
proof (cases "int_ok (bsize * num)")
  case True
  let ?p = "\<lparr>numOfFree = 0, first = 0, numOfBlock = num, blockSize = bsize,
    freeList = malloc_list env num, pool = pool_mem env\<rparr>"
  let ?q = "\<lparr>numOfFree = num, first = 0, numOfBlock = num, blockSize = bsize,
    freeList = [0..num - 1], pool = pool_mem env\<rparr>"
  have "malloc_region env ?p = malloc_region env ?q"
    by (rule malloc_region_geometry) (simp add: same_geometry_def)
  moreover have "fill_loop (Suc (nat num)) (Live ?p) 0 = Inr (Live (?p\<lparr>freeList := [0..num - 1]\<rparr>))"
    if "list_ok env"
    using fill_loop_all [of ?p] assms(1) that by (simp add: malloc_list_length)
  ultimately show ?thesis
    using True assms
    by (simp add: memPoolInit_def c_simps Let_def malloc_list_empty del: fill_loop.simps)
next
  case False
  with assms show ?thesis by (simp add: memPoolInit_def i32_def)
qed

lemma memPoolInit_some:
  assumes "1 < num" and "1 < bsize" and "int_ok (bsize * num)"
    and "struct_ok env" and "0 < pool_mem env" and "list_ok env"
  shows "\<exists>p h'. memPoolInit env num bsize h = Inr (Some p, h') \<and> pool_inv p h'
    \<and> free_queue p = [0..num - 1] \<and> numOfFree p = num \<and> numOfBlock p = num
    \<and> blockSize p = bsize \<and> pool p = pool_mem env \<and> allocated p = {}
    \<and> dom h' = dom h \<union> block_addrs p"
proof -
  let ?p = "\<lparr>numOfFree = num, first = 0, numOfBlock = num, blockSize = bsize,
    freeList = [0..num - 1], pool = pool_mem env\<rparr>"
  let ?h = "\<lambda>a. if a \<in> block_addrs ?p then Some (junk env a) else h a"
  have run: "memPoolInit env num bsize h = Inr (Some ?p, ?h)"
    using assms by (simp add: memPoolInit_eq c_simps Let_def malloc_region_def)
  have q: "free_queue ?p = [0..num - 1]"
    using assms(1) ring_full_0 [of "[0..num - 1]"] by (simp add: free_queue_def)
  have "pool_shape ?p"
    using assms by (simp add: pool_shape_def int_ok_def)
  then have "pool_inv ?p ?h"
    by (auto simp: pool_inv_def q)
  moreover have "allocated ?p = {}"
    by (auto simp: allocated_def free_addrs_def q block_addrs_def block_addr_def image_iff)
  ultimately show ?thesis using run q by (auto intro!: exI [of _ ?p] exI [of _ ?h] split: if_splits)
qed

text \<open>Whatever the allocations answer, a pool that is returned has its invariant.\<close>

lemma memPoolInit_cases:
  "memPoolInit env num bsize h = Inr (Some p, h') \<Longrightarrow>
     1 < num \<and> 1 < bsize \<and> int_ok (bsize * num) \<and> struct_ok env \<and> pool_mem env \<noteq> 0 \<and> list_ok env
     \<and> p = \<lparr>numOfFree = num, first = 0, numOfBlock = num, blockSize = bsize, freeList = [0..num - 1],
             pool = pool_mem env\<rparr>
     \<and> h' = malloc_region env p h"
  by (cases "num \<le> 1 \<or> bsize \<le> 1 \<or> \<not> struct_ok env")
    (simp add: memPoolInit_null, auto simp: memPoolInit_eq bindE_eq_Inr_iff i32_eq_Inr Let_def split: if_splits)

lemma memPoolInit_outside:
  "memPoolInit env num bsize h = Inr (Some p, h') \<Longrightarrow> a \<notin> block_addrs p \<Longrightarrow> h' a = h a"
  by (drule memPoolInit_cases) (simp add: malloc_region_def)

text \<open>A pointer that is no block address is refused without any change.\<close>

lemma memPoolFree_reject:
  assumes inv: "pool_inv p h" and out: "a \<notin> block_addrs p" and near: "int_ok (a - pool p)"
  shows "memPoolFree zero (Some p) h a = Inr (Some p, h)"
proof -
  let ?d = "a - pool p" and ?b = "blockSize p"
  have b: "1 < ?b" "?b \<noteq> 0" "int_ok ?b"
    using pool_invD(2) [OF inv] blockSize_bound [OF inv] by (simp_all add: int_ok_def)
  let ?q = "?d sdiv ?b"
  have split: "?d = ?q * ?b + ?d smod ?b"
    using sdiv_mult_smod_eq [of ?d ?b] by simp
  have "\<bar>?q\<bar> = \<bar>?d\<bar> div ?b"
    using b by (cases "?d = 0") (simp_all add: signed_divide_int_def abs_mult abs_sgn_eq
        pos_imp_zdiv_nonneg_iff)
  also have "\<dots> \<le> \<bar>?d\<bar> div 2" using b by (intro zdiv_mono2) simp_all
  finally have absq: "2 * \<bar>?q\<bar> \<le> \<bar>?d\<bar>" by linarith
  show ?thesis
  proof (cases "?d smod ?b = 0")
    case True
    then have qd: "?d = ?b * ?q" using split by (simp add: mult.commute)
    have "?q < 0 \<or> numOfBlock p \<le> ?q"
    proof (rule ccontr)
      assume "\<not> ?thesis"
      then have "?q \<in> {0..<numOfBlock p}" by simp
      moreover have "a = block_addr p ?q" using qd by (simp add: block_addr_def)
      ultimately show False using out unfolding block_addrs_def by blast
    qed
    moreover have "int_ok ?q"
      by (rule int_okI) (use absq int_okD [OF near] in linarith)+
    ultimately show ?thesis
      using True near b by (simp add: c_mod_ok to_i32_id ptr_div_def)
  next
    case False
    then show ?thesis
      using near b by (simp add: c_mod_ok to_i32_id)
  qed
qed

declare memPoolMalloc.simps(2) [simp del] memPoolFree.simps(2) [simp del]

end
