(* ===== verification/PoolSpec.thy ===== *)
theory PoolSpec
  imports MemPool
begin

section \<open>What the memory pool promises\<close>

text \<open>
  Two contracts: \<open>allocator\<close>, which the timer controller relies on (a block that is handed
  out is live and was not live before, a live block can be given back, nothing else
  changes), and \<open>fifo\<close> of \<open>RingBuffer\<close> (the order in which blocks are reused).  Both are
  interpreted on \<open>memPoolMalloc\<close> and \<open>memPoolFree\<close>; the pool's properties follow.
\<close>

subsection \<open>The contract of an allocator\<close>

datatype alloc_op = Alloc | Release nat

text \<open>
  A client that holds a list of blocks: \<open>Alloc\<close> asks for one more, \<open>Release k\<close> gives the
  \<open>k\<close>-th one back.
\<close>

fun alloc_run ::
  "('s \<Rightarrow> (addr \<times> 's) res) \<Rightarrow> ('s \<Rightarrow> addr \<Rightarrow> 's res) \<Rightarrow> alloc_op list \<Rightarrow> addr list \<Rightarrow> 's
     \<Rightarrow> (addr list \<times> 's) res" where
  "alloc_run alloc release [] held s = Inr (held, s)"
| "alloc_run alloc release (Alloc # ops) held s =
     bindE (alloc s) (\<lambda>(a, s'). alloc_run alloc release ops (if a = 0 then held else a # held) s')"
| "alloc_run alloc release (Release k # ops) held s =
     (if k < length held
      then bindE (release s (held ! k))
             (\<lambda>s'. alloc_run alloc release ops (take k held @ drop (Suc k) held) s')
      else alloc_run alloc release ops held s)"

lemma distinct_take_drop_nth:
  assumes "distinct xs" and "k < length xs"
  shows "distinct (take k xs @ drop (Suc k) xs)"
    and "set (take k xs @ drop (Suc k) xs) = set xs - {xs ! k}"
proof -
  have eq: "xs = take k xs @ xs ! k # drop (Suc k) xs" using assms(2) by (rule id_take_nth_drop)
  with assms(1) have d: "distinct (take k xs @ xs ! k # drop (Suc k) xs)" by simp
  then show "distinct (take k xs @ drop (Suc k) xs)" by simp
  from eq have "set xs = set (take k xs @ xs ! k # drop (Suc k) xs)" by simp
  with d show "set (take k xs @ drop (Suc k) xs) = set xs - {xs ! k}" by auto
qed

locale allocator =
  fixes alloc :: "'s \<Rightarrow> (addr \<times> 's) res"
    and release :: "'s \<Rightarrow> addr \<Rightarrow> 's res"
    and live :: "'s \<Rightarrow> addr set"
    and room :: "'s \<Rightarrow> nat"
    and inv :: "'s \<Rightarrow> bool"
  assumes alloc_room: "inv s \<Longrightarrow> 0 < room s \<Longrightarrow>
      \<exists>a s'. alloc s = Inr (a, s') \<and> inv s' \<and> a \<noteq> 0 \<and> a \<notin> live s
        \<and> live s' = insert a (live s) \<and> room s = Suc (room s')"
    and alloc_full: "inv s \<Longrightarrow> room s = 0 \<Longrightarrow> alloc s = Inr (0, s)"
    and release_live: "inv s \<Longrightarrow> a \<in> live s \<Longrightarrow>
      \<exists>s'. release s a = Inr s' \<and> inv s' \<and> live s' = live s - {a} \<and> room s' = Suc (room s)"
begin

text \<open>
  A client that gives back only what it holds never meets an error; what it holds are
  exactly the live blocks, without repetition, and no block is lost.
\<close>

lemma run_safe:
  assumes "inv s" and "distinct held" and "set held = live s"
  shows "\<exists>held' s'. alloc_run alloc release ops held s = Inr (held', s') \<and> inv s'
    \<and> distinct held' \<and> set held' = live s' \<and> length held' + room s' = length held + room s"
  using assms
proof (induction ops arbitrary: held s)
  case Nil
  then show ?case by simp
next
  case (Cons oper ops)
  show ?case
  proof (cases oper)
    case Alloc
    show ?thesis
    proof (cases "room s")
      case 0
      with alloc_full [OF Cons.prems(1)] Cons.IH [OF Cons.prems] show ?thesis
        by (simp add: Alloc)
    next
      case (Suc n)
      with alloc_room [OF Cons.prems(1)] obtain a s' where s': "alloc s = Inr (a, s')" "inv s'"
        "a \<noteq> 0" "a \<notin> live s" "live s' = insert a (live s)" "room s = Suc (room s')" by auto
      with Cons.IH [of s' "a # held"] Cons.prems show ?thesis by (auto simp: Alloc)
    qed
  next
    case (Release k)
    show ?thesis
    proof (cases "k < length held")
      case False
      with Cons.IH [OF Cons.prems] show ?thesis by (simp add: Release)
    next
      case True
      with Cons.prems have "held ! k \<in> live s" by (metis nth_mem)
      with release_live [OF Cons.prems(1)] obtain s' where s': "release s (held ! k) = Inr s'"
        "inv s'" "live s' = live s - {held ! k}" "room s' = Suc (room s)" by blast
      note rem = distinct_take_drop_nth [OF Cons.prems(2) True]
      have "length (take k held @ drop (Suc k) held) + room s' = length held + room s"
        using True s' by simp
      with Cons.IH [of s' "take k held @ drop (Suc k) held"] rem s' Cons.prems True
      show ?thesis by (simp add: Release)
    qed
  qed
qed

text \<open>Asking \<open>n\<close> times in a row, within the room, yields \<open>n\<close> distinct blocks.\<close>

lemma run_allocs:
  assumes "inv s" and "distinct held" and "set held = live s" and "n \<le> room s"
  shows "\<exists>held' s'. alloc_run alloc release (replicate n Alloc) held s = Inr (held', s') \<and> inv s'
    \<and> distinct held' \<and> set held' = live s' \<and> length held' = length held + n \<and> room s' = room s - n"
  using assms
proof (induction n arbitrary: held s)
  case 0
  then show ?case by simp
next
  case (Suc n)
  with alloc_room [OF Suc.prems(1)] obtain a s' where s': "alloc s = Inr (a, s')" "inv s'"
    "a \<noteq> 0" "a \<notin> live s" "live s' = insert a (live s)" "room s = Suc (room s')" by auto
  with Suc.IH [of s' "a # held"] Suc.prems show ?case by auto
qed

end

subsection \<open>The pool is an allocator\<close>

type_synonym 'b pool_state = "pool_t option \<times> 'b heap"

definition pool_alloc :: "'b \<Rightarrow> 'b pool_state \<Rightarrow> (addr \<times> 'b pool_state) res" where
  "pool_alloc zero s = memPoolMalloc zero (fst s) (snd s)"

definition pool_release :: "'b \<Rightarrow> 'b pool_state \<Rightarrow> addr \<Rightarrow> 'b pool_state res" where
  "pool_release zero s a = memPoolFree zero (fst s) (snd s) a"

definition pool_live :: "'b pool_state \<Rightarrow> addr set" where
  "pool_live s = (case fst s of None \<Rightarrow> {} | Some p \<Rightarrow> allocated p)"

definition pool_room :: "'b pool_state \<Rightarrow> nat" where
  "pool_room s = (case fst s of None \<Rightarrow> 0 | Some p \<Rightarrow> nat (numOfFree p))"

definition pool_ok :: "'b pool_state \<Rightarrow> bool" where
  "pool_ok s = (case fst s of None \<Rightarrow> False | Some p \<Rightarrow> pool_inv p (snd s))"

lemmas pool_state_defs = pool_alloc_def pool_release_def pool_live_def pool_room_def pool_ok_def

lemma pool_okE:
  assumes "pool_ok s"
  obtains p h where "s = (Some p, h)" "pool_inv p h"
  using assms by (cases s) (auto simp: pool_ok_def split: option.splits)

lemma pool_alloc_step:
  assumes "pool_inv p h" and "0 < numOfFree p"
  shows "pool_alloc zero (Some p, h) =
    Inr (hd (free_addrs p), (Some (pool_take p), h(hd (free_addrs p) \<mapsto> zero)))"
    and "pool_inv (pool_take p) (h(hd (free_addrs p) \<mapsto> zero))"
proof -
  show "pool_alloc zero (Some p, h) =
    Inr (hd (free_addrs p), (Some (pool_take p), h(hd (free_addrs p) \<mapsto> zero)))"
    using memPoolMalloc_some [OF assms] by (simp add: pool_alloc_def)
  show "pool_inv (pool_take p) (h(hd (free_addrs p) \<mapsto> zero))"
    by (rule pool_inv_heap [OF pool_inv_take [OF assms]]) auto
qed

lemma pool_release_step:
  assumes "pool_inv p h" and "a \<in> allocated p"
  shows "\<exists>q. pool_release zero (Some p, h) a = Inr (Some q, h(a \<mapsto> zero))
    \<and> pool_inv q (h(a \<mapsto> zero)) \<and> allocated q = allocated p - {a}
    \<and> free_addrs q = free_addrs p @ [a] \<and> numOfFree q = numOfFree p + 1 \<and> same_geometry p q"
proof -
  from memPoolFree_ok [OF assms, of zero] obtain i where i: "a = block_addr p i"
    "i \<notin> set (free_queue p)" "0 \<le> i" "i < numOfBlock p"
    "memPoolFree zero (Some p) h a = Inr (Some (pool_give p i), h(a \<mapsto> zero))" by blast
  note give = pool_inv_give [OF assms(1) i(3,4,2)]
  have "pool_inv (pool_give p i) (h(a \<mapsto> zero))"
    by (rule pool_inv_heap [OF give(1)]) auto
  with i show ?thesis
    by (auto simp: pool_release_def allocated_give [OF assms(1) give(2)]
        free_addrs_give [OF assms(1) give(2)] intro!: exI [of _ "pool_give p i"])
qed

interpretation pa: allocator "pool_alloc zero" "pool_release zero" pool_live pool_room pool_ok
  for zero :: 'b
proof unfold_locales
  fix s :: "'b pool_state"
  assume "pool_ok s" and room: "0 < pool_room s"
  then obtain p h where s: "s = (Some p, h)" "pool_inv p h" by (elim pool_okE)
  with room have free: "0 < numOfFree p" by (simp add: pool_room_def)
  note al = allocated_take [OF s(2) free]
  show "\<exists>a s'. pool_alloc zero s = Inr (a, s') \<and> pool_ok s' \<and> a \<noteq> 0 \<and> a \<notin> pool_live s
    \<and> pool_live s' = insert a (pool_live s) \<and> pool_room s = Suc (pool_room s')"
    using pool_alloc_step [OF s(2) free, of zero] al free block_addrs_nonzero [OF s(2) al(3)]
    by (simp add: s(1) pool_live_def pool_room_def pool_ok_def Suc_nat_eq_nat_zadd1)
next
  fix s :: "'b pool_state"
  assume "pool_ok s" and "pool_room s = 0"
  then show "pool_alloc zero s = Inr (0, s)"
    by (elim pool_okE) (simp add: pool_room_def pool_alloc_def memPoolMalloc_full)
next
  fix s :: "'b pool_state" and a
  assume "pool_ok s" and live: "a \<in> pool_live s"
  then obtain p h where s: "s = (Some p, h)" "pool_inv p h" by (elim pool_okE)
  with live have "a \<in> allocated p" by (simp add: pool_live_def)
  with pool_release_step [OF s(2), of a zero] pool_invD(7) [OF s(2)]
  show "\<exists>s'. pool_release zero s a = Inr s' \<and> pool_ok s' \<and> pool_live s' = pool_live s - {a}
    \<and> pool_room s' = Suc (pool_room s)"
    by (auto simp: s(1) pool_live_def pool_room_def pool_ok_def Suc_nat_eq_nat_zadd1 add.commute)
qed

subsection \<open>The pool is a FIFO queue of its free blocks\<close>

definition pool_view :: "'b pool_state \<Rightarrow> addr list" where
  "pool_view s = (case fst s of None \<Rightarrow> [] | Some p \<Rightarrow> free_addrs p)"

definition pool_capacity :: "'b pool_state \<Rightarrow> nat" where
  "pool_capacity s = (case fst s of None \<Rightarrow> 0 | Some p \<Rightarrow> nat (numOfBlock p))"

definition pool_deq :: "'b \<Rightarrow> 'b pool_state \<Rightarrow> (addr \<times> 'b pool_state) option" where
  "pool_deq zero s =
     (case pool_alloc zero s of Inl _ \<Rightarrow> None | Inr (a, s') \<Rightarrow> if a = 0 then None else Some (a, s'))"

definition pool_enq :: "'b \<Rightarrow> addr \<Rightarrow> 'b pool_state \<Rightarrow> 'b pool_state" where
  "pool_enq zero a s = (case pool_release zero s a of Inl _ \<Rightarrow> s | Inr s' \<Rightarrow> s')"

interpretation pq: fifo pool_view pool_capacity "pool_deq zero" "pool_enq zero" pool_ok
  "\<lambda>s a. a \<in> pool_live s" for zero :: 'b
proof unfold_locales
  fix s :: "'b pool_state"
  assume "pool_ok s" and empty: "pool_view s = []"
  then obtain p h where s: "s = (Some p, h)" "pool_inv p h" by (elim pool_okE)
  with empty length_free_addrs [of p] have "numOfFree p \<le> 0" by (simp add: pool_view_def)
  then show "pool_deq zero s = None" by (simp add: s(1) pool_deq_def pool_alloc_def memPoolMalloc_full)
next
  fix s :: "'b pool_state" and x xs
  assume "pool_ok s" and view: "pool_view s = x # xs"
  then obtain p h where s: "s = (Some p, h)" "pool_inv p h" by (elim pool_okE)
  with view length_free_addrs [of p] have free: "0 < numOfFree p" and v: "free_addrs p = x # xs"
    by (auto simp: pool_view_def)
  have x: "hd (free_addrs p) = x" using v by simp
  have xs: "free_addrs (pool_take p) = xs" using v free_addrs_take [OF s(2) free] by simp
  have "x \<noteq> 0" using allocated_take(3) [OF s(2) free] block_addrs_nonzero [OF s(2)] x by simp
  with pool_alloc_step [OF s(2) free, of zero] xs
  show "\<exists>s'. pool_deq zero s = Some (x, s') \<and> pool_ok s' \<and> pool_view s' = xs
    \<and> pool_capacity s' = pool_capacity s"
    by (simp add: x s(1) pool_deq_def pool_view_def pool_capacity_def pool_ok_def)
next
  fix s :: "'b pool_state" and x
  assume "pool_ok s" and live: "x \<in> pool_live s"
  then obtain p h where s: "s = (Some p, h)" "pool_inv p h" by (elim pool_okE)
  with live have "x \<in> allocated p" by (simp add: pool_live_def)
  from pool_release_step [OF s(2) this, of zero] obtain q where q:
    "pool_release zero s x = Inr (Some q, (h(x \<mapsto> zero)))" "pool_inv q (h(x \<mapsto> zero))"
    "free_addrs q = free_addrs p @ [x]" "numOfBlock q = numOfBlock p"
    unfolding s(1) same_geometry_def by blast
  then show "pool_ok (pool_enq zero x s) \<and> pool_view (pool_enq zero x s) = pool_view s @ [x]
    \<and> pool_capacity (pool_enq zero x s) = pool_capacity s"
    unfolding pool_enq_def q(1) by (simp add: pool_ok_def pool_view_def pool_capacity_def s(1))
qed

subsection \<open>Properties of the pool\<close>

text \<open>A concrete environment for the closed examples: three blocks of 64 bytes at address 4096.\<close>

definition demo_env :: "nat malloc_env" where
  "demo_env = \<lparr>struct_ok = True, pool_mem = 4096, list_ok = True, junk = (\<lambda>_. 7),
              list_junk = (\<lambda>_. 7)\<rparr>"

definition demo_pool :: pool_t where
  "demo_pool = \<lparr>numOfFree = 3, first = 0, numOfBlock = 3, blockSize = 64, freeList = [0, 1, 2],
                pool = 4096\<rparr>"

definition demo_heap :: "nat heap" where
  "demo_heap a = (if a \<in> {4096, 4160, 4224} then Some 7 else None)"

lemma demo_block_addrs: "block_addrs demo_pool = {4096, 4160, 4224}"
proof -
  have "{0..<3::int} = {0, 1, 2}" by auto
  then show ?thesis by (simp add: block_addrs_def block_addr_def demo_pool_def)
qed

lemma demo_free_queue: "free_queue demo_pool = [0, 1, 2]"
  by (simp add: free_queue_def demo_pool_def ring_def upt_rec)

lemma demo_free_addrs: "free_addrs demo_pool = [4096, 4160, 4224]"
  by (simp add: free_addrs_def demo_free_queue) (simp add: block_addr_def demo_pool_def)

lemma demo_init: "memPoolInit demo_env 3 64 Map.empty = Inr (Some demo_pool, demo_heap)"
proof -
  have "[0..2::int] = [0, 1, 2]" by (simp add: upto_rec1)
  then have "memPoolInit demo_env 3 64 Map.empty = Inr (Some demo_pool,
      \<lambda>a. if a \<in> block_addrs demo_pool then Some (junk demo_env a) else None)"
    by (simp add: memPoolInit_eq malloc_region_def demo_env_def demo_pool_def i32_def int_ok_def Let_def cong: if_cong)
  then show ?thesis by (simp add: demo_block_addrs demo_heap_def demo_env_def fun_eq_iff)
qed

lemma demo_inv: "pool_inv demo_pool demo_heap"
proof -
  have "pool_shape demo_pool" by (simp add: pool_shape_def demo_pool_def)
  moreover have "numOfBlock demo_pool = 3" by (simp add: demo_pool_def)
  ultimately show ?thesis
    by (auto simp: pool_inv_def demo_free_queue demo_block_addrs demo_heap_def)
qed

text \<open>The same pool after one \<open>memPoolMalloc\<close>: block 4096 is allocated.\<close>

lemma demo_take:
  "pool_inv (pool_take demo_pool) demo_heap" "free_addrs (pool_take demo_pool) = [4160, 4224]"
  "4096 \<in> allocated (pool_take demo_pool)"
proof -
  have free: "0 < numOfFree demo_pool" by (simp add: demo_pool_def)
  show "pool_inv (pool_take demo_pool) demo_heap" by (rule pool_inv_take [OF demo_inv free])
  show "free_addrs (pool_take demo_pool) = [4160, 4224]"
    using free_addrs_take [OF demo_inv free] by (simp add: demo_free_addrs)
  show "4096 \<in> allocated (pool_take demo_pool)"
    using allocated_take(1) [OF demo_inv free] by (simp add: demo_free_addrs)
qed

text \<open>
  A call of memPoolInit, when the three allocations succeed, returns a well-formed pool whose free
  queue holds every block once, in address order, with nothing allocated.
\<close>
theorem pool_init_correct:
  assumes "1 < num" and "1 < bsize" and "int_ok (bsize * num)"
    and "struct_ok env" and "0 < pool_mem env" and "list_ok env"
  shows "\<exists>p h'. memPoolInit env num bsize h = Inr (Some p, h') \<and> pool_inv p h'
    \<and> free_addrs p = map (\<lambda>i. pool_mem env + bsize * i) [0..num - 1] \<and> allocated p = {}"
proof -
  from memPoolInit_some [OF assms, of h] obtain p h' where p:
    "memPoolInit env num bsize h = Inr (Some p, h')" "pool_inv p h'" "free_queue p = [0..num - 1]"
    "blockSize p = bsize" "pool p = pool_mem env" "allocated p = {}" by blast
  then have "free_addrs p = map (\<lambda>i. pool_mem env + bsize * i) [0..num - 1]"
    by (simp add: free_addrs_def block_addr_def)
  with p show ?thesis by blast
qed

theorem pool_init_correct_witness:
  "\<exists>p h'. memPoolInit demo_env 3 64 Map.empty = Inr (Some p, h') \<and> pool_inv p h'
    \<and> free_addrs p = map (\<lambda>i. pool_mem demo_env + 64 * i) [0..3 - 1] \<and> allocated p = {}"
  by (rule pool_init_correct) (simp_all add: demo_env_def int_ok_def)

text \<open>
  C40: memPoolInit has four outcomes, and the allocations and the sizes decide between them.  It
  returns a pool exactly when the sizes are above 1, their product is an int and all three
  allocations succeed; it returns NULL, with the memory as it was, exactly when a size is refused
  or the struct was not allocated; the product of the sizes overflows exactly when the struct was
  allocated and the product is no int; and exactly when the struct was allocated and the region or
  the list was not, it reads the struct it has just given back: the branch of the failed
  allocation has no return.
\<close>
theorem pool_init_partial_failure:
  "(\<exists>p h'. memPoolInit env num bsize h = Inr (Some p, h')) =
      (1 < num \<and> 1 < bsize \<and> int_ok (bsize * num) \<and> struct_ok env \<and> pool_mem env \<noteq> 0 \<and> list_ok env)
    \<and> (memPoolInit env num bsize h = Inr (None, h)) = (\<not> (1 < num \<and> 1 < bsize \<and> struct_ok env))
    \<and> (memPoolInit env num bsize h = Inl SignedOverflow) =
      (1 < num \<and> 1 < bsize \<and> struct_ok env \<and> \<not> int_ok (bsize * num))
    \<and> (memPoolInit env num bsize h = Inl UseAfterFree) =
      (1 < num \<and> 1 < bsize \<and> struct_ok env \<and> int_ok (bsize * num) \<and> \<not> (pool_mem env \<noteq> 0 \<and> list_ok env))"
proof (cases "1 < num \<and> 1 < bsize \<and> struct_ok env")
  case True
  then show ?thesis by (auto simp: memPoolInit_eq i32_def Let_def)
next
  case False
  then have "memPoolInit env num bsize h = Inr (None, h)" by (auto intro: memPoolInit_null)
  with False show ?thesis by auto
qed

text \<open>
  C18: memPoolMalloc refines taking the head of a FIFO queue of free blocks.  On a well-formed
  pool it never meets undefined behaviour; with no free block it returns NULL and changes
  nothing; otherwise it returns the head of the queue, a block that is not allocated, zeroed,
  and nothing else in memory changes.
\<close>
theorem pool_malloc_refines:
  assumes "pool_inv p h"
  shows "case free_addrs p of
      [] \<Rightarrow> memPoolMalloc zero (Some p) h = Inr (0, Some p, h)
    | b # bs \<Rightarrow> \<exists>q. memPoolMalloc zero (Some p) h = Inr (b, Some q, h(b \<mapsto> zero))
        \<and> pool_inv q (h(b \<mapsto> zero)) \<and> free_addrs q = bs
        \<and> b \<notin> allocated p \<and> allocated q = insert b (allocated p)"
proof (cases "0 < numOfFree p")
  case True
  note fa = free_addrs_take [OF assms True]
  have hd: "hd (free_addrs p) = block_addr p (freeList p ! nat (first p))" by (simp add: fa)
  show ?thesis
    using memPoolMalloc_some [OF assms True, of zero] allocated_take [OF assms True]
      pool_alloc_step(2) [OF assms True, of zero]
    unfolding fa hd by (simp add: fa)
next
  case False
  then have "free_addrs p = []" using length_free_addrs [of p] by simp
  with False show ?thesis by (simp add: memPoolMalloc_full)
qed

theorem pool_malloc_refines_witness:
  "\<exists>q. memPoolMalloc 0 (Some demo_pool) demo_heap = Inr (4096, Some q, demo_heap(4096 \<mapsto> 0))
    \<and> pool_inv q (demo_heap(4096 \<mapsto> 0)) \<and> free_addrs q = [4160, 4224]
    \<and> 4096 \<notin> allocated demo_pool \<and> allocated q = insert 4096 (allocated demo_pool)"
  using pool_malloc_refines [OF demo_inv, of 0] by (simp add: demo_free_addrs)

text \<open>
  C19: memPoolFree of an allocated block refines appending to the FIFO queue: the block joins
  at the back, zeroed, and it is no longer allocated.
\<close>
theorem pool_free_refines:
  assumes "pool_inv p h" and "a \<in> allocated p"
  shows "\<exists>q. memPoolFree zero (Some p) h a = Inr (Some q, h(a \<mapsto> zero))
    \<and> pool_inv q (h(a \<mapsto> zero)) \<and> free_addrs q = free_addrs p @ [a]
    \<and> allocated q = allocated p - {a}"
  using pool_release_step [OF assms, of zero] by (auto simp: pool_release_def)

theorem pool_free_refines_witness:
  "\<exists>q. memPoolFree 0 (Some (pool_take demo_pool)) demo_heap 4096 = Inr (Some q, demo_heap(4096 \<mapsto> 0))
    \<and> pool_inv q (demo_heap(4096 \<mapsto> 0)) \<and> free_addrs q = [4160, 4224, 4096]
    \<and> allocated q = allocated (pool_take demo_pool) - {4096}"
  using pool_free_refines [OF demo_take(1,3), of 0] by (simp add: demo_take(2))

text \<open>
  MemPoolFree ignores a pointer that is no block of the pool (misaligned, or before or
  after the region): neither the pool nor the memory changes.
\<close>
theorem pool_free_foreign:
  assumes "pool_inv p h" and "a \<notin> block_addrs p" and "int_ok (a - pool p)"
  shows "memPoolFree zero (Some p) h a = Inr (Some p, h)"
  using assms by (rule memPoolFree_reject)

theorem pool_free_foreign_witness:
  "memPoolFree 0 (Some demo_pool) demo_heap 4100 = Inr (Some demo_pool, demo_heap)
   \<and> memPoolFree 0 (Some demo_pool) demo_heap 4032 = Inr (Some demo_pool, demo_heap)
   \<and> memPoolFree 0 (Some demo_pool) demo_heap 4288 = Inr (Some demo_pool, demo_heap)"
  using pool_free_foreign [OF demo_inv, of 4100 0] pool_free_foreign [OF demo_inv, of 4032 0]
    pool_free_foreign [OF demo_inv, of 4288 0]
  unfolding demo_block_addrs by (simp add: int_ok_def demo_pool_def)

text \<open>
  MemPoolFree has no check against a second free: giving back a block that is already free
  puts it into the free queue twice, so that it will be handed out twice.
\<close>
theorem pool_double_free:
  assumes "pool_inv p h" and "a \<in> set (free_addrs p)" and "numOfFree p < numOfBlock p"
  shows "\<exists>q h'. memPoolFree zero (Some p) h a = Inr (Some q, h')
    \<and> free_addrs q = free_addrs p @ [a] \<and> \<not> distinct (free_addrs q)"
proof -
  from assms(2) obtain i where i: "a = block_addr p i" "i \<in> set (free_queue p)"
    by (auto simp: free_addrs_def)
  with pool_invD(11) [OF assms(1)] have b: "0 \<le> i" "i < numOfBlock p" by auto
  from memPoolFree_block [OF assms(1) b, of zero] free_addrs_give [OF assms(1,3), of i] assms(2)
  show ?thesis by (simp add: i(1))
qed

theorem pool_double_free_witness:
  "\<exists>q h'. memPoolFree 0 (Some (pool_take demo_pool)) demo_heap 4160 = Inr (Some q, h')
    \<and> free_addrs q = free_addrs (pool_take demo_pool) @ [4160] \<and> \<not> distinct (free_addrs q)"
  by (rule pool_double_free [OF demo_take(1)]) (simp_all add: demo_take(2), simp add: demo_pool_def)

text \<open>
  C9: over any sequence of memPoolMalloc calls and memPoolFree calls on held blocks, starting from
  a fresh pool, no operation meets undefined behaviour, the blocks held are pairwise distinct,
  they are exactly the allocated blocks of the pool, and held plus free is the pool's size.
\<close>
theorem pool_script_safe:
  assumes "memPoolInit env num bsize h = Inr (Some p, h')" and "0 < pool_mem env"
  shows "\<exists>held s. alloc_run (pool_alloc zero) (pool_release zero) ops [] (Some p, h') = Inr (held, s)
    \<and> distinct held \<and> set held = pool_live s \<and> length held + pool_room s = nat num"
proof -
  note c = memPoolInit_cases [OF assms(1)]
  from memPoolInit_some [of num bsize env h] c assms
  have p: "pool_inv p h'" "allocated p = {}" "numOfFree p = num" by auto
  then have "pool_ok (Some p, h')" "distinct []" "set [] = pool_live (Some p, h')"
    by (simp_all add: pool_ok_def pool_live_def)
  from pa.run_safe [OF this, of zero ops] p
  show ?thesis by (auto simp: pool_room_def)
qed

theorem pool_script_safe_witness:
  "\<exists>held s. alloc_run (pool_alloc 0) (pool_release 0) [Alloc, Alloc, Release 0, Alloc, Alloc, Alloc]
      [] (Some demo_pool, demo_heap) = Inr (held, s)
    \<and> distinct held \<and> set held = pool_live s \<and> length held + pool_room s = nat 3"
  by (rule pool_script_safe [OF demo_init]) (simp add: demo_env_def)

text \<open>
  A fresh pool serves exactly its number of blocks: that many requests in a row all succeed,
  with every block of the region handed out once, and the next request returns NULL.
\<close>
theorem pool_exhaustion:
  assumes "memPoolInit env num bsize h = Inr (Some p, h')" and "0 < pool_mem env"
  shows "\<exists>held s. alloc_run (pool_alloc zero) (pool_release zero) (replicate (nat num) Alloc) []
      (Some p, h') = Inr (held, s)
    \<and> distinct held \<and> length held = nat num \<and> pool_alloc zero s = Inr (0, s)"
proof -
  note c = memPoolInit_cases [OF assms(1)]
  from memPoolInit_some [of num bsize env h] c assms
  have p: "pool_inv p h'" "allocated p = {}" "numOfFree p = num" by auto
  then have s0: "pool_ok (Some p, h')" "distinct []" "set [] = pool_live (Some p, h')"
      "nat num \<le> pool_room (Some p, h')"
    by (simp_all add: pool_ok_def pool_live_def pool_room_def)
  from pa.run_allocs [OF s0, of zero] obtain held s where run:
    "alloc_run (pool_alloc zero) (pool_release zero) (replicate (nat num) Alloc) [] (Some p, h')
       = Inr (held, s)" "pool_ok s" "distinct held" "length held = nat num"
    "pool_room s = pool_room (Some p, h') - nat num" by auto
  with p have "pool_room s = 0" by (simp add: pool_room_def)
  with run pa.alloc_full [OF run(2)] show ?thesis by blast
qed

theorem pool_exhaustion_witness:
  "\<exists>held s. alloc_run (pool_alloc 0) (pool_release 0) (replicate (nat 3) Alloc) []
      (Some demo_pool, demo_heap) = Inr (held, s)
    \<and> distinct held \<and> length held = nat 3 \<and> pool_alloc 0 s = Inr (0, s)"
  by (rule pool_exhaustion [OF demo_init]) (simp add: demo_env_def)

text \<open>
  A freed block is reused last: memPoolMalloc first hands out every block that was free at the
  time of the memPoolFree, in their order, and only then the freed one.
\<close>
theorem pool_reuse_order:
  assumes "pool_inv p h" and "a \<in> allocated p" and "memPoolFree zero (Some p) h a = Inr (q, h')"
  shows "fst (drain (pool_deq zero) (Suc (length (free_addrs p))) (q, h')) = free_addrs p @ [a]"
proof -
  have ok: "pool_ok (Some p, h)" "a \<in> pool_live (Some p, h)"
    using assms by (simp_all add: pool_ok_def pool_live_def)
  have "int (card (allocated p)) > 0" using assms(2) card_gt_0_iff by fastforce
  then have "length (pool_view (Some p, h)) < pool_capacity (Some p, h)"
    using card_allocated [OF assms(1)] pool_invD [OF assms(1)]
    by (simp add: pool_view_def pool_capacity_def length_free_addrs)
  from pq.drain_enq_last [OF ok this, of zero] assms(3) show ?thesis
    by (simp add: pool_view_def pool_enq_def pool_release_def)
qed

theorem pool_reuse_order_witness:
  "\<exists>q h'. memPoolFree 0 (Some (pool_take demo_pool)) demo_heap 4096 = Inr (q, h')
    \<and> fst (drain (pool_deq 0) 3 (q, h')) = [4160, 4224, 4096]"
proof -
  from pool_release_step [OF demo_take(1,3), of 0] obtain q h' where
    q: "memPoolFree 0 (Some (pool_take demo_pool)) demo_heap 4096 = Inr (q, h')"
    by (auto simp: pool_release_def)
  from pool_reuse_order [OF demo_take(1,3) q] have
    "fst (drain (pool_deq 0) (Suc (Suc (Suc 0))) (q, h')) = [4160, 4224, 4096]"
    by (simp only: demo_take(2) list.size append.simps) (simp add: eval_nat_numeral)
  with q show ?thesis by (auto simp: eval_nat_numeral simp del: drain.simps)
qed

text \<open>
  A call of memPoolCleanup undoes memPoolInit: the memory is what it was before, whatever memPoolMalloc
  and memPoolFree did to the pool and its blocks in between.
\<close>
theorem pool_cleanup_roundtrip:
  assumes "memPoolInit env num bsize h = Inr (Some p, h')" and "block_addrs p \<inter> dom h = {}"
    and "same_geometry p p2" and "\<And>a. a \<notin> block_addrs p \<Longrightarrow> h2 a = h' a"
  shows "\<exists>q. memPoolCleanup (Some p2) h2 = Inr (q, h)"
proof -
  have "h' a = h a" if "a \<notin> block_addrs p" for a
    using assms(1) that by (rule memPoolInit_outside)
  moreover have "block_addrs p2 = block_addrs p" using assms(3) by (rule block_addrs_geometry)
  moreover have "h a = None" if "a \<in> block_addrs p" for a
    using assms(2) that by (meson disjoint_iff domIff)
  moreover have "pool p2 \<noteq> 0"
    using memPoolInit_cases [OF assms(1)] assms(3) by (simp add: same_geometry_def)
  ultimately have "free_region p2 h2 = h"
    using assms(4) by (simp add: free_region_def fun_eq_iff)
  then show ?thesis by simp
qed

theorem pool_cleanup_roundtrip_witness:
  "\<exists>q. memPoolCleanup (Some (pool_take demo_pool)) (demo_heap(4096 \<mapsto> 0)) = Inr (q, Map.empty)"
proof (rule pool_cleanup_roundtrip [OF demo_init])
  show "(demo_heap(4096 \<mapsto> 0)) a = demo_heap a" if "a \<notin> block_addrs demo_pool" for a
    using that by (simp add: demo_block_addrs)
qed simp_all

end
