(* ===== verification/TimerCtrl.thy ===== *)
theory TimerCtrl
  imports DList PoolSpec
begin

section \<open>The timer controller (\<open>ttimer/tdengine_old.c\<close>)\<close>

text \<open>
  A controller is a timing wheel: \<open>numOfPeriods\<close> slots, each a doubly linked list of timer
  objects sorted by \<open>cycle\<close>, the number of further turns of the wheel before the timer is
  due.  \<open>tmrReset\<close> arms or re-arms a timer, \<open>tmrProcessList\<close> processes the slot of the
  current period.

  The timer objects are the blocks of the controller's memory pool.  In C a controller
  points to them through the pool and the lists; here the store \<open>objs\<close> that holds them is
  a field of the controller's record, and the linked lists are pointers into it.  Both
  operations hold the controller's mutex from their first to their last access of this
  state, so each is one atomic step.  \<open>printf\<close> calls are not modelled.

  A callback is a code address, 0 for none.  A run of the slot returns the calls it makes
  as a list, in order: the function, its two arguments (\<open>param1\<close> and the timer object).
  The mutex is held during a call, so a callback cannot itself change the controller (one that
  tries waits for ever, see \<open>TimerThreadProps\<close>).
\<close>

record tmr_obj_t =
  param1 :: addr
  fp :: addr
  timerId :: addr
  cycle :: int
  prevp :: addr
  nextp :: addr
  index :: int
  pCtrl :: addr

record tmr_list_t =
  head :: addr
  count :: int

record tmr_ctrl_t =
  signature :: addr
  resolution :: int
  numOfPeriods :: int
  periodsFromStart :: "32 word"
  tmrList :: "tmr_list_t list"
  poolHandle :: "pool_t option"
  label :: string
  maxNumOfTmrs :: int
  numOfTmrs :: int
  ticks :: int
  maxTicks :: int
  objs :: "tmr_obj_t heap"

text \<open>The object that \<open>memset(p, 0, sizeof(tmr_obj_t))\<close> writes.\<close>

definition zero_obj :: tmr_obj_t where
  "zero_obj = \<lparr>param1 = 0, fp = 0, timerId = 0, cycle = 0, prevp = 0, nextp = 0, index = 0,
               pCtrl = 0\<rparr>"

type_synonym fire = "addr \<times> addr \<times> addr"

text \<open>
  The remainder of two \<open>unsigned int\<close>s, stored to an \<open>int\<close>; an \<open>int\<close> operand is
  converted to \<open>unsigned int\<close> first.
\<close>

definition u_mod :: "32 word \<Rightarrow> int \<Rightarrow> int res" where
  "u_mod a n = (if (word_of_int n :: 32 word) = 0 then Inl DivByZero
     else Inr (to_i32 (uint (a mod word_of_int n))))"

text \<open>
  The bound on the iterations of a loop over one list: no list of distinct blocks of the
  pool has more than \<open>numOfBlock\<close> nodes, and the last test costs one iteration.
\<close>

definition loop_fuel :: "tmr_ctrl_t \<Rightarrow> nat" where
  "loop_fuel c = (case poolHandle c of None \<Rightarrow> 1 | Some p \<Rightarrow> Suc (nat (numOfBlock p)))"

subsection \<open>Processing a slot\<close>

text \<open>The inner loop of \<open>tmrProcessList\<close>: one turn less for every timer of the list.\<close>

fun dec_cycles :: "nat \<Rightarrow> tmr_obj_t heap \<Rightarrow> addr \<Rightarrow> tmr_obj_t heap res" where
  "dec_cycles 0 h pObj = Inl OutOfFuel"
| "dec_cycles (Suc n) h pObj =
     (if pObj = 0 then Inr h
      else bindE (deref h pObj) (\<lambda>ob.
             dec_cycles n (h(pObj \<mapsto> ob\<lparr>cycle := to_i16 (cycle ob - 1)\<rparr>)) (nextp ob)))"

text \<open>The first timer of the list has expired: unlink it, call its function, free it.\<close>

definition expire_head :: "int \<Rightarrow> tmr_ctrl_t \<Rightarrow> (tmr_ctrl_t \<times> fire list) res" where
  "expire_head idx c =
     bindE (arr_get (tmrList c) idx) (\<lambda>l.
     bindE (deref (objs c) (head l)) (\<lambda>hdr.
     bindE (arr_set (tmrList c) idx (l\<lparr>head := nextp hdr, count := count l - 1\<rparr>)) (\<lambda>tl.
     bindE (modify_nn (objs c) (nextp hdr) (\<lambda>ob. ob\<lparr>prevp := 0\<rparr>)) (\<lambda>h1.
     bindE (modify h1 (head l) (\<lambda>ob. ob\<lparr>timerId := 0\<rparr>)) (\<lambda>h2.
     bindE (memPoolFree zero_obj (poolHandle c) h2 (head l)) (\<lambda>(q, h3).
       Inr (c\<lparr>numOfTmrs := numOfTmrs c - 1, tmrList := tl, poolHandle := q, objs := h3\<rparr>,
            if fp hdr \<noteq> 0 then [(fp hdr, param1 hdr, head l)] else [])))))))"

fun expire_loop :: "nat \<Rightarrow> int \<Rightarrow> tmr_ctrl_t \<Rightarrow> (tmr_ctrl_t \<times> fire list) res" where
  "expire_loop 0 idx c = Inl OutOfFuel"
| "expire_loop (Suc n) idx c =
     bindE (arr_get (tmrList c) idx) (\<lambda>l.
     if head l = 0 then Inr (c, [])
     else
       bindE (deref (objs c) (head l)) (\<lambda>hdr.
       if cycle hdr > 0
       then bindE (dec_cycles (loop_fuel c) (objs c) (head l)) (\<lambda>h. Inr (c\<lparr>objs := h\<rparr>, []))
       else
         bindE (expire_head idx c) (\<lambda>(c1, evs1).
         bindE (expire_loop n idx c1) (\<lambda>(c2, evs2). Inr (c2, evs1 @ evs2)))))"

definition tmrProcessList :: "tmr_ctrl_t \<Rightarrow> (tmr_ctrl_t \<times> fire list) res" where
  "tmrProcessList c =
     bindE (u_mod (periodsFromStart c) (numOfPeriods c)) (\<lambda>idx.
     bindE (expire_loop (loop_fuel c) idx c) (\<lambda>(c', evs).
       Inr (c'\<lparr>periodsFromStart := periodsFromStart c' + 1\<rparr>, evs)))"

subsection \<open>Arming a timer\<close>

text \<open>Takes an armed timer out of its slot list.\<close>

definition unlink_obj :: "tmr_ctrl_t \<Rightarrow> addr \<Rightarrow> tmr_ctrl_t res" where
  "unlink_obj c pObj =
     bindE (deref (objs c) pObj) (\<lambda>ob.
     bindE (arr_get (tmrList c) (index ob)) (\<lambda>l.
     bindE (modify_nn (objs c) (prevp ob) (\<lambda>nb. nb\<lparr>nextp := nextp ob\<rparr>)) (\<lambda>h1.
     bindE (modify_nn h1 (nextp ob) (\<lambda>nb. nb\<lparr>prevp := prevp ob\<rparr>)) (\<lambda>h2.
     bindE (arr_set (tmrList c) (index ob)
              (l\<lparr>head := (if prevp ob \<noteq> 0 then head l else nextp ob), count := count l - 1\<rparr>)) (\<lambda>tl.
     bindE (modify h2 pObj (\<lambda>nb. nb\<lparr>timerId := 0\<rparr>)) (\<lambda>h3.
       Inr (c\<lparr>tmrList := tl, objs := h3, numOfTmrs := numOfTmrs c - 1\<rparr>)))))))"

text \<open>
  The object to arm: the one the caller's handle names if that is still armed (the object
  carries its own address as \<open>timerId\<close>), a fresh one from the pool otherwise.
\<close>

definition reset_pObj :: "tmr_ctrl_t \<Rightarrow> addr \<Rightarrow> (tmr_ctrl_t \<times> addr) res" where
  "reset_pObj c t =
     bindE (if t = 0 then Inr False else bindE (deref (objs c) t) (\<lambda>ob. Inr (timerId ob = t)))
       (\<lambda>armed.
         if armed then bindE (unlink_obj c t) (\<lambda>c1. Inr (c1, t))
         else bindE (memPoolMalloc zero_obj (poolHandle c) (objs c)) (\<lambda>(a, q, h).
                Inr (c\<lparr>poolHandle := q, objs := h\<rparr>, a)))"

text \<open>The place in the sorted list: behind every timer with fewer turns to go.\<close>

fun find_place :: "nat \<Rightarrow> tmr_obj_t heap \<Rightarrow> addr \<Rightarrow> addr \<Rightarrow> int \<Rightarrow> (addr \<times> addr) res" where
  "find_place 0 h cNode pNode cyc = Inl OutOfFuel"
| "find_place (Suc n) h cNode pNode cyc =
     (if cNode = 0 then Inr (pNode, cNode)
      else bindE (deref h cNode) (\<lambda>ob.
             if cycle ob < cyc then find_place n h (nextp ob) cNode cyc
             else Inr (pNode, cNode)))"

definition link_obj :: "tmr_ctrl_t \<Rightarrow> addr \<Rightarrow> int \<Rightarrow> tmr_ctrl_t res" where
  "link_obj c pObj idx =
     bindE (arr_get (tmrList c) idx) (\<lambda>l.
     bindE (modify (objs c) pObj (\<lambda>ob. ob\<lparr>index := idx\<rparr>)) (\<lambda>h0.
     bindE (deref h0 pObj) (\<lambda>ob.
     bindE (find_place (loop_fuel c) h0 (head l) 0 (cycle ob)) (\<lambda>(pNode, cNode).
     bindE (modify h0 pObj (\<lambda>ob. ob\<lparr>nextp := cNode, prevp := pNode\<rparr>)) (\<lambda>h1.
     bindE (modify_nn h1 cNode (\<lambda>nb. nb\<lparr>prevp := pObj\<rparr>)) (\<lambda>h2.
     bindE (modify_nn h2 pNode (\<lambda>nb. nb\<lparr>nextp := pObj\<rparr>)) (\<lambda>h3.
     bindE (arr_set (tmrList c) idx
              (l\<lparr>head := (if pNode \<noteq> 0 then head l else pObj), count := count l + 1\<rparr>)) (\<lambda>tl.
       Inr (c\<lparr>tmrList := tl, objs := h3, numOfTmrs := numOfTmrs c + 1\<rparr>)))))))))"

text \<open>Fills the object's fields and puts it into the slot of the period it is due in.\<close>

definition arm_obj :: "addr \<Rightarrow> addr \<Rightarrow> addr \<Rightarrow> int \<Rightarrow> addr \<Rightarrow> tmr_ctrl_t \<Rightarrow> tmr_ctrl_t res" where
  "arm_obj cb param handle period pObj c =
     bindE (c_div period (numOfPeriods c)) (\<lambda>turns.
     bindE (modify (objs c) pObj (\<lambda>ob. ob\<lparr>cycle := to_i16 turns, param1 := param, fp := cb,
              timerId := pObj, pCtrl := handle\<rparr>)) (\<lambda>h.
     bindE (u_mod (word_of_int period + periodsFromStart c) (numOfPeriods c)) (\<lambda>idx.
       link_obj (c\<lparr>objs := h\<rparr>) pObj idx)))"

text \<open>
  \<open>handle\<close> is the address of the controller \<open>c\<close> (0 for \<open>NULL\<close>).  The caller's variable
  \<open>*pTmrId\<close> is passed by value and returned; \<open>None\<close> stands for a \<open>NULL\<close> pointer to it.
\<close>

definition tmrReset ::
  "addr \<Rightarrow> int \<Rightarrow> addr \<Rightarrow> addr \<Rightarrow> addr option \<Rightarrow> tmr_ctrl_t \<Rightarrow> (tmr_ctrl_t \<times> addr option) res" where
  "tmrReset cb mseconds param handle pTmrId c =
     (if handle = 0 then Inr (c, pTmrId)
      else case pTmrId of None \<Rightarrow> Inr (c, None)
      | Some t \<Rightarrow>
          bindE (c_div mseconds (resolution c)) (\<lambda>period.
          bindE (reset_pObj c t) (\<lambda>(c1, pObj).
          if pObj = 0 then Inr (c1, Some 0)
          else bindE (arm_obj cb param handle period pObj c1) (\<lambda>c2. Inr (c2, Some pObj)))))"

subsection \<open>Laws of the small operations\<close>

interpretation tn: dnode nextp prevp "\<lambda>q. nextp_update (\<lambda>_. q)" "\<lambda>q. prevp_update (\<lambda>_. q)"
  by unfold_locales simp_all

lemma u_mod_ok [c_simps]:
  assumes "0 < n" and "int_ok n"
  shows "u_mod a n = Inr (uint a mod n)"
proof -
  have u: "uint (word_of_int n :: 32 word) = n"
    using assms by (simp add: uint_word_of_int int_ok_def)
  then have nz: "(word_of_int n :: 32 word) \<noteq> 0" using assms(1) by auto
  have "0 \<le> uint a mod n" "uint a mod n < n" using assms(1) by simp_all
  then have "int_ok (uint a mod n)" using assms unfolding int_ok_def by linarith
  then show ?thesis by (simp add: u_mod_def nz uint_mod u to_i32_id)
qed

text \<open>All of an object but its links.\<close>

definition core :: "tmr_obj_t \<Rightarrow> tmr_obj_t" where
  "core ob = ob\<lparr>prevp := 0, nextp := 0\<rparr>"

lemma core_upd_links [simp]:
  "core (ob\<lparr>prevp := q\<rparr>) = core ob" "core (ob\<lparr>nextp := q\<rparr>) = core ob"
  by (simp_all add: core_def)

lemma core_eqD:
  assumes "core ob = core ob'"
  shows "cycle ob = cycle ob'" "index ob = index ob'" "timerId ob = timerId ob'"
    "fp ob = fp ob'" "param1 ob = param1 ob'" "pCtrl ob = pCtrl ob'"
  using assms by (simp_all add: core_def) (metis tmr_obj_t.select_convs tmr_obj_t.surjective
      tmr_obj_t.update_convs)+

lemma core_upd_nn_links [simp]:
  "map_option core (upd_nn h p (prevp_update (\<lambda>_. q)) a) = map_option core (h a)"
  "map_option core (upd_nn h p (nextp_update (\<lambda>_. q)) a) = map_option core (h a)"
  by (rule upd_nn_field, simp)+

end
