(* ===== verification/WheelInv.thy ===== *)
theory WheelInv
  imports TimerCtrl
begin

section \<open>The invariant of the timing wheel\<close>

text \<open>
  \<open>wheel X c p L\<close>: the slots of the controller \<open>c\<close> with pool \<open>p\<close> hold the lists \<open>L i\<close>,
  and the blocks allocated in the pool are those in the lists and those of \<open>X\<close>, which are
  between two lists (an operation has taken them out of one and not yet put them into
  another).  Every operation of the controller is a sequence of moves between
  \<open>wheel {} c p L\<close> and \<open>wheel {x} c p L\<close>.
\<close>

definition cyc :: "tmr_obj_t heap \<Rightarrow> addr \<Rightarrow> int" where
  "cyc h a = (case h a of None \<Rightarrow> 0 | Some ob \<Rightarrow> cycle ob)"

definition node_ok :: "tmr_obj_t heap \<Rightarrow> nat \<Rightarrow> addr \<Rightarrow> bool" where
  "node_ok h i a = (case h a of None \<Rightarrow> False
     | Some ob \<Rightarrow> timerId ob = a \<and> index ob = int i \<and> - 32768 \<le> cycle ob \<and> cycle ob < 32768)"

text \<open>One slot: the list structure, its count, its order, and each node's own fields.\<close>

definition slot_ok :: "tmr_obj_t heap \<Rightarrow> nat \<Rightarrow> tmr_list_t \<Rightarrow> addr list \<Rightarrow> bool" where
  "slot_ok h i l xs \<longleftrightarrow>
     head l = hdp xs 0 \<and> count l = int (length xs) \<and> dls nextp prevp h 0 xs 0
     \<and> distinct xs \<and> 0 \<notin> set xs \<and> sorted (map (cyc h) xs) \<and> (\<forall>a\<in>set xs. node_ok h i a)"

definition wheel :: "addr set \<Rightarrow> tmr_ctrl_t \<Rightarrow> pool_t \<Rightarrow> (nat \<Rightarrow> addr list) \<Rightarrow> bool" where
  "wheel X c p L \<longleftrightarrow>
     poolHandle c = Some p \<and> pool_inv p (objs c)
     \<and> 0 < numOfPeriods c \<and> int_ok (numOfPeriods c) \<and> 0 < resolution c \<and> int_ok (resolution c)
     \<and> length (tmrList c) = nat (numOfPeriods c)
     \<and> (\<forall>i < nat (numOfPeriods c). slot_ok (objs c) i (tmrList c ! i) (L i))
     \<and> (\<Union>i < nat (numOfPeriods c). set (L i)) = allocated p - X
     \<and> X \<subseteq> allocated p \<and> numOfTmrs c = int (card (allocated p - X))"

definition ctrl_inv :: "tmr_ctrl_t \<Rightarrow> bool" where
  "ctrl_inv c \<longleftrightarrow> (\<exists>p L. wheel {} c p L)"

lemma wheelD:
  assumes "wheel X c p L"
  shows "poolHandle c = Some p" "pool_inv p (objs c)" "0 < numOfPeriods c"
    "int_ok (numOfPeriods c)" "0 < resolution c" "int_ok (resolution c)"
    "length (tmrList c) = nat (numOfPeriods c)"
    "i < nat (numOfPeriods c) \<Longrightarrow> slot_ok (objs c) i (tmrList c ! i) (L i)"
    "(\<Union>i < nat (numOfPeriods c). set (L i)) = allocated p - X"
    "X \<subseteq> allocated p" "numOfTmrs c = int (card (allocated p - X))"
  using assms by (auto simp: wheel_def)

lemma slot_okD:
  assumes "slot_ok h i l xs"
  shows "head l = hdp xs 0" "count l = int (length xs)" "dls nextp prevp h 0 xs 0"
    "distinct xs" "0 \<notin> set xs" "sorted (map (cyc h) xs)" "a \<in> set xs \<Longrightarrow> node_ok h i a"
  using assms by (auto simp: slot_ok_def)

lemma node_okE:
  assumes "node_ok h i a"
  obtains ob where "h a = Some ob" "timerId ob = a" "index ob = int i"
    "- 32768 \<le> cycle ob" "cycle ob < 32768"
  using assms by (auto simp: node_ok_def split: option.splits)

subsection \<open>What a change of the store leaves alone\<close>

lemma map_option_eqD:
  "map_option f (h' a) = map_option f (h a) \<Longrightarrow> h a = Some ob \<Longrightarrow> \<exists>ob'. h' a = Some ob' \<and> f ob' = f ob"
  by (auto simp: map_option_case split: option.splits)

lemma cyc_core: "map_option core (h' a) = map_option core (h a) \<Longrightarrow> cyc h' a = cyc h a"
  by (auto simp: cyc_def map_option_case dest: core_eqD(1) split: option.splits)

lemma node_ok_core:
  "map_option core (h' a) = map_option core (h a) \<Longrightarrow> node_ok h' i a = node_ok h i a"
  by (auto simp: node_ok_def map_option_case dest: core_eqD(1-3) split: option.splits)

lemma sorted_core:
  assumes "\<And>a. a \<in> set xs \<Longrightarrow> map_option core (h' a) = map_option core (h a)"
  shows "map (cyc h') xs = map (cyc h) xs"
  using assms by (auto intro: cyc_core)

lemma slot_ok_frame:
  assumes "\<And>a. a \<in> set xs \<Longrightarrow> h' a = h a"
  shows "slot_ok h' i l xs = slot_ok h i l xs"
proof -
  have "dls nextp prevp h' 0 xs 0 = dls nextp prevp h 0 xs 0"
    using assms by (intro dls_frame) simp
  moreover have "map (cyc h') xs = map (cyc h) xs" "(\<forall>a\<in>set xs. node_ok h' i a) = (\<forall>a\<in>set xs. node_ok h i a)"
    using assms by (auto simp: cyc_def node_ok_def)
  ultimately show ?thesis unfolding slot_ok_def by (simp only:)
qed

subsection \<open>The slots are disjoint\<close>

lemma wheel_slot_index:
  assumes "wheel X c p L" and "i < nat (numOfPeriods c)" and "a \<in> set (L i)"
  obtains ob where "objs c a = Some ob" "timerId ob = a" "index ob = int i"
    "- 32768 \<le> cycle ob" "cycle ob < 32768" "a \<noteq> 0" "a \<in> allocated p" "a \<notin> X"
proof -
  from wheelD(8) [OF assms(1,2)] assms(3) have "node_ok (objs c) i a" "a \<noteq> 0"
    by (auto dest: slot_okD)
  moreover have "a \<in> allocated p - X" using wheelD(9) [OF assms(1)] assms(2,3) by blast
  ultimately show ?thesis using that by (auto elim: node_okE)
qed

lemma wheel_slots_disjoint:
  assumes "wheel X c p L" and "i < nat (numOfPeriods c)" and "j < nat (numOfPeriods c)"
    and "a \<in> set (L i)" and "a \<in> set (L j)"
  shows "i = j"
  using wheel_slot_index [OF assms(1,2,4)] wheel_slot_index [OF assms(1,3,5)]
  by (metis of_nat_eq_iff option.inject)

lemma wheel_member:
  assumes "wheel X c p L" and "a \<in> allocated p" and "a \<notin> X"
  obtains i where "i < nat (numOfPeriods c)" "a \<in> set (L i)"
  using wheelD(9) [OF assms(1)] assms(2,3) by blast

text \<open>
  The lists are determined by the controller: two wheels over the same controller have the
  same slot lists.
\<close>

lemma dls_unique:
  "dls nextp prevp h q xs 0 \<Longrightarrow> dls nextp prevp h q' ys 0 \<Longrightarrow> hdp xs 0 = hdp ys 0 \<Longrightarrow>
     0 \<notin> set xs \<Longrightarrow> 0 \<notin> set ys \<Longrightarrow> xs = ys"
proof (induction xs arbitrary: q q' ys)
  case Nil
  then show ?case by (cases ys) auto
next
  case (Cons a xs)
  then obtain ys' where ys: "ys = a # ys'" by (cases ys) auto
  with Cons.prems obtain ob where "h a = Some ob" "nextp ob = hdp xs 0" "nextp ob = hdp ys' 0"
    by (auto split: option.splits)
  with Cons.IH [of a a ys'] Cons.prems ys show ?case by auto
qed

lemma slot_list_unique: "slot_ok h i l xs \<Longrightarrow> slot_ok h i l ys \<Longrightarrow> xs = ys"
  by (rule dls_unique [of h 0 _ 0]) (simp_all add: slot_ok_def)

lemma wheel_lists_unique:
  assumes "wheel X c p L" and "wheel X c p' L'" and "i < nat (numOfPeriods c)"
  shows "L i = L' i"
  using wheelD(8) [OF assms(1,3)] wheelD(8) [OF assms(2,3)] by (rule slot_list_unique)

text \<open>A slot list fits into the fuel of a loop over it.\<close>

lemma slot_length_fuel:
  assumes "wheel X c p L" and "i < nat (numOfPeriods c)"
  shows "length (L i) < loop_fuel c"
proof -
  have sub: "set (L i) \<subseteq> block_addrs p"
    using wheelD(9) [OF assms(1)] assms(2) allocated_subset [of p] by blast
  have "length (L i) = card (set (L i))"
    using slot_okD(4) [OF wheelD(8) [OF assms]] by (simp add: distinct_card)
  also have "\<dots> \<le> card (block_addrs p)" using sub by (intro card_mono) simp_all
  also have "\<dots> = nat (numOfBlock p)"
    using wheelD(2) [OF assms(1)] by (rule card_block_addrs)
  finally show ?thesis using wheelD(1) [OF assms(1)] by (simp add: loop_fuel_def)
qed

end
