(* ===== verification/WheelOps.thy ===== *)
theory WheelOps
  imports WheelInv
begin

section \<open>The steps of the controller keep the wheel\<close>

text \<open>
  One lemma per step of \<open>tmrReset\<close> and \<open>tmrProcessList\<close>: on a wheel the step does not
  meet undefined behaviour, its result is a wheel again, and the fields of all other objects
  are unchanged (\<open>core\<close>: all but the links).
\<close>

text \<open>The fields of the controller that neither operation writes.\<close>

definition same_config :: "tmr_ctrl_t \<Rightarrow> tmr_ctrl_t \<Rightarrow> bool" where
  "same_config c c' \<longleftrightarrow>
     signature c' = signature c \<and> resolution c' = resolution c \<and> numOfPeriods c' = numOfPeriods c
     \<and> label c' = label c \<and> maxNumOfTmrs c' = maxNumOfTmrs c \<and> ticks c' = ticks c
     \<and> maxTicks c' = maxTicks c"

lemma same_config_refl [simp]: "same_config c c"
  by (simp add: same_config_def)

lemma same_config_trans: "same_config a b \<Longrightarrow> same_config b c \<Longrightarrow> same_config a c"
  by (simp add: same_config_def)

lemma same_configD: "same_config c c' \<Longrightarrow> numOfPeriods c' = numOfPeriods c \<and> resolution c' = resolution c"
  by (simp add: same_config_def)

text \<open>The objects other than those of \<open>X\<close> keep their own fields.\<close>

definition same_cores :: "addr set \<Rightarrow> tmr_obj_t heap \<Rightarrow> tmr_obj_t heap \<Rightarrow> bool" where
  "same_cores X h h' \<longleftrightarrow> (\<forall>a. a \<notin> X \<longrightarrow> map_option core (h' a) = map_option core (h a))"

lemma same_cores_refl [simp]: "same_cores X h h"
  by (simp add: same_cores_def)

lemma same_cores_trans: "same_cores X h h' \<Longrightarrow> same_cores X h' h'' \<Longrightarrow> same_cores X h h''"
  by (simp add: same_cores_def)

lemma same_cores_mono: "same_cores X h h' \<Longrightarrow> X \<subseteq> Y \<Longrightarrow> same_cores Y h h'"
  by (auto simp: same_cores_def)

lemma same_cores_upd: "x \<in> X \<Longrightarrow> same_cores X h (h(x := v))"
  by (auto simp: same_cores_def)

lemma same_cores_links:
  "same_cores X h (upd_nn h p (prevp_update (\<lambda>_. q)))"
  "same_cores X h (upd_nn h p (nextp_update (\<lambda>_. q)))"
  by (simp_all add: same_cores_def)

lemma same_cores_at: "same_cores X h h' \<Longrightarrow> a \<notin> X \<Longrightarrow> map_option core (h' a) = map_option core (h a)"
  by (simp add: same_cores_def)

subsection \<open>Two ways to a new wheel\<close>

text \<open>Nothing happens to the lists.\<close>

lemma wheel_frame:
  assumes w: "wheel X c p L"
    and h: "\<And>a. a \<in> allocated p - X \<Longrightarrow> objs c' a = objs c a"
    and pool: "poolHandle c' = Some p'" "pool_inv p' (objs c')"
    and alloc: "allocated p' - X' = allocated p - X" "X' \<subseteq> allocated p'"
    and rest: "tmrList c' = tmrList c" "numOfPeriods c' = numOfPeriods c"
      "resolution c' = resolution c" "numOfTmrs c' = numOfTmrs c"
  shows "wheel X' c' p' L"
proof -
  have "slot_ok (objs c') i (tmrList c' ! i) (L i)" if "i < nat (numOfPeriods c)" for i
  proof -
    have "set (L i) \<subseteq> allocated p - X" using wheelD(9) [OF w] that by blast
    then show ?thesis
      using wheelD(8) [OF w that] h by (subst slot_ok_frame [of _ _ "objs c"]) (auto simp: rest)
  qed
  with wheelD [OF w] pool alloc show ?thesis by (simp add: wheel_def rest)
qed

text \<open>The list of one slot is replaced; objects outside it and outside \<open>X\<close> are as before.\<close>

lemma wheel_update:
  assumes w: "wheel X c p L" and i: "i < nat (numOfPeriods c)"
    and h: "\<And>a. a \<notin> set (L i) \<Longrightarrow> a \<notin> X \<Longrightarrow> objs c' a = objs c a"
    and slot: "slot_ok (objs c') i l' xs'"
    and pool: "poolHandle c' = Some p'" "pool_inv p' (objs c')"
    and alloc: "allocated p' - X' = (allocated p - X - set (L i)) \<union> set xs'" "X' \<subseteq> allocated p'"
    and rest: "tmrList c' = (tmrList c)[i := l']" "numOfPeriods c' = numOfPeriods c"
      "resolution c' = resolution c" "numOfTmrs c' = int (card (allocated p' - X'))"
  shows "wheel X' c' p' (L(i := xs'))"
proof -
  let ?N = "nat (numOfPeriods c)"
  have "slot_ok (objs c') j (tmrList c' ! j) ((L(i := xs')) j)" if j: "j < ?N" for j
  proof (cases "j = i")
    case True
    then show ?thesis using slot i wheelD(7) [OF w] by (simp add: rest)
  next
    case False
    have "objs c' a = objs c a" if "a \<in> set (L j)" for a
      using wheel_slots_disjoint [OF w j i that] False wheelD(9) [OF w] that j by (intro h) auto
    then have "slot_ok (objs c') j (tmrList c ! j) (L j)"
      using wheelD(8) [OF w j] by (subst slot_ok_frame [of _ _ "objs c"]) auto
    with False show ?thesis by (simp add: rest)
  qed
  moreover have "(\<Union>j < ?N. set ((L(i := xs')) j)) = allocated p' - X'"
  proof -
    have "(\<Union>j < ?N. set ((L(i := xs')) j)) = (\<Union>j \<in> {..<?N} - {i}. set (L j)) \<union> set xs'"
      using i by (auto split: if_splits)
    also have "(\<Union>j \<in> {..<?N} - {i}. set (L j)) = (\<Union>j < ?N. set (L j)) - set (L i)"
      using wheel_slots_disjoint [OF w _ i] by blast
    finally show ?thesis using wheelD(9) [OF w] alloc(1) by simp
  qed
  ultimately show ?thesis
    using wheelD(3-7) [OF w] pool alloc(2) by (simp add: wheel_def rest)
qed

subsection \<open>Unlinking a timer\<close>

lemma slot_split:
  assumes "slot_ok h i l (xs @ x # ys)"
  obtains ob where "h x = Some ob" "x \<noteq> 0" "timerId ob = x" "index ob = int i"
    "prevp ob = lastp xs 0" "nextp ob = hdp ys 0" "x \<notin> set xs" "x \<notin> set ys"
    "- 32768 \<le> cycle ob" "cycle ob < 32768"
proof -
  from slot_okD(7) [OF assms, of x] obtain ob where "h x = Some ob" "timerId ob = x"
    "index ob = int i" "- 32768 \<le> cycle ob" "cycle ob < 32768" by (auto elim: node_okE)
  with that [of ob] slot_okD(3-5) [OF assms] dls_at [of nextp prevp h 0 xs x ys 0 ob]
  show ?thesis by auto
qed

text \<open>The store after the two neighbours of \<open>x\<close> are linked to each other.\<close>

lemma slot_remove:
  fixes xs ys :: "addr list"
  defines "upd \<equiv> \<lambda>h. upd_nn (upd_nn h (lastp xs 0) (nextp_update (\<lambda>_. hdp ys 0)))
                     (hdp ys 0) (prevp_update (\<lambda>_. lastp xs 0))"
  assumes s: "slot_ok h i l (xs @ x # ys)" and h': "same_cores {x} (upd h) h'"
    and links: "\<And>a. a \<noteq> x \<Longrightarrow> h' a = upd h a"
    and l': "head l' = hdp (xs @ ys) 0" "count l' = count l - 1"
  shows "slot_ok h' i l' (xs @ ys)"
proof -
  note d = slot_okD [OF s]
  have cores: "map_option core (h' a) = map_option core (h a)" if "a \<in> set (xs @ ys)" for a
  proof -
    from that d(4) have "a \<noteq> x" by auto
    then have "map_option core (h' a) = map_option core (upd h a)" using h' by (simp add: same_cores_def)
    then show ?thesis by (simp add: upd_def)
  qed
  have "dls nextp prevp (upd h) 0 (xs @ ys) 0"
    unfolding upd_def by (rule tn.dls_remove [OF d(3-5)])
  moreover have "h' a = upd h a" if "a \<in> set (xs @ ys)" for a
    using that d(4) by (intro links) auto
  then have "dls nextp prevp h' 0 (xs @ ys) 0 = dls nextp prevp (upd h) 0 (xs @ ys) 0"
    by (intro dls_frame) simp
  moreover have "map (cyc h') (xs @ ys) = map (cyc h) (xs @ ys)"
    by (rule sorted_core) (rule cores)
  then have "sorted (map (cyc h') (xs @ ys))"
    using d(6) by (simp only:) (simp add: sorted_append)
  moreover have "node_ok h' i a" if "a \<in> set (xs @ ys)" for a
    using node_ok_core [of h' a h i, OF cores [OF that]] d(7) [of a] that by auto
  moreover have "count l' = int (length (xs @ ys))" using d(2) l'(2) by simp
  moreover have "distinct (xs @ ys)" "0 \<notin> set (xs @ ys)" using d(4,5) by simp_all
  ultimately show ?thesis unfolding slot_ok_def using l'(1) by blast
qed

text \<open>The store, the slot and the controller when the timer between \<open>xs\<close> and \<open>ys\<close> has been unlinked.\<close>

definition cut_links :: "tmr_obj_t heap \<Rightarrow> addr list \<Rightarrow> addr list \<Rightarrow> tmr_obj_t heap" where
  "cut_links h xs ys = upd_nn (upd_nn h (lastp xs 0) (nextp_update (\<lambda>_. hdp ys 0)))
     (hdp ys 0) (prevp_update (\<lambda>_. lastp xs 0))"

lemma cut_links_other: "a \<notin> set (xs @ ys) \<Longrightarrow> cut_links h xs ys a = h a"
  using lastp_out [of a xs] hdp_out [of a ys] by (auto simp: cut_links_def)

lemma cut_links_cores: "same_cores X h (cut_links h xs ys)"
  by (simp add: same_cores_def cut_links_def)

definition cut_slot :: "tmr_list_t \<Rightarrow> addr list \<Rightarrow> addr list \<Rightarrow> tmr_list_t" where
  "cut_slot l xs ys = l\<lparr>head := if lastp xs 0 \<noteq> 0 then head l else hdp ys 0, count := count l - 1\<rparr>"

definition cut_ctrl :: "tmr_ctrl_t \<Rightarrow> nat \<Rightarrow> addr list \<Rightarrow> addr \<Rightarrow> addr list \<Rightarrow> tmr_obj_t \<Rightarrow> tmr_ctrl_t" where
  "cut_ctrl c i xs x ys ob = c\<lparr>tmrList := (tmrList c)[i := cut_slot (tmrList c ! i) xs ys],
     objs := (cut_links (objs c) xs ys)(x \<mapsto> ob\<lparr>timerId := 0\<rparr>), numOfTmrs := numOfTmrs c - 1\<rparr>"

lemma unlink_obj_run:
  assumes s: "slot_ok (objs c) i (tmrList c ! i) (xs @ x # ys)" and i: "i < length (tmrList c)"
    and ob: "objs c x = Some ob"
  shows "unlink_obj c x = Inr (cut_ctrl c i xs x ys ob)"
proof -
  from slot_split [OF s] ob have ob': "x \<noteq> 0" "timerId ob = x"
    "index ob = int i" "prevp ob = lastp xs 0" "nextp ob = hdp ys 0" "x \<notin> set (xs @ ys)" by auto
  have "lastp xs 0 = 0 \<or> lastp xs 0 \<in> dom (objs c)" "hdp ys 0 = 0 \<or> hdp ys 0 \<in> dom (objs c)"
    using dls_in_dom [OF slot_okD(3) [OF s]] lastp_cases [of xs 0] hdp_cases [of ys 0] by auto
  moreover have "cut_links (objs c) xs ys x = Some ob" using ob ob'(6) by (simp add: cut_links_other)
  ultimately show ?thesis
    using ob ob'(1-5) i by (simp add: unlink_obj_def c_simps cut_ctrl_def cut_slot_def cut_links_def)
qed

lemma cut_slot_ok:
  assumes s: "slot_ok h i l (xs @ x # ys)"
  shows "slot_ok ((cut_links h xs ys)(x \<mapsto> ob)) i (cut_slot l xs ys) (xs @ ys)"
proof (rule slot_remove [OF s])
  note d = slot_okD [OF s]
  have "lastp xs 0 = 0 \<longleftrightarrow> xs = []" using d(5) by (intro lastp_zero_iff) simp
  then show "head (cut_slot l xs ys) = hdp (xs @ ys) 0" using d(1) by (cases xs) (auto simp: cut_slot_def)
qed (auto simp: cut_links_def same_cores_upd cut_slot_def same_cores_def)

lemma unlink_obj_wheel:
  assumes w: "wheel {} c p L" and i: "i < nat (numOfPeriods c)" and x: "x \<in> set (L i)"
  shows "\<exists>c'. unlink_obj c x = Inr c' \<and> wheel {x} c' p (L(i := remove1 x (L i)))
    \<and> same_cores {x} (objs c) (objs c') \<and> same_config c c'
    \<and> periodsFromStart c' = periodsFromStart c"
proof -
  from x obtain xs ys where L: "L i = xs @ x # ys" by (meson split_list)
  note s = wheelD(8) [OF w i, unfolded L]
  from slot_split [OF s] obtain ob where ob: "objs c x = Some ob" "x \<notin> set xs" "x \<notin> set ys" by blast
  have "i < length (tmrList c)" using i wheelD(7) [OF w] by simp
  from unlink_obj_run [OF s this ob(1)] have run: "unlink_obj c x = Inr (cut_ctrl c i xs x ys ob)" (is "_ = Inr ?c'") .
  have xa: "x \<in> allocated p" using wheelD(9) [OF w] i x by auto
  have sub: "set (xs @ ys) \<subseteq> allocated p" using wheelD(9) [OF w] i L by fastforce
  have "wheel {x} ?c' p (L(i := xs @ ys))"
  proof (rule wheel_update [OF w i])
    show "objs ?c' a = objs c a" if "a \<notin> set (L i)" for a
      using that by (simp add: L cut_ctrl_def cut_links_other)
    show "slot_ok (objs ?c') i (cut_slot (tmrList c ! i) xs ys) (xs @ ys)"
      using cut_slot_ok [OF s] by (simp add: cut_ctrl_def)
    show "pool_inv p (objs ?c')"
      using wheelD(2) [OF w] by (rule pool_inv_heap) (auto simp: cut_ctrl_def cut_links_def)
    show "allocated p - {x} = allocated p - {} - set (L i) \<union> set (xs @ ys)"
      using sub xa ob(2,3) unfolding L by auto
    show "{x} \<subseteq> allocated p" using xa by simp
    show "numOfTmrs ?c' = int (card (allocated p - {x}))"
      using wheelD(11) [OF w] xa card_gt_0_iff [of "allocated p"] by (auto simp: cut_ctrl_def card_Diff_singleton)
  qed (simp_all add: cut_ctrl_def wheelD(1) [OF w])
  moreover have "remove1 x (L i) = xs @ ys" using ob(2) by (simp add: L remove1_append)
  moreover have "same_cores {x} (objs c) (objs ?c')"
    using cut_links_cores [of "{x}" "objs c" xs ys] by (simp add: cut_ctrl_def same_cores_def)
  moreover have "same_config c ?c'" "periodsFromStart ?c' = periodsFromStart c"
    by (simp_all add: cut_ctrl_def same_config_def)
  ultimately show ?thesis using run by metis
qed

subsection \<open>A fresh object, and the fields of an object between two lists\<close>

lemma malloc_wheel:
  assumes w: "wheel {} c p L" and free: "0 < numOfFree p"
  defines "a \<equiv> hd (free_addrs p)"
  shows "wheel {a} (c\<lparr>poolHandle := Some (pool_take p), objs := (objs c)(a \<mapsto> zero_obj)\<rparr>)
           (pool_take p) L"
    and "memPoolMalloc zero_obj (poolHandle c) (objs c)
           = Inr (a, Some (pool_take p), (objs c)(a \<mapsto> zero_obj))"
    and "a \<noteq> 0" and "a \<notin> allocated p" and "allocated (pool_take p) = insert a (allocated p)"
proof -
  note inv = wheelD(2) [OF w]
  note al = allocated_take [OF inv free, folded a_def]
  show "a \<noteq> 0" using block_addrs_nonzero [OF inv al(3)] .
  show "a \<notin> allocated p" "allocated (pool_take p) = insert a (allocated p)" using al by simp_all
  show "memPoolMalloc zero_obj (poolHandle c) (objs c)
      = Inr (a, Some (pool_take p), (objs c)(a \<mapsto> zero_obj))"
    using memPoolMalloc_some [OF inv free] wheelD(1) [OF w] by (simp add: a_def)
  show "wheel {a} (c\<lparr>poolHandle := Some (pool_take p), objs := (objs c)(a \<mapsto> zero_obj)\<rparr>)
      (pool_take p) L"
    using al pool_alloc_step(2) [OF inv free, of zero_obj]
    by (intro wheel_frame [OF w]) (auto simp: a_def)
qed

text \<open>Writing an object of \<open>X\<close> does not touch the wheel.\<close>

lemma detached_wheel:
  assumes w: "wheel X c p L" and x: "x \<in> X"
  shows "wheel X (c\<lparr>objs := (objs c)(x \<mapsto> ob)\<rparr>) p L"
  using wheelD(1,2,10) [OF w] x
  by (intro wheel_frame [OF w]) (auto intro: pool_inv_heap)

subsection \<open>Linking a timer into its slot\<close>

lemma find_place_ok:
  assumes "dls nextp prevp h p zs 0" and "0 \<notin> set zs" and "length zs < fuel"
  shows "find_place fuel h (hdp zs 0) p k =
    Inr (lastp (takeWhile (\<lambda>a. cyc h a < k) zs) p, hdp (dropWhile (\<lambda>a. cyc h a < k) zs) 0)"
  using assms
proof (induction zs arbitrary: p fuel)
  case Nil
  then obtain n where "fuel = Suc n" by (cases fuel) auto
  then show ?case by simp
next
  case (Cons a zs)
  then obtain n where n: "fuel = Suc n" by (cases fuel) auto
  from Cons.prems obtain ob where ob: "h a = Some ob" "nextp ob = hdp zs 0" "a \<noteq> 0"
    by (auto split: option.splits)
  then have "cyc h a = cycle ob" by (simp add: cyc_def)
  with ob n Cons.IH [of a n] Cons.prems show ?case by (simp add: c_simps)
qed

text \<open>The new list of the slot is the old one with \<open>x\<close> put in its place.\<close>

definition place :: "tmr_obj_t heap \<Rightarrow> addr list \<Rightarrow> addr \<Rightarrow> int \<Rightarrow> addr list" where
  "place h zs x k = takeWhile (\<lambda>a. cyc h a < k) zs @ x # dropWhile (\<lambda>a. cyc h a < k) zs"

lemma set_place [simp]: "set (place h zs x k) = insert x (set zs)"
proof -
  have "set zs = set (takeWhile (\<lambda>a. cyc h a < k) zs) \<union> set (dropWhile (\<lambda>a. cyc h a < k) zs)"
    by (metis set_append takeWhile_dropWhile_id)
  then show ?thesis by (simp add: place_def)
qed

lemma slot_insert:
  fixes h :: "tmr_obj_t heap" and zs :: "addr list" and k :: int
  defines "xs \<equiv> takeWhile (\<lambda>a. cyc h a < k) zs" and "ys \<equiv> dropWhile (\<lambda>a. cyc h a < k) zs"
  assumes s: "slot_ok h i l zs" and x: "h x = Some ob" "x \<noteq> 0" "x \<notin> set zs"
    and ob: "node_ok h i x" "cycle ob = k" "nextp ob = hdp ys 0" "prevp ob = lastp xs 0"
    and h': "h' = upd_nn (upd_nn h (hdp ys 0) (prevp_update (\<lambda>_. x))) (lastp xs 0)
                    (nextp_update (\<lambda>_. x))"
    and l': "head l' = hdp xs x" "count l' = count l + 1"
  shows "slot_ok h' i l' (place h zs x k)"
proof -
  note d = slot_okD [OF s]
  have zs: "zs = xs @ ys" by (simp add: xs_def ys_def)
  have pl: "place h zs x k = xs @ x # ys" by (simp add: place_def xs_def ys_def)
  have dist: "distinct (xs @ x # ys)" "0 \<notin> set (xs @ x # ys)"
    using d(4,5) x(2,3) by (auto simp: zs)
  have "dls nextp prevp h' 0 (xs @ x # ys) 0"
    unfolding h' using d(3) ob(3,4) x(1) dist by (intro tn.dls_insert) (auto simp: zs)
  moreover have cores: "map_option core (h' a) = map_option core (h a)" for a
    by (simp add: h')
  have "map (cyc h') (xs @ x # ys) = map (cyc h) (xs @ x # ys)"
    by (rule sorted_core) (rule cores)
  moreover have "cyc h x = k" using x(1) ob(2) by (simp add: cyc_def)
  then have "sorted (map (cyc h) (xs @ x # ys))"
    using sorted_insert_place [OF d(6), of x] by (simp add: xs_def ys_def)
  ultimately have "dls nextp prevp h' 0 (xs @ x # ys) 0" "sorted (map (cyc h') (xs @ x # ys))"
    by (simp_all only:)
  moreover have "node_ok h' i a" if "a \<in> set (xs @ x # ys)" for a
    using node_ok_core [of h' a h i, OF cores] d(7) [of a] ob(1) that by (auto simp: zs)
  moreover have "count l' = int (length (xs @ x # ys))" using d(2) l' by (simp add: zs)
  moreover have "head l' = hdp (xs @ x # ys) 0" using l' by simp
  ultimately show ?thesis using dist unfolding slot_ok_def pl by blast
qed

text \<open>The store, the slot and the controller when a timer has been put between \<open>xs\<close> and \<open>ys\<close>.\<close>

definition put_links :: "tmr_obj_t heap \<Rightarrow> addr list \<Rightarrow> addr \<Rightarrow> addr list \<Rightarrow> tmr_obj_t heap" where
  "put_links h xs x ys = upd_nn (upd_nn h (hdp ys 0) (prevp_update (\<lambda>_. x))) (lastp xs 0) (nextp_update (\<lambda>_. x))"

lemma put_links_other: "a \<notin> set (xs @ ys) \<Longrightarrow> put_links h xs x ys a = h a"
  using lastp_out [of a xs] hdp_out [of a ys] by (auto simp: put_links_def)

definition put_node :: "tmr_obj_t \<Rightarrow> nat \<Rightarrow> addr list \<Rightarrow> addr list \<Rightarrow> tmr_obj_t" where
  "put_node ob i xs ys = ob\<lparr>index := int i, nextp := hdp ys 0, prevp := lastp xs 0\<rparr>"

definition put_slot :: "tmr_list_t \<Rightarrow> addr list \<Rightarrow> addr \<Rightarrow> tmr_list_t" where
  "put_slot l xs x = l\<lparr>head := (if lastp xs 0 \<noteq> 0 then head l else x), count := count l + 1\<rparr>"

definition put_ctrl :: "tmr_ctrl_t \<Rightarrow> nat \<Rightarrow> addr list \<Rightarrow> addr \<Rightarrow> addr list \<Rightarrow> tmr_obj_t \<Rightarrow> tmr_ctrl_t" where
  "put_ctrl c i xs x ys ob = c\<lparr>tmrList := (tmrList c)[i := put_slot (tmrList c ! i) xs x],
     objs := put_links ((objs c)(x \<mapsto> put_node ob i xs ys)) xs x ys, numOfTmrs := numOfTmrs c + 1\<rparr>"

lemma link_obj_run:
  fixes ob :: tmr_obj_t
  assumes w: "wheel {x} c p L" and i: "i < nat (numOfPeriods c)"
    and x: "objs c x = Some ob" "x \<noteq> 0" "x \<notin> set (L i)"
  defines "xs \<equiv> takeWhile (\<lambda>a. cyc (objs c) a < cycle ob) (L i)"
    and "ys \<equiv> dropWhile (\<lambda>a. cyc (objs c) a < cycle ob) (L i)"
  shows "link_obj c x (int i) = Inr (put_ctrl c i xs x ys ob)"
proof -
  note d = slot_okD [OF wheelD(8) [OF w i]]
  have zs: "L i = xs @ ys" by (simp add: xs_def ys_def)
  define h0 where "h0 = (objs c)(x \<mapsto> ob\<lparr>index := int i\<rparr>)"
  have "cyc h0 a = cyc (objs c) a" for a using x(1) by (simp add: h0_def cyc_def)
  moreover have "dls nextp prevp h0 0 (L i) 0" unfolding h0_def using d(3) x(3) by (simp add: dls_upd_notin)
  ultimately have fp: "find_place (loop_fuel c) h0 (hdp (L i) 0) 0 (cycle ob) = Inr (lastp xs 0, hdp ys 0)"
    using find_place_ok [OF _ d(5) slot_length_fuel [OF w i]] by (simp add: xs_def ys_def)
  have "lastp xs 0 = 0 \<or> lastp xs 0 \<in> dom (objs c)" "hdp ys 0 = 0 \<or> hdp ys 0 \<in> dom (objs c)"
    using dls_in_dom [OF d(3)] lastp_cases [of xs 0] hdp_cases [of ys 0] by (auto simp: zs)
  then have "lastp xs 0 = 0 \<or> lastp xs 0 \<in> dom ((objs c)(x \<mapsto> put_node ob i xs ys))"
    "hdp ys 0 = 0 \<or> hdp ys 0 \<in> dom ((objs c)(x \<mapsto> put_node ob i xs ys))" by auto
  moreover have "i < length (tmrList c)" using i wheelD(7) [OF w] by simp
  ultimately show ?thesis
    using x by (simp add: link_obj_def c_simps fp [unfolded h0_def] d(1) put_ctrl_def put_slot_def put_links_def put_node_def)
qed

lemma put_slot_ok:
  assumes s: "slot_ok h i l zs" and x: "h x = Some ob" "x \<noteq> 0" "x \<notin> set zs"
    and ob: "timerId ob = x" "- 32768 \<le> cycle ob" "cycle ob < 32768"
  defines "xs \<equiv> takeWhile (\<lambda>a. cyc h a < cycle ob) zs" and "ys \<equiv> dropWhile (\<lambda>a. cyc h a < cycle ob) zs"
  shows "slot_ok (put_links (h(x \<mapsto> put_node ob i xs ys)) xs x ys) i (put_slot l xs x) (place h zs x (cycle ob))"
proof -
  let ?h1 = "h(x \<mapsto> put_node ob i xs ys)"
  note d = slot_okD [OF s]
  have zs: "zs = xs @ ys" by (simp add: xs_def ys_def)
  have slot1: "slot_ok ?h1 i l zs" using s x(3) by (subst slot_ok_frame [of _ _ h]) auto
  have cyc1: "cyc ?h1 a = cyc h a" for a using x(1) by (simp add: cyc_def put_node_def)
  have xs1: "takeWhile (\<lambda>a. cyc ?h1 a < cycle ob) zs = xs" "dropWhile (\<lambda>a. cyc ?h1 a < cycle ob) zs = ys"
    unfolding cyc1 by (simp_all only: xs_def ys_def)
  have "lastp xs 0 = 0 \<longleftrightarrow> xs = []" using d(5) zs by (intro lastp_zero_iff) simp
  then have hd: "head (put_slot l xs x) = hdp xs x" using d(1) zs by (cases xs) (auto simp: put_slot_def)
  have "slot_ok (put_links ?h1 xs x ys) i (put_slot l xs x) (place ?h1 zs x (cycle ob))"
  proof (rule slot_insert [where k = "cycle ob", OF slot1 _ x(2,3), unfolded xs1])
    show "?h1 x = Some (put_node ob i xs ys)" by simp
    show "node_ok ?h1 i x" using ob by (simp add: node_ok_def put_node_def)
    show "head (put_slot l xs x) = hdp xs x" by (rule hd)
  qed (simp_all add: put_links_def put_slot_def put_node_def)
  then show ?thesis by (simp add: place_def cyc1)
qed

lemma link_obj_wheel:
  assumes w: "wheel {x} c p L" and i: "i < nat (numOfPeriods c)"
    and x: "objs c x = Some ob" "timerId ob = x" "- 32768 \<le> cycle ob" "cycle ob < 32768"
  shows "\<exists>c'. link_obj c x (int i) = Inr c'
    \<and> wheel {} c' p (L(i := place (objs c) (L i) x (cycle ob)))
    \<and> same_cores {x} (objs c) (objs c')
    \<and> map_option core (objs c' x) = Some (core (ob\<lparr>index := int i\<rparr>))
    \<and> same_config c c' \<and> periodsFromStart c' = periodsFromStart c"
proof -
  let ?k = "cycle ob" and ?zs = "L i"
  have xa: "x \<in> allocated p" "x \<noteq> 0" "x \<notin> set ?zs"
    using wheelD(9,10) [OF w] i block_addrs_nonzero [OF wheelD(2) [OF w]] allocated_subset [of p]
    by auto
  define xs where "xs = takeWhile (\<lambda>a. cyc (objs c) a < ?k) ?zs"
  define ys where "ys = dropWhile (\<lambda>a. cyc (objs c) a < ?k) ?zs"
  have zs: "?zs = xs @ ys" by (simp add: xs_def ys_def)
  let ?c' = "put_ctrl c i xs x ys ob"
  have run: "link_obj c x (int i) = Inr ?c'"
    using link_obj_run [OF w i x(1) xa(2,3)] by (simp add: xs_def ys_def)
  have sub: "set ?zs \<subseteq> allocated p" using wheelD(9) [OF w] i by blast
  have "wheel {} ?c' p (L(i := place (objs c) ?zs x ?k))"
  proof (rule wheel_update [OF w i])
    show "objs ?c' a = objs c a" if "a \<notin> set ?zs" "a \<notin> {x}" for a
      using that zs by (simp add: put_ctrl_def put_links_other)
    show "slot_ok (objs ?c') i (put_slot (tmrList c ! i) xs x) (place (objs c) ?zs x ?k)"
      using put_slot_ok [OF wheelD(8) [OF w i] x(1) xa(2,3) x(2-4)] by (simp add: put_ctrl_def xs_def ys_def)
    show "pool_inv p (objs ?c')"
      using wheelD(2) [OF w] by (rule pool_inv_heap) (auto simp: put_ctrl_def put_links_def)
    show "allocated p - {} = allocated p - {x} - set ?zs \<union> set (place (objs c) ?zs x ?k)"
      using xa sub by auto
    show "numOfTmrs ?c' = int (card (allocated p - {}))"
      using wheelD(11) [OF w] xa(1) card_gt_0_iff [of "allocated p"]
      by (auto simp: put_ctrl_def card_Diff_singleton)
  qed (simp_all add: put_ctrl_def wheelD(1) [OF w])
  moreover have "same_cores {x} (objs c) (objs ?c')" by (simp add: same_cores_def put_ctrl_def put_links_def)
  moreover have "objs ?c' x = Some (put_node ob i xs ys)" using xa(3) zs by (simp add: put_ctrl_def put_links_other)
  then have "map_option core (objs ?c' x) = Some (core (ob\<lparr>index := int i\<rparr>))" by (simp add: put_node_def core_def)
  moreover have "same_config c ?c'" "periodsFromStart ?c' = periodsFromStart c"
    by (simp_all add: put_ctrl_def same_config_def)
  ultimately show ?thesis using run by metis
qed

end
