(* ===== verification/WheelTick.thy ===== *)
theory WheelTick
  imports WheelOps
begin

section \<open>Processing a slot keeps the wheel\<close>

text \<open>
  The effect of \<open>tmrProcessList\<close> on a wheel: the timers at the front of the current slot
  that have no turn left are called, in list order, and freed; every other timer of the
  slot has one turn less; nothing else changes.
\<close>

text \<open>The call that the expiry of a timer makes.\<close>

definition fire_of :: "tmr_obj_t heap \<Rightarrow> addr \<Rightarrow> fire list" where
  "fire_of h a = (case h a of None \<Rightarrow> []
     | Some ob \<Rightarrow> if fp ob \<noteq> 0 then [(fp ob, param1 ob, a)] else [])"

lemma fire_of_core: "map_option core (h' a) = map_option core (h a) \<Longrightarrow> fire_of h' a = fire_of h a"
  by (auto simp: fire_of_def map_option_case dest: core_eqD(4,5) split: option.splits)

subsection \<open>Expiry of the first timer\<close>

text \<open>The controller when the first timer of the slot has been unlinked and its block freed.\<close>

definition drop_ctrl :: "tmr_ctrl_t \<Rightarrow> nat \<Rightarrow> addr \<Rightarrow> addr list \<Rightarrow> pool_t \<Rightarrow> tmr_ctrl_t" where
  "drop_ctrl c i x ys p' = c\<lparr>numOfTmrs := numOfTmrs c - 1,
     tmrList := (tmrList c)[i := (tmrList c ! i)\<lparr>head := hdp ys 0, count := count (tmrList c ! i) - 1\<rparr>],
     poolHandle := Some p', objs := (cut_links (objs c) [] ys)(x \<mapsto> zero_obj)\<rparr>"

lemma expire_head_run:
  assumes w: "wheel {} c p L" and i: "i < nat (numOfPeriods c)" and L: "L i = x # ys"
  shows "\<exists>p'. expire_head (int i) c = Inr (drop_ctrl c i x ys p', fire_of (objs c) x)
    \<and> pool_inv p' (objs (drop_ctrl c i x ys p')) \<and> allocated p' = allocated p - {x}
    \<and> free_addrs p' = free_addrs p @ [x] \<and> same_geometry p p'"
proof -
  note s = wheelD(8) [OF w i, unfolded L]
  note d = slot_okD [OF s]
  from slot_split [of _ _ _ "[]", simplified, OF s] obtain hdr where hdr:
    "objs c x = Some hdr" "x \<noteq> 0" "nextp hdr = hdp ys 0" "x \<notin> set ys" by blast
  have dom: "hdp ys 0 = 0 \<or> hdp ys 0 \<in> dom (objs c)"
    using dls_in_dom [OF d(3)] hdp_cases [of ys 0] by auto
  have xa: "x \<in> allocated p" using wheelD(9) [OF w] i L by fastforce
  define h1 where "h1 = upd_nn (objs c) (hdp ys 0) (prevp_update (\<lambda>_. 0))"
  have h1: "h1 = cut_links (objs c) [] ys" "h1 x = Some hdr"
    using hdr(1,4) cut_links_other [of x "[]" ys "objs c"] by (simp_all add: h1_def cut_links_def)
  define h2 where "h2 = h1(x \<mapsto> hdr\<lparr>timerId := 0\<rparr>)"
  have "pool_inv p h2"
    using wheelD(2) [OF w] by (rule pool_inv_heap) (auto simp: h2_def h1_def)
  from pool_release_step [OF this xa, of zero_obj] obtain p' where p':
    "memPoolFree zero_obj (Some p) h2 x = Inr (Some p', h2(x \<mapsto> zero_obj))" "pool_inv p' (h2(x \<mapsto> zero_obj))"
    "allocated p' = allocated p - {x}" "free_addrs p' = free_addrs p @ [x]" "same_geometry p p'"
    by (auto simp: pool_release_def)
  have "i < length (tmrList c)" using i wheelD(7) [OF w] by simp
  then have "expire_head (int i) c = Inr (drop_ctrl c i x ys p', fire_of (objs c) x)"
    using hdr d(1) dom h1(2) p'(1) wheelD(1) [OF w]
    by (simp add: expire_head_def c_simps drop_ctrl_def h1_def [symmetric] h2_def [symmetric] fire_of_def h1(1) [symmetric])
       (simp add: h2_def)
  then show ?thesis using p'(2-5) by (auto simp: drop_ctrl_def h2_def h1(1))
qed

lemma expire_head_wheel:
  assumes w: "wheel {} c p L" and i: "i < nat (numOfPeriods c)" and L: "L i = x # ys"
  shows "\<exists>c' p'. expire_head (int i) c = Inr (c', fire_of (objs c) x)
    \<and> wheel {} c' p' (L(i := ys)) \<and> allocated p' = allocated p - {x}
    \<and> free_addrs p' = free_addrs p @ [x] \<and> same_geometry p p'
    \<and> same_cores {x} (objs c) (objs c') \<and> objs c' x = Some zero_obj
    \<and> (\<forall>a. a \<notin> set (L i) \<longrightarrow> objs c' a = objs c a)
    \<and> same_config c c' \<and> periodsFromStart c' = periodsFromStart c"
proof -
  note s = wheelD(8) [OF w i, unfolded L]
  from expire_head_run [OF w i L] obtain p' where p':
    "expire_head (int i) c = Inr (drop_ctrl c i x ys p', fire_of (objs c) x)"
    "pool_inv p' (objs (drop_ctrl c i x ys p'))" "allocated p' = allocated p - {x}"
    "free_addrs p' = free_addrs p @ [x]" "same_geometry p p'" by blast
  let ?c' = "drop_ctrl c i x ys p'"
  have xa: "x \<in> allocated p" "x \<notin> set ys" using wheelD(9) [OF w] i L slot_okD(4) [OF s] by fastforce+
  have sub: "set ys \<subseteq> allocated p" using wheelD(9) [OF w] i L by fastforce
  have slot: "slot_ok (objs ?c') i ((tmrList c ! i)\<lparr>head := hdp ys 0, count := count (tmrList c ! i) - 1\<rparr>) ([] @ ys)"
  proof (rule slot_remove [of _ _ _ "[]" x ys])
    show "slot_ok (objs c) i (tmrList c ! i) ([] @ x # ys)" using s by simp
  qed (simp_all add: same_cores_def drop_ctrl_def cut_links_def)
  have frame: "objs ?c' a = objs c a" if "a \<notin> set (L i)" for a
    using that by (simp add: L drop_ctrl_def cut_links_other)
  have "wheel {} ?c' p' (L(i := ys))"
  proof (rule wheel_update [OF w i])
    show "objs ?c' a = objs c a" if "a \<notin> set (L i)" for a using frame [OF that] .
    show "slot_ok (objs ?c') i ((tmrList c ! i)\<lparr>head := hdp ys 0, count := count (tmrList c ! i) - 1\<rparr>) ys"
      using slot by simp
    show "allocated p' - {} = allocated p - {} - set (L i) \<union> set ys"
      using sub xa(2) by (auto simp: L p'(3))
    show "numOfTmrs ?c' = int (card (allocated p' - {}))"
      using wheelD(11) [OF w] xa(1) card_gt_0_iff [of "allocated p"]
      by (auto simp: drop_ctrl_def p'(3) card_Diff_singleton)
  qed (simp_all add: p'(2), simp_all add: drop_ctrl_def)
  moreover have "same_cores {x} (objs c) (objs ?c')" by (simp add: drop_ctrl_def same_cores_def cut_links_def)
  moreover have "same_config c ?c'" "periodsFromStart ?c' = periodsFromStart c" "objs ?c' x = Some zero_obj"
    by (simp_all add: drop_ctrl_def same_config_def)
  ultimately show ?thesis using p'(1,3-5) frame by metis
qed

subsection \<open>One turn less for the rest of the slot\<close>

definition dec_heap :: "tmr_obj_t heap \<Rightarrow> addr list \<Rightarrow> tmr_obj_t heap" where
  "dec_heap h xs a = (if a \<in> set xs
     then map_option (\<lambda>ob. ob\<lparr>cycle := to_i16 (cycle ob - 1)\<rparr>) (h a) else h a)"

lemma dec_cycles_ok:
  assumes "dls nextp prevp h q xs 0" and "0 \<notin> set xs" and "distinct xs" and "length xs < fuel"
  shows "dec_cycles fuel h (hdp xs 0) = Inr (dec_heap h xs)"
  using assms
proof (induction xs arbitrary: h q fuel)
  case Nil
  then obtain n where "fuel = Suc n" by (cases fuel) auto
  then show ?case by (simp add: dec_heap_def fun_eq_iff)
next
  case (Cons a xs)
  then obtain n where n: "fuel = Suc n" by (cases fuel) auto
  from Cons.prems obtain ob where ob: "h a = Some ob" "nextp ob = hdp xs 0" "a \<noteq> 0" "a \<notin> set xs"
    by (auto split: option.splits)
  let ?h = "h(a \<mapsto> ob\<lparr>cycle := to_i16 (cycle ob - 1)\<rparr>)"
  have "dls nextp prevp ?h a xs 0" using Cons.prems ob by (simp add: dls_upd_notin)
  then have "dec_cycles n ?h (hdp xs 0) = Inr (dec_heap ?h xs)"
    by (rule Cons.IH) (use Cons.prems n in simp_all)
  moreover have "dec_heap ?h xs = dec_heap h (a # xs)"
    using ob by (auto simp: dec_heap_def fun_eq_iff)
  ultimately show ?case using ob n by (simp add: c_simps)
qed

lemma sorted_map_pred: "sorted vs \<Longrightarrow> sorted (map (\<lambda>v. v - 1) vs)" for vs :: "int list"
  by (induction vs) auto

lemma slot_dec:
  assumes s: "slot_ok h i l xs" and pos: "\<And>a. a \<in> set xs \<Longrightarrow> 0 < cyc h a"
  shows "slot_ok (dec_heap h xs) i l xs"
proof -
  note d = slot_okD [OF s]
  let ?h = "dec_heap h xs"
  have at: "?h a = Some (ob\<lparr>cycle := cycle ob - 1\<rparr>)" "0 < cycle ob"
    if "a \<in> set xs" "h a = Some ob" for a ob
  proof -
    from d(7) [OF that(1)] that(2) have "- 32768 \<le> cycle ob" "cycle ob < 32768"
      by (auto elim: node_okE)
    moreover from pos [OF that(1)] that(2) show "0 < cycle ob" by (simp add: cyc_def)
    ultimately show "?h a = Some (ob\<lparr>cycle := cycle ob - 1\<rparr>)"
      using that by (simp add: dec_heap_def to_i16_id)
  qed
  have "dls nextp prevp ?h 0 xs 0 = dls nextp prevp h 0 xs 0"
    by (rule dls_frame) (simp add: dec_heap_def option.map_comp o_def)
  moreover have "cyc ?h a = cyc h a - 1" if a: "a \<in> set xs" for a
  proof -
    from d(7) [OF a] obtain ob where ob: "h a = Some ob" by (rule node_okE)
    with at(1) [OF a ob] show ?thesis by (simp add: cyc_def)
  qed
  then have "map (cyc ?h) xs = map (\<lambda>v. v - 1) (map (cyc h) xs)" by simp
  then have "sorted (map (cyc ?h) xs)" using sorted_map_pred [OF d(6)] by (simp only:)
  moreover have "node_ok ?h i a" if a: "a \<in> set xs" for a
  proof -
    from d(7) [OF a] obtain ob where ob: "h a = Some ob" "timerId ob = a" "index ob = int i"
      "cycle ob < 32768" by (rule node_okE)
    with at [OF a ob(1)] show ?thesis by (simp add: node_ok_def)
  qed
  ultimately show ?thesis using d(1-5) unfolding slot_ok_def by blast
qed

subsection \<open>The loop over the slot\<close>

definition expired :: "tmr_obj_t heap \<Rightarrow> addr list \<Rightarrow> addr list" where
  "expired h xs = takeWhile (\<lambda>a. cyc h a \<le> 0) xs"

definition waiting :: "tmr_obj_t heap \<Rightarrow> addr list \<Rightarrow> addr list" where
  "waiting h xs = dropWhile (\<lambda>a. cyc h a \<le> 0) xs"

lemma expired_waiting: "expired h xs @ waiting h xs = xs"
  by (simp add: expired_def waiting_def)

lemma expired_filter: "sorted (map (cyc h) xs) \<Longrightarrow> expired h xs = filter (\<lambda>a. cyc h a \<le> 0) xs"
  unfolding expired_def by (rule sorted_takeWhile_down(1)) auto

lemma waiting_filter: "sorted (map (cyc h) xs) \<Longrightarrow> waiting h xs = filter (\<lambda>a. 0 < cyc h a) xs"
  unfolding waiting_def using sorted_takeWhile_down(2) [of "cyc h" xs "\<lambda>v. v \<le> 0"]
  by (simp add: not_le)

text \<open>What one run of the loop does, as a relation between the two controllers.\<close>

definition slot_processed ::
  "nat \<Rightarrow> tmr_ctrl_t \<Rightarrow> pool_t \<Rightarrow> (nat \<Rightarrow> addr list) \<Rightarrow> tmr_ctrl_t \<Rightarrow> pool_t \<Rightarrow> bool" where
  "slot_processed i c p L c' p' \<longleftrightarrow>
     wheel {} c' p' (L(i := waiting (objs c) (L i)))
     \<and> allocated p' = allocated p - set (expired (objs c) (L i))
     \<and> free_addrs p' = free_addrs p @ expired (objs c) (L i) \<and> same_geometry p p'
     \<and> (\<forall>a. a \<notin> set (L i) \<longrightarrow> objs c' a = objs c a)
     \<and> (\<forall>a\<in>set (expired (objs c) (L i)). objs c' a = Some zero_obj)
     \<and> (\<forall>a\<in>set (waiting (objs c) (L i)). map_option core (objs c' a)
          = map_option (\<lambda>ob. core (ob\<lparr>cycle := cycle ob - 1\<rparr>)) (objs c a))
     \<and> same_config c c' \<and> periodsFromStart c' = periodsFromStart c"


lemma waiting_pos: "slot_ok h i l xs \<Longrightarrow> a \<in> set (waiting h xs) \<Longrightarrow> 0 < cyc h a"
  using waiting_filter [of h xs] by (auto dest: slot_okD(6))

text \<open>The loop stops at a timer that still has turns to go: all further ones have, too.\<close>

lemma slot_processed_dec:
  assumes w: "wheel {} c p L" and i: "i < nat (numOfPeriods c)" and e: "expired (objs c) (L i) = []"
  shows "slot_processed i c p L (c\<lparr>objs := dec_heap (objs c) (L i)\<rparr>) p"
proof -
  let ?h = "dec_heap (objs c) (L i)"
  note s = wheelD(8) [OF w i]
  have wt: "waiting (objs c) (L i) = L i" using expired_waiting [of "objs c" "L i"] e by simp
  then have pos: "0 < cyc (objs c) a" if "a \<in> set (L i)" for a
    using waiting_pos [OF s] that by simp
  have dec: "map_option core (?h a) = map_option (\<lambda>ob. core (ob\<lparr>cycle := cycle ob - 1\<rparr>)) (objs c a)"
    if a: "a \<in> set (L i)" for a
  proof -
    from slot_okD(7) [OF s a] obtain ob where ob: "objs c a = Some ob" "cycle ob < 32768"
      by (rule node_okE)
    with pos [OF a] have "0 < cycle ob" by (simp add: cyc_def)
    with ob a show ?thesis by (simp add: dec_heap_def to_i16_id)
  qed
  have "slot_ok ?h i (tmrList c ! i) (L i)" by (rule slot_dec [OF s pos])
  moreover have "pool_inv p ?h"
    using wheelD(2) [OF w] by (rule pool_inv_heap) (auto simp: dec_heap_def)
  moreover have "set (L i) \<subseteq> allocated p" using wheelD(9) [OF w] i by blast
  ultimately have "wheel {} (c\<lparr>objs := ?h\<rparr>) p (L(i := L i))"
    using wheelD(1,11) [OF w]
    by (intro wheel_update [OF w i, where l' = "tmrList c ! i"]) (auto simp: dec_heap_def)
  with dec show ?thesis
    by (simp add: slot_processed_def wt e same_geometry_def same_config_def dec_heap_def)
qed

lemma core_dec:
  assumes "core ob = core ob'"
  shows "core (ob\<lparr>cycle := cycle ob - 1\<rparr>) = core (ob'\<lparr>cycle := cycle ob' - 1\<rparr>)"
proof -
  have "core (u\<lparr>cycle := cycle u - 1\<rparr>) = core u\<lparr>cycle := cycle (core u) - 1\<rparr>" for u
    by (simp add: core_def)
  then show ?thesis using assms by simp
qed

text \<open>A round of the loop followed by the rest of it.\<close>

lemma slot_processed_step:
  assumes L: "L i = x # ys" and x: "cyc (objs c) x \<le> 0"
    and w1: "allocated p1 = allocated p - {x}" "free_addrs p1 = free_addrs p @ [x]"
      "same_geometry p p1" "same_cores {x} (objs c) (objs c1)" "objs c1 x = Some zero_obj"
      "\<forall>a. a \<notin> set (L i) \<longrightarrow> objs c1 a = objs c a"
      "same_config c c1" "periodsFromStart c1 = periodsFromStart c"
    and nx: "x \<notin> set ys"
    and rest: "slot_processed i c1 p1 (L(i := ys)) c' p'"
  shows "slot_processed i c p L c' p'"
    and "expired (objs c) (L i) = x # expired (objs c1) ys"
proof -
  have core: "map_option core (objs c1 a) = map_option core (objs c a)" if "a \<noteq> x" for a
    using w1(4) that by (simp add: same_cores_def)
  have cyc1: "cyc (objs c1) a = cyc (objs c) a" if "a \<in> set ys" for a
    using core [of a] nx that by (intro cyc_core) auto
  have ex: "expired (objs c1) ys = expired (objs c) ys" "waiting (objs c1) ys = waiting (objs c) ys"
    unfolding expired_def waiting_def
    by (rule takeWhile_cong dropWhile_cong, simp, simp add: cyc1)+
  show exL: "expired (objs c) (L i) = x # expired (objs c1) ys"
    using x unfolding ex L by (simp add: expired_def)
  have wtL: "waiting (objs c) (L i) = waiting (objs c1) ys"
    using x unfolding ex L by (simp add: waiting_def)
  have sub: "set (waiting (objs c1) ys) \<subseteq> set ys" by (auto simp: waiting_def dest: set_dropWhileD)
  have dec: "map_option (\<lambda>ob. core (ob\<lparr>cycle := cycle ob - 1\<rparr>)) (objs c1 a)
      = map_option (\<lambda>ob. core (ob\<lparr>cycle := cycle ob - 1\<rparr>)) (objs c a)" if "a \<in> set ys" for a
  proof -
    have "map_option core (objs c1 a) = map_option core (objs c a)" using core [of a] nx that by auto
    then show ?thesis by (cases "objs c a"; cases "objs c1 a") (auto intro: core_dec)
  qed
  note r = rest [unfolded slot_processed_def fun_upd_same fun_upd_upd]
  show "slot_processed i c p L c' p'"
    unfolding slot_processed_def exL wtL
  proof (intro conjI allI ballI impI)
    show "wheel {} c' p' (L(i := waiting (objs c1) ys))" using r by blast
    show "allocated p' = allocated p - set (x # expired (objs c1) ys)" using r w1(1) by auto
    show "free_addrs p' = free_addrs p @ x # expired (objs c1) ys" using r w1(2) by simp
    show "same_geometry p p'" using r w1(3) by (simp add: same_geometry_def)
    show "objs c' a = objs c a" if "a \<notin> set (L i)" for a
      using r w1(6) that L by simp
    show "objs c' a = Some zero_obj" if "a \<in> set (x # expired (objs c1) ys)" for a
      using that r nx w1(5) by auto
    show "map_option core (objs c' a)
        = map_option (\<lambda>ob. core (ob\<lparr>cycle := cycle ob - 1\<rparr>)) (objs c a)"
      if "a \<in> set (waiting (objs c1) ys)" for a
      using r that sub dec [of a] by auto
    show "same_config c c'" using r w1(7) by (blast intro: same_config_trans)
    show "periodsFromStart c' = periodsFromStart c" using r w1(8) by simp
  qed
qed

lemma expire_loop_wheel:
  assumes "wheel {} c p L" and "i < nat (numOfPeriods c)" and "length (L i) < fuel"
  shows "\<exists>c' p'. expire_loop fuel (int i) c
      = Inr (c', concat (map (fire_of (objs c)) (expired (objs c) (L i))))
    \<and> slot_processed i c p L c' p'"
  using assms
proof (induction "L i" arbitrary: fuel c p L)
  case Nil
  note w = Nil.prems(1) and i = Nil.prems(2)
  from Nil obtain n where n: "fuel = Suc n" by (cases fuel) auto
  have len: "i < length (tmrList c)" using i wheelD(7) [OF w] by simp
  have hd: "head (tmrList c ! i) = 0" using slot_okD(1) [OF wheelD(8) [OF w i]] by (simp flip: Nil.hyps)
  have "expired (objs c) (L i) = []" by (simp add: expired_def flip: Nil.hyps)
  moreover from this have "slot_processed i c p L (c\<lparr>objs := dec_heap (objs c) (L i)\<rparr>) p"
    by (rule slot_processed_dec [OF w i])
  moreover have "dec_heap (objs c) (L i) = objs c"
    by (simp add: dec_heap_def fun_eq_iff flip: Nil.hyps)
  ultimately show ?case using len hd by (auto simp: n c_simps)
next
  case (Cons x ys)
  note w = Cons.prems(1) and i = Cons.prems(2) and L = Cons.hyps(2) [symmetric]
  from Cons.prems obtain n where n: "fuel = Suc n" by (cases fuel) auto
  have len: "i < length (tmrList c)" using i wheelD(7) [OF w] by simp
  note s = wheelD(8) [OF w i, unfolded L]
  note d = slot_okD [OF s]
  from slot_split [of _ _ _ "[]", simplified, OF s] obtain hdr where hdr:
    "objs c x = Some hdr" "x \<noteq> 0" "x \<notin> set ys" by blast
  then have cx: "cyc (objs c) x = cycle hdr" by (simp add: cyc_def)
  show ?case
  proof (cases "0 < cycle hdr")
    case True
    then have e: "expired (objs c) (L i) = []" by (simp add: expired_def L cx)
    have "dec_cycles (loop_fuel c) (objs c) (hdp (L i) 0) = Inr (dec_heap (objs c) (L i))"
      using d(3-5) slot_length_fuel [OF w i] by (intro dec_cycles_ok [where q = 0]) (simp_all add: L)
    with slot_processed_dec [OF w i e] e True hdr len d(1) show ?thesis
      by (auto simp: n c_simps L)
  next
    case False
    from expire_head_wheel [OF w i L] obtain c1 p1 where e1:
      "expire_head (int i) c = Inr (c1, fire_of (objs c) x)" "wheel {} c1 p1 (L(i := ys))"
      "allocated p1 = allocated p - {x}" "free_addrs p1 = free_addrs p @ [x]" "same_geometry p p1"
      "same_cores {x} (objs c) (objs c1)" "objs c1 x = Some zero_obj"
      "\<forall>a. a \<notin> set (L i) \<longrightarrow> objs c1 a = objs c a"
      "same_config c c1" "periodsFromStart c1 = periodsFromStart c" by blast
    have i1: "i < nat (numOfPeriods c1)" using i e1(9) by (simp add: same_config_def)
    have f1: "length ((L(i := ys)) i) < n" using Cons.prems(3) L n by simp
    have y1: "ys = (L(i := ys)) i" by simp
    from Cons.hyps(1) [OF y1 e1(2) i1 f1, unfolded fun_upd_same] obtain c' p' where rest:
      "expire_loop n (int i) c1 = Inr (c', concat (map (fire_of (objs c1)) (expired (objs c1) ys)))"
      "slot_processed i c1 p1 (L(i := ys)) c' p'" by blast
    have "cyc (objs c) x \<le> 0" using False cx by simp
    note step = slot_processed_step [OF L this e1(3-10) hdr(3) rest(2)]
    have "fire_of (objs c1) a = fire_of (objs c) a" if "a \<in> set (expired (objs c1) ys)" for a
    proof -
      have "a \<in> set ys" using that by (auto simp: expired_def dest: set_takeWhileD)
      with hdr(3) e1(6) show ?thesis by (intro fire_of_core) (auto simp: same_cores_def)
    qed
    then have "map (fire_of (objs c1)) (expired (objs c1) ys) = map (fire_of (objs c)) (expired (objs c1) ys)"
      by simp
    with step rest(1) e1(1) False hdr len d(1) show ?thesis
      by (auto simp: n c_simps)
  qed
qed

end
