(* ===== verification/TimerSpec.thy ===== *)
theory TimerSpec
  imports WheelTick
begin

section \<open>The countdown specification of the timer controller\<close>

text \<open>
  What a user of the controller is promised, without slots, lists or pool: a finite map from
  timer handles to a number of periods that remain, a function and its argument.  A period
  that passes takes one off every number and calls the timers that stand at 0; arming a
  timer sets its number to the period it was given.  \<open>timers\<close> reads this map off a
  controller; the lemmas below show that \<open>tmrProcessList\<close> and \<open>tmrReset\<close> implement it.
\<close>

type_synonym countdown = "addr \<rightharpoonup> (int \<times> addr \<times> addr)"

definition remaining :: "tmr_ctrl_t \<Rightarrow> tmr_obj_t \<Rightarrow> int" where
  "remaining c ob =
     (index ob - uint (periodsFromStart c)) mod numOfPeriods c + cycle ob * numOfPeriods c"

definition timers :: "tmr_ctrl_t \<Rightarrow> countdown" where
  "timers c a = (case poolHandle c of None \<Rightarrow> None
     | Some p \<Rightarrow> if a \<in> allocated p
         then map_option (\<lambda>ob. (remaining c ob, fp ob, param1 ob)) (objs c a) else None)"

definition spec_tick :: "countdown \<Rightarrow> countdown" where
  "spec_tick m a = (case m a of None \<Rightarrow> None
     | Some (r, f, q) \<Rightarrow> if r = 0 then None else Some (r - 1, f, q))"

definition spec_calls :: "countdown \<Rightarrow> fire set" where
  "spec_calls m = {(f, q, a). m a = Some (0, f, q) \<and> f \<noteq> 0}"

text \<open>
  The side conditions of exactness.  \<open>timely\<close>: no timer is overdue (a \<open>cycle\<close> that was cut
  to 16 bits can be negative).  \<open>no_wrap c d\<close>: the 32-bit period counter does not wrap in
  the next \<open>d\<close> periods, or wraps where the wheel does.
\<close>

definition timely :: "tmr_ctrl_t \<Rightarrow> bool" where
  "timely c \<longleftrightarrow> (\<forall>a r f q. timers c a = Some (r, f, q) \<longrightarrow> 0 \<le> r)"

definition no_wrap :: "tmr_ctrl_t \<Rightarrow> int \<Rightarrow> bool" where
  "no_wrap c d \<longleftrightarrow> uint (periodsFromStart c) + d < 2 ^ 32 \<or> numOfPeriods c dvd 2 ^ 32"

subsection \<open>Arithmetic of the wheel\<close>

lemma mod_pred_int:
  fixes j P N :: int
  assumes "0 < N"
  shows "(j - (P + 1)) mod N = (if (j - P) mod N = 0 then N - 1 else (j - P) mod N - 1)"
proof -
  let ?d = "(j - P) mod N"
  have b: "0 \<le> ?d" "?d < N" using assms by simp_all
  have "(j - (P + 1)) mod N = (?d - 1) mod N"
    by (simp add: mod_diff_left_eq algebra_simps)
  also have "\<dots> = (if ?d = 0 then N - 1 else ?d - 1)"
  proof (cases "?d = 0")
    case True
    then show ?thesis using assms by (simp add: zmod_minus1)
  next
    case False
    then show ?thesis using b by simp
  qed
  finally show ?thesis .
qed

lemma uint_add_no_wrap:
  fixes P :: "32 word"
  assumes "uint P + d < 2 ^ 32 \<or> N dvd 2 ^ 32" and "0 \<le> d"
  shows "uint (word_of_int d + P) mod N = (d + uint P) mod N"
proof -
  have u: "uint (word_of_int d + P) = (d + uint P) mod 2 ^ 32"
    by (simp add: uint_word_ariths uint_word_of_int mod_add_left_eq)
  show ?thesis
  proof (cases "uint P + d < 2 ^ 32")
    case True
    then have "(d + uint P) mod 2 ^ 32 = d + uint P"
      using assms(2) by (intro mod_pos_pos_trivial) simp_all
    then show ?thesis by (simp only: u)
  next
    case False
    with assms(1) have "N dvd 2 ^ 32" by blast
    then show ?thesis unfolding u by (rule mod_mod_cancel)
  qed
qed

lemma uint_succ_no_wrap:
  fixes P :: "32 word"
  assumes "uint P + 1 < 2 ^ 32 \<or> N dvd 2 ^ 32"
  shows "(j - uint (P + 1)) mod N = (j - (uint P + 1)) mod N"
proof -
  have "uint (P + 1) mod N = (uint P + 1) mod N"
    using uint_add_no_wrap [of P 1 N] assms by (simp add: add.commute)
  then show ?thesis by (metis mod_diff_right_eq)
qed

lemma slot_of_period:
  fixes d P N :: int
  assumes "0 < N" and "0 \<le> d"
  shows "((d + P) mod N - P) mod N + d div N * N = d"
proof -
  have "((d + P) mod N - P) mod N = d mod N" by (simp add: mod_diff_left_eq)
  then show ?thesis by simp
qed

subsection \<open>Processing a slot\<close>

lemma timers_wheel:
  assumes "wheel X c p L"
  shows "timers c a = (if a \<in> allocated p
    then map_option (\<lambda>ob. (remaining c ob, fp ob, param1 ob)) (objs c a) else None)"
  using wheelD(1) [OF assms] by (simp add: timers_def)

lemma timers_wheel_Some:
  assumes "wheel X c p L"
  shows "timers c a = Some (r, f, q) \<longleftrightarrow>
    a \<in> allocated p \<and> (\<exists>ob. objs c a = Some ob \<and> r = remaining c ob \<and> f = fp ob \<and> q = param1 ob)"
  using timers_wheel [OF assms, of a] by auto

text \<open>Every allocated block is an armed timer.\<close>

lemma dom_timers:
  assumes "wheel X c p L"
  shows "dom (timers c) = allocated p"
proof -
  have "allocated p \<subseteq> dom (objs c)"
    using pool_invD(12) [OF wheelD(2) [OF assms]] allocated_subset [of p] by blast
  then show ?thesis using timers_wheel [OF assms] by (auto simp: dom_def split: if_splits)
qed

definition current_slot :: "tmr_ctrl_t \<Rightarrow> nat" where
  "current_slot c = nat (uint (periodsFromStart c) mod numOfPeriods c)"

lemma wheel_periodsFromStart: "wheel X (c\<lparr>periodsFromStart := v\<rparr>) p L = wheel X c p L"
  by (simp add: wheel_def)

lemma tmrProcessList_wheel:
  assumes w: "wheel {} c p L"
  defines "i \<equiv> current_slot c"
  shows "\<exists>c0 p'. tmrProcessList c
      = Inr (c0\<lparr>periodsFromStart := periodsFromStart c + 1\<rparr>,
             concat (map (fire_of (objs c)) (expired (objs c) (L i))))
    \<and> slot_processed i c p L c0 p'" and "i < nat (numOfPeriods c)"
proof -
  have N: "0 < numOfPeriods c" "int_ok (numOfPeriods c)" using wheelD [OF w] by simp_all
  then have i: "int i = uint (periodsFromStart c) mod numOfPeriods c" by (simp add: i_def current_slot_def)
  then have "int i < numOfPeriods c" using N by simp
  then show il: "i < nat (numOfPeriods c)" by simp
  from expire_loop_wheel [OF w il slot_length_fuel [OF w il]]
  obtain c0 p' where r: "expire_loop (loop_fuel c) (int i) c
      = Inr (c0, concat (map (fire_of (objs c)) (expired (objs c) (L i))))"
    "slot_processed i c p L c0 p'" by blast
  moreover have "periodsFromStart c0 = periodsFromStart c" using r(2) by (simp add: slot_processed_def)
  ultimately show "\<exists>c0 p'. tmrProcessList c
      = Inr (c0\<lparr>periodsFromStart := periodsFromStart c + 1\<rparr>,
             concat (map (fire_of (objs c)) (expired (objs c) (L i))))
    \<and> slot_processed i c p L c0 p'"
    using N by (auto simp: tmrProcessList_def c_simps i [symmetric])
qed

text \<open>The calls of a slot, one for each of its timers that is due.\<close>

lemma fires_mem:
  "(f, q, a) \<in> set (concat (map (fire_of h) xs)) \<longleftrightarrow>
     a \<in> set xs \<and> f \<noteq> 0 \<and> (\<exists>ob. h a = Some ob \<and> fp ob = f \<and> param1 ob = q)"
proof (induction xs)
  case (Cons x xs)
  have "(f, q, a) \<in> set (fire_of h x)
      \<longleftrightarrow> a = x \<and> f \<noteq> 0 \<and> (\<exists>ob. h a = Some ob \<and> fp ob = f \<and> param1 ob = q)"
    by (cases "h x") (auto simp: fire_of_def)
  with Cons.IH show ?case by auto
qed simp

lemma fires_distinct: "distinct xs \<Longrightarrow> distinct (map (\<lambda>(f, q, a). a) (concat (map (fire_of h) xs)))"
proof (induction xs)
  case (Cons x xs)
  define fs where "fs = concat (map (fire_of h) xs)"
  have "set (map (\<lambda>(f, q, a). a) fs) \<subseteq> set xs"
    unfolding fs_def using fires_mem [of _ _ _ h xs] by fastforce
  then have "x \<notin> set (map (\<lambda>(f, q, a). a) fs)" using Cons.prems by (metis distinct.simps(2) subsetD)
  moreover have "fire_of h x = [] \<or> (\<exists>f q. fire_of h x = [(f, q, x)])"
    by (simp add: fire_of_def split: option.splits)
  moreover have "distinct (map (\<lambda>(f, q, a). a) fs)"
    using Cons unfolding fs_def by simp
  moreover have "concat (map (fire_of h) (x # xs)) = fire_of h x @ fs" by (simp add: fs_def)
  ultimately show ?case by (elim disjE exE) simp_all
qed simp

lemma slot_position:
  assumes w: "wheel {} c p L" and N: "0 < numOfPeriods c" and j: "j < nat (numOfPeriods c)"
  shows "(int j - uint (periodsFromStart c)) mod numOfPeriods c = 0 \<longleftrightarrow> j = current_slot c"
proof -
  let ?N = "numOfPeriods c" and ?P = "uint (periodsFromStart c)"
  have "(int j - ?P) mod ?N = 0 \<longleftrightarrow> int j mod ?N = ?P mod ?N"
    by (simp add: mod_eq_dvd_iff mod_eq_0_iff_dvd)
  also have "int j mod ?N = int j" using j N by simp
  also have "int j = ?P mod ?N \<longleftrightarrow> j = current_slot c"
    using N by (simp add: current_slot_def) (metis nat_int int_nat_eq pos_mod_sign)
  finally show ?thesis .
qed

text \<open>One period seen from one timer that is not overdue.\<close>

text \<open>
  Where a timer that is not overdue is, and when it is among those that a pass of the current
  slot calls.
\<close>

definition placed :: "tmr_ctrl_t \<Rightarrow> (nat \<Rightarrow> addr list) \<Rightarrow> addr \<Rightarrow> int \<Rightarrow> tmr_obj_t \<Rightarrow> nat \<Rightarrow> bool" where
  "placed c L a r ob j \<longleftrightarrow> objs c a = Some ob \<and> j < nat (numOfPeriods c) \<and> a \<in> set (L j) \<and> index ob = int j
     \<and> 0 \<le> cycle ob \<and> r = (int j - uint (periodsFromStart c)) mod numOfPeriods c + cycle ob * numOfPeriods c"

lemma placedD:
  assumes "placed c L a r ob j"
  shows "objs c a = Some ob" "j < nat (numOfPeriods c)" "a \<in> set (L j)" "index ob = int j" "0 \<le> cycle ob"
    "r = (int j - uint (periodsFromStart c)) mod numOfPeriods c + cycle ob * numOfPeriods c"
  using assms unfolding placed_def by blast+

lemma timer_placed:
  assumes w: "wheel {} c p L" and t: "timers c a = Some (r, f, q)" and r: "0 \<le> r"
  obtains ob j where "placed c L a r ob j" "a \<in> allocated p" "f = fp ob" "q = param1 ob"
proof -
  let ?N = "numOfPeriods c" and ?P = "uint (periodsFromStart c)"
  have N: "0 < ?N" by (rule wheelD(3) [OF w])
  from t obtain ob where ob: "a \<in> allocated p" "objs c a = Some ob" "r = remaining c ob"
    "f = fp ob" "q = param1 ob" by (auto simp: timers_wheel_Some [OF w])
  from wheel_member [OF w ob(1)] obtain j where j: "j < nat ?N" "a \<in> set (L j)" by blast
  from wheel_slot_index [OF w j] ob(2) have idx: "index ob = int j" by auto
  have rem: "r = (int j - ?P) mod ?N + cycle ob * ?N" by (simp add: ob(3) remaining_def idx)
  have "0 \<le> cycle ob"
  proof (rule ccontr)
    assume "\<not> 0 \<le> cycle ob"
    then have "(cycle ob + 1) * ?N \<le> 0" using N by (simp add: mult_le_0_iff)
    moreover have "(int j - ?P) mod ?N < ?N" using N by simp
    ultimately show False using rem r by (simp add: distrib_right)
  qed
  then show ?thesis using that [of ob j] ob j idx rem by (simp add: placed_def)
qed

lemma placed_due:
  assumes w: "wheel {} c p L" and a: "placed c L a r ob j"
  defines "i \<equiv> current_slot c"
  shows "a \<in> set (expired (objs c) (L i)) \<longleftrightarrow> r = 0" and "r = 0 \<longleftrightarrow> j = i \<and> cycle ob = 0"
proof -
  let ?N = "numOfPeriods c" and ?P = "uint (periodsFromStart c)"
  note a' = placedD [OF a]
  have N: "0 < ?N" by (rule wheelD(3) [OF w])
  have i: "i < nat ?N" using N by (simp add: i_def current_slot_def)
  have pos: "(int j - ?P) mod ?N = 0 \<longleftrightarrow> j = i" unfolding i_def by (rule slot_position [OF w N a'(2)])
  have "0 \<le> (int j - ?P) mod ?N" "0 \<le> cycle ob * ?N" using N a'(5) by simp_all
  then have "r = 0 \<longleftrightarrow> (int j - ?P) mod ?N = 0 \<and> cycle ob * ?N = 0" unfolding a'(6) by linarith
  then show due: "r = 0 \<longleftrightarrow> j = i \<and> cycle ob = 0" using pos N by simp
  have "a \<in> set (L i) \<longleftrightarrow> j = i" using wheel_slots_disjoint [OF w a'(2) i a'(3)] a'(3) by auto
  moreover have "a \<in> set (expired (objs c) (L i)) \<longleftrightarrow> a \<in> set (L i) \<and> cyc (objs c) a \<le> 0"
    using expired_filter [OF slot_okD(6) [OF wheelD(8) [OF w i]]] by simp
  moreover have "cyc (objs c) a \<le> 0 \<longleftrightarrow> cycle ob = 0" using a'(1,5) by (auto simp: cyc_def)
  ultimately show "a \<in> set (expired (objs c) (L i)) \<longleftrightarrow> r = 0" unfolding due by blast
qed

text \<open>What is left of a timer's periods when the counter advances.\<close>

lemma placed_next:
  assumes w: "wheel {} c p L" and nw: "no_wrap c 1" and a: "placed c L a r ob j"
    and ob': "index ob' = index ob" "cycle ob' = (if j = current_slot c then cycle ob - 1 else cycle ob)"
    and c': "numOfPeriods c' = numOfPeriods c" "periodsFromStart c' = periodsFromStart c + 1"
  shows "remaining c' ob' = r - 1"
proof -
  let ?N = "numOfPeriods c" and ?P = "uint (periodsFromStart c)"
  note a' = placedD [OF a]
  have N: "0 < ?N" by (rule wheelD(3) [OF w])
  have pos: "(int j - ?P) mod ?N = 0 \<longleftrightarrow> j = current_slot c" by (rule slot_position [OF w N a'(2)])
  have "(int j - uint (periodsFromStart c + 1)) mod ?N
      = (if j = current_slot c then ?N - 1 else (int j - ?P) mod ?N - 1)"
    using uint_succ_no_wrap [of "periodsFromStart c" ?N "int j"] nw mod_pred_int [OF N, of "int j" ?P] pos
    by (simp add: no_wrap_def)
  moreover have "index ob' = int j" using a'(4) ob'(1) by simp
  ultimately show ?thesis
    unfolding a'(6) remaining_def c' ob'(2) using pos by (cases "j = current_slot c") (simp_all add: left_diff_distrib)
qed

lemma tick_timer:
  assumes w: "wheel {} c p L" and nw: "no_wrap c 1"
    and run: "tmrProcessList c = Inr (c', evs)"
    and t: "timers c a = Some (r, f, q)" and r: "0 \<le> r"
  shows "timers c' a = (if r = 0 then None else Some (r - 1, f, q))"
    and "(f', q', a) \<in> set evs \<longleftrightarrow> r = 0 \<and> f \<noteq> 0 \<and> f' = f \<and> q' = q"
proof -
  let ?i = "current_slot c"
  from tmrProcessList_wheel [OF w] run obtain c0 p' where
    c': "c' = c0\<lparr>periodsFromStart := periodsFromStart c + 1\<rparr>"
    and evs: "evs = concat (map (fire_of (objs c)) (expired (objs c) (L ?i)))"
    and sp: "slot_processed ?i c p L c0 p'" and i: "?i < nat (numOfPeriods c)" by auto
  note sp' = sp [unfolded slot_processed_def]
  have w': "wheel {} c' p' (L(?i := waiting (objs c) (L ?i)))"
    using sp' by (simp add: c' wheel_periodsFromStart)
  have cfg: "numOfPeriods c' = numOfPeriods c" "periodsFromStart c' = periodsFromStart c + 1"
    using sp' by (simp_all add: c' same_config_def)
  from timer_placed [OF w t r] obtain ob j where pl: "placed c L a r ob j" and
    ob: "a \<in> allocated p" "f = fp ob" "q = param1 ob" by blast
  note pl' = placedD [OF pl] and ex = placed_due(1) [OF w pl] and left = placed_next [OF w nw pl _ _ cfg]
  show "(f', q', a) \<in> set evs \<longleftrightarrow> r = 0 \<and> f \<noteq> 0 \<and> f' = f \<and> q' = q"
    unfolding evs fires_mem ex using ob pl'(1) by auto
  have al: "a \<in> allocated p' \<longleftrightarrow> r \<noteq> 0" using sp' ob(1) ex by auto
  show "timers c' a = (if r = 0 then None else Some (r - 1, f, q))"
  proof (cases "r = 0")
    case True
    then show ?thesis using timers_wheel [OF w', of a] al by simp
  next
    case False
    have "\<exists>ob'. objs c0 a = Some ob' \<and> fp ob' = f \<and> param1 ob' = q \<and> remaining c' ob' = r - 1"
    proof (cases "j = ?i")
      case True
      then have "a \<in> set (waiting (objs c) (L ?i))"
        using False ex pl'(3) expired_waiting [of "objs c" "L ?i"] by (metis Un_iff set_append)
      then have "map_option core (objs c0 a)
          = map_option (\<lambda>ob. core (ob\<lparr>cycle := cycle ob - 1\<rparr>)) (objs c a)" using sp' by blast
      then obtain ob' where ob': "objs c0 a = Some ob'" "core ob' = core (ob\<lparr>cycle := cycle ob - 1\<rparr>)"
        using pl'(1) by auto
      from core_eqD [OF ob'(2)] show ?thesis using left [of ob'] ob ob'(1) True by simp
    next
      case other: False
      then have "a \<notin> set (L ?i)" using wheel_slots_disjoint [OF w pl'(2) i pl'(3)] by auto
      then have "objs c0 a = Some ob" using sp' pl'(1) by auto
      then show ?thesis using left [of ob] other ob by simp
    qed
    then show ?thesis using timers_wheel [OF w', of a] al False by (auto simp: c')
  qed
qed

text \<open>The period as a whole: no undefined behaviour, and nothing appears from nowhere.\<close>

definition pool_blocks :: "tmr_ctrl_t \<Rightarrow> addr set" where
  "pool_blocks c = (case poolHandle c of None \<Rightarrow> {} | Some p \<Rightarrow> block_addrs p)"

definition capacity :: "tmr_ctrl_t \<Rightarrow> nat" where
  "capacity c = card (pool_blocks c)"

text \<open>
  The handles a client may pass: \<open>NULL\<close>, or a block of the pool that is armed or does not
  look so.  (A block that was never handed out has arbitrary contents.)
\<close>

definition valid_handle :: "tmr_ctrl_t \<Rightarrow> addr \<Rightarrow> bool" where
  "valid_handle c t \<longleftrightarrow> t = 0 \<or> t \<in> pool_blocks c \<and>
     (t \<in> dom (timers c) \<or> (\<exists>ob. objs c t = Some ob \<and> timerId ob \<noteq> t))"

lemma pool_blocks_wheel: "wheel X c p L \<Longrightarrow> pool_blocks c = block_addrs p"
  by (simp add: pool_blocks_def wheelD(1))

text \<open>What the pass of a slot leaves of the armed timers, the handles and the blocks.\<close>

lemma passed_slot:
  assumes w: "wheel {} c p L" and sp: "slot_processed (current_slot c) c p L c0 p'"
    and i: "current_slot c < nat (numOfPeriods c)"
  defines "c' \<equiv> c0\<lparr>periodsFromStart := periodsFromStart c + 1\<rparr>" and "xs \<equiv> expired (objs c) (L (current_slot c))"
  shows "ctrl_inv c'" and "pool_blocks c' = pool_blocks c" and "dom (timers c') = dom (timers c) - set xs"
    and "set xs \<subseteq> dom (timers c)" and "valid_handle c t \<Longrightarrow> valid_handle c' t"
proof -
  note sp' = sp [unfolded slot_processed_def]
  let ?i = "current_slot c"
  have w': "wheel {} c' p' (L(?i := waiting (objs c) (L ?i)))"
    using sp' by (simp add: c'_def wheel_periodsFromStart)
  then show "ctrl_inv c'" by (auto simp: ctrl_inv_def)
  have slot: "set (L ?i) \<subseteq> allocated p" using wheelD(9) [OF w] i by blast
  have al: "allocated p' = allocated p - set xs" using sp' by (simp add: xs_def)
  then show doms: "dom (timers c') = dom (timers c) - set xs" using dom_timers [OF w] dom_timers [OF w'] by simp
  have "set xs \<subseteq> set (L ?i)" by (auto simp: xs_def expired_def dest: set_takeWhileD)
  then show "set xs \<subseteq> dom (timers c)" using slot dom_timers [OF w] by blast
  show blocks: "pool_blocks c' = pool_blocks c"
    using sp' pool_blocks_wheel [OF w] pool_blocks_wheel [OF w'] by (simp add: block_addrs_geometry)
  assume v: "valid_handle c t"
  show "valid_handle c' t"
  proof (cases "t \<in> dom (timers c)")
    case True
    show ?thesis
    proof (cases "t \<in> set xs")
      case True
      then have "objs c' t = Some zero_obj" using sp' by (simp add: c'_def xs_def)
      with v show ?thesis by (auto simp: valid_handle_def blocks zero_obj_def)
    next
      case False
      with True doms have "t \<in> dom (timers c')" by blast
      with v show ?thesis by (auto simp: valid_handle_def blocks)
    qed
  next
    case False
    then have "t \<notin> set (L ?i)" using slot dom_timers [OF w] by blast
    then have "objs c' t = objs c t" using sp' by (simp add: c'_def)
    with v False show ?thesis by (auto simp: valid_handle_def blocks)
  qed
qed

lemma ctrl_inv_step:
  assumes "ctrl_inv c"
  shows "\<exists>c' evs. tmrProcessList c = Inr (c', evs) \<and> ctrl_inv c' \<and> same_config c c'
    \<and> periodsFromStart c' = periodsFromStart c + 1 \<and> pool_blocks c' = pool_blocks c
    \<and> (\<forall>a. timers c a = None \<longrightarrow> timers c' a = None)
    \<and> (\<forall>f q a. (f, q, a) \<in> set evs \<longrightarrow> (\<exists>r. timers c a = Some (r, f, q) \<and> timers c' a = None))
    \<and> distinct (map (\<lambda>(f, q, a). a) evs)
    \<and> (\<forall>t. valid_handle c t \<longrightarrow> valid_handle c' t)"
proof -
  from assms obtain p L where w: "wheel {} c p L" by (auto simp: ctrl_inv_def)
  let ?i = "current_slot c"
  let ?xs = "expired (objs c) (L ?i)"
  from tmrProcessList_wheel [OF w] obtain c0 p' where
    run: "tmrProcessList c = Inr (c0\<lparr>periodsFromStart := periodsFromStart c + 1\<rparr>,
             concat (map (fire_of (objs c)) ?xs))" (is "_ = Inr (?c', ?evs)")
    and sp: "slot_processed ?i c p L c0 p'" and i: "?i < nat (numOfPeriods c)" by blast
  note passed = passed_slot [OF w sp i]
  have none: "timers ?c' a = None" if "timers c a = None \<or> a \<in> set ?xs" for a
  proof -
    have "a \<notin> dom (timers ?c')" using that passed(3) by blast
    then show ?thesis by (simp only: domIff not_not)
  qed
  have fired: "\<exists>r. timers c a = Some (r, f, q) \<and> timers ?c' a = None" if "(f, q, a) \<in> set ?evs" for f q a
  proof -
    from that obtain ob where a: "a \<in> set ?xs" "objs c a = Some ob" "fp ob = f" "param1 ob = q"
      by (auto simp only: fires_mem)
    then have "a \<in> allocated p" using passed(4) dom_timers [OF w] by blast
    with a none [of a] timers_wheel [OF w, of a] show ?thesis by simp
  qed
  have "distinct ?xs" using slot_okD(4) [OF wheelD(8) [OF w i]] by (simp add: expired_def)
  then have dist: "distinct (map (\<lambda>(f, q, a). a) ?evs)" by (rule fires_distinct)
  have cfg: "same_config c ?c'" "periodsFromStart ?c' = periodsFromStart c + 1"
    using sp by (simp_all add: slot_processed_def same_config_def)
  have all: "\<forall>a. timers c a = None \<longrightarrow> timers ?c' a = None"
    "\<forall>f q a. (f, q, a) \<in> set ?evs \<longrightarrow> (\<exists>r. timers c a = Some (r, f, q) \<and> timers ?c' a = None)"
    "\<forall>t. valid_handle c t \<longrightarrow> valid_handle ?c' t"
    using none fired passed(5) by blast+
  show ?thesis
    by (rule exI [of _ ?c'], rule exI [of _ ?evs], intro conjI run passed(1,2) dist cfg all)
qed

lemma no_wrap_le: "no_wrap c d \<Longrightarrow> d' \<le> d \<Longrightarrow> no_wrap c d'"
  by (auto simp: no_wrap_def)

lemma no_wrap_step:
  assumes "no_wrap c (d + 1)" and "periodsFromStart c' = periodsFromStart c + 1"
    and "numOfPeriods c' = numOfPeriods c" and "0 \<le> d"
  shows "no_wrap c' d"
proof (cases "uint (periodsFromStart c) + (d + 1) < 2 ^ 32")
  case True
  then have "uint (periodsFromStart c + 1) = uint (periodsFromStart c) + 1"
    using assms(4) by (simp add: uint_word_ariths)
  with True show ?thesis by (simp add: no_wrap_def assms(2))
qed (use assms in \<open>simp add: no_wrap_def\<close>)

end
