(* ===== verification/TimerArm.thy ===== *)
theory TimerArm
  imports TimerSpec
begin

section \<open>Arming a timer implements the countdown specification\<close>

text \<open>
  \<open>tmrReset\<close> in its two phases: \<open>reset_pObj\<close> ends with one object outside the lists
  (\<open>wheel {x}\<close>), \<open>arm_obj\<close> puts it into the slot of its period.  The other timers keep
  their numbers; the armed one gets the period asked for, if that fits the \<open>cycle\<close> field and
  the period counter does not wrap.
\<close>

lemma armed_timerId: "wheel {} c p L \<Longrightarrow> a \<in> allocated p \<Longrightarrow> \<exists>ob. objs c a = Some ob \<and> timerId ob = a"
  by (meson empty_iff wheel_member wheel_slot_index)

text \<open>The timers that are in the lists, seen through an object outside them.\<close>

lemma timers_same_cores:
  assumes w: "wheel X c p L" and w': "wheel Y c' p' L'"
    and cores: "same_cores {x} (objs c) (objs c')" and cfg: "same_config c c'"
    and P: "periodsFromStart c' = periodsFromStart c"
    and al: "allocated p' - {x} = allocated p - {x}" and a: "a \<noteq> x"
  shows "timers c' a = timers c a"
proof -
  have co: "map_option core (objs c' a) = map_option core (objs c a)"
    using cores a by (simp add: same_cores_def)
  have eq: "(remaining c' ob', fp ob', param1 ob') = (remaining c ob, fp ob, param1 ob)"
    if "core ob' = core ob" for ob ob'
    using core_eqD [OF that] cfg P by (simp add: remaining_def same_config_def)
  have "map_option (\<lambda>ob. (remaining c' ob, fp ob, param1 ob)) (objs c' a)
      = map_option (\<lambda>ob. (remaining c ob, fp ob, param1 ob)) (objs c a)"
  proof (cases "objs c a")
    case (Some ob)
    with co obtain ob' where "objs c' a = Some ob'" "core ob' = core ob" by auto
    with Some eq [OF this(2)] show ?thesis by simp
  qed (use co in simp)
  moreover have "a \<in> allocated p' \<longleftrightarrow> a \<in> allocated p" using al a by blast
  ultimately show ?thesis by (simp add: timers_wheel [OF w] timers_wheel [OF w'])
qed

lemma reset_pObj_armed:
  assumes w: "wheel {} c p L" and t: "t \<in> allocated p"
  shows "\<exists>c1 L1. reset_pObj c t = Inr (c1, t) \<and> wheel {t} c1 p L1
    \<and> same_cores {t} (objs c) (objs c1) \<and> same_config c c1
    \<and> periodsFromStart c1 = periodsFromStart c"
proof -
  from armed_timerId [OF w t] obtain ob where ob: "objs c t = Some ob" "timerId ob = t" by blast
  have "t \<noteq> 0" using t allocated_subset [of p] block_addrs_nonzero [OF wheelD(2) [OF w]] by blast
  moreover from wheel_member [OF w t] obtain i where "i < nat (numOfPeriods c)" "t \<in> set (L i)" by blast
  from unlink_obj_wheel [OF w this] obtain c1 where "unlink_obj c t = Inr c1"
    "wheel {t} c1 p (L(i := remove1 t (L i)))" "same_cores {t} (objs c) (objs c1)"
    "same_config c c1" "periodsFromStart c1 = periodsFromStart c" by blast
  ultimately show ?thesis using ob by (auto simp: reset_pObj_def c_simps)
qed

lemma reset_pObj_fresh:
  assumes w: "wheel {} c p L" and t: "t \<notin> allocated p"
    and v: "t = 0 \<or> (\<exists>ob. objs c t = Some ob \<and> timerId ob \<noteq> t)" and free: "0 < numOfFree p"
  defines "x \<equiv> hd (free_addrs p)"
  shows "\<exists>c1. reset_pObj c t = Inr (c1, x) \<and> wheel {x} c1 (pool_take p) L
    \<and> same_cores {x} (objs c) (objs c1) \<and> same_config c c1
    \<and> periodsFromStart c1 = periodsFromStart c"
proof -
  note m = malloc_wheel [OF w free, folded x_def]
  have "(if t = 0 then Inr False else bindE (deref (objs c) t) (\<lambda>ob. Inr (timerId ob = t))) = Inr False"
    using v by (auto simp: c_simps block_addrs_nonzero)
  with m show ?thesis
    by (auto simp: reset_pObj_def same_cores_def same_config_def intro: exI)
qed

lemma reset_pObj_full:
  assumes w: "wheel {} c p L" and t: "t \<notin> allocated p"
    and v: "t = 0 \<or> (\<exists>ob. objs c t = Some ob \<and> timerId ob \<noteq> t)" and full: "numOfFree p = 0"
  shows "reset_pObj c t = Inr (c, 0)"
proof -
  have "(if t = 0 then Inr False else bindE (deref (objs c) t) (\<lambda>ob. Inr (timerId ob = t))) = Inr False"
    using v by (auto simp: c_simps)
  then show ?thesis
    using memPoolMalloc_full [of p zero_obj "objs c"] full wheelD(1) [OF w] by (simp add: reset_pObj_def)
qed

text \<open>The slot index that a period leads to.\<close>

definition slot_index :: "tmr_ctrl_t \<Rightarrow> int \<Rightarrow> int" where
  "slot_index c period = uint (word_of_int period + periodsFromStart c) mod numOfPeriods c"

lemma arm_obj_wheel:
  assumes w: "wheel {x} c p L" and x: "objs c x = Some ob" "x \<noteq> 0" and period: "int_ok period"
  shows "\<exists>c' L'. arm_obj cb param handle period x c = Inr c' \<and> wheel {} c' p L'
    \<and> same_cores {x} (objs c) (objs c') \<and> same_config c c'
    \<and> periodsFromStart c' = periodsFromStart c
    \<and> (\<exists>ob'. objs c' x = Some ob' \<and> cycle ob' = to_i16 (period sdiv numOfPeriods c)
          \<and> index ob' = slot_index c period \<and> fp ob' = cb \<and> param1 ob' = param
          \<and> timerId ob' = x \<and> pCtrl ob' = handle)"
proof -
  let ?N = "numOfPeriods c"
  define ob1 where "ob1 = ob\<lparr>cycle := to_i16 (period sdiv ?N), param1 := param, fp := cb,
              timerId := x, pCtrl := handle\<rparr>"
  define c1 where "c1 = c\<lparr>objs := (objs c)(x \<mapsto> ob1)\<rparr>"
  have N: "0 < ?N" "int_ok ?N" using wheelD [OF w] by simp_all
  have w1: "wheel {x} c1 p L" unfolding c1_def by (rule detached_wheel [OF w]) simp
  define i where "i = nat (slot_index c period)"
  have "0 \<le> slot_index c period" "slot_index c period < ?N" using N by (simp_all add: slot_index_def)
  then have i: "i < nat (numOfPeriods c1)" "int i = slot_index c period" by (simp_all add: i_def c1_def)
  have ob1: "objs c1 x = Some ob1" "timerId ob1 = x" "- 32768 \<le> cycle ob1" "cycle ob1 < 32768"
    using to_i16_range by (simp_all add: c1_def ob1_def)
  from link_obj_wheel [OF w1 i(1) ob1] obtain c' where c': "link_obj c1 x (int i) = Inr c'"
    "wheel {} c' p (L(i := place (objs c1) (L i) x (cycle ob1)))"
    "same_cores {x} (objs c1) (objs c')"
    "map_option core (objs c' x) = Some (core (ob1\<lparr>index := int i\<rparr>))"
    "same_config c1 c'" "periodsFromStart c' = periodsFromStart c1" by blast
  have run: "arm_obj cb param handle period x c = Inr c'"
    using x N c'(1) c_div_ok(1) [OF N(1) period]
    by (simp add: arm_obj_def c_simps i(2) slot_index_def ob1_def [symmetric] c1_def)
  from c'(4) obtain ob' where ob': "objs c' x = Some ob'" "core ob' = core (ob1\<lparr>index := int i\<rparr>)" by auto
  from core_eqD [OF ob'(2)] have "cycle ob' = to_i16 (period sdiv numOfPeriods c)
      \<and> index ob' = slot_index c period \<and> fp ob' = cb \<and> param1 ob' = param
      \<and> timerId ob' = x \<and> pCtrl ob' = handle" by (simp add: ob1_def i(2))
  moreover have "same_cores {x} (objs c) (objs c')"
    using c'(3) by (simp add: same_cores_def c1_def)
  moreover have "same_config c c'" "periodsFromStart c' = periodsFromStart c"
    using c'(5,6) by (simp_all add: same_config_def c1_def)
  ultimately show ?thesis using run c'(2) ob'(1) by blast
qed

text \<open>The number an armed timer starts from.\<close>

definition start_count :: "tmr_ctrl_t \<Rightarrow> int \<Rightarrow> int" where
  "start_count c period = (slot_index c period - uint (periodsFromStart c)) mod numOfPeriods c
     + to_i16 (period sdiv numOfPeriods c) * numOfPeriods c"

lemma start_count_exact:
  assumes "0 < numOfPeriods c" and "0 \<le> period" and "period div numOfPeriods c < 32768"
    and "no_wrap c period"
  shows "start_count c period = period"
proof -
  let ?N = "numOfPeriods c" and ?P = "uint (periodsFromStart c)"
  have "slot_index c period = (period + ?P) mod ?N"
    using uint_add_no_wrap [of "periodsFromStart c" period ?N] assms
    by (simp add: slot_index_def no_wrap_def)
  moreover have "to_i16 (period sdiv ?N) = period div ?N"
    using assms by (simp add: sdiv_nonneg to_i16_id pos_imp_zdiv_nonneg_iff order_trans [of _ 0])
  ultimately show ?thesis
    using slot_of_period [OF assms(1,2), of ?P] by (simp add: start_count_def)
qed

text \<open>Which object a reset arms, and that the others stay usable.\<close>

definition chosen :: "tmr_ctrl_t \<Rightarrow> addr \<Rightarrow> addr \<Rightarrow> bool" where
  "chosen c t a \<longleftrightarrow>
     (if t \<in> dom (timers c) then a = t
      else if card (dom (timers c)) < capacity c
           then a \<noteq> 0 \<and> a \<in> pool_blocks c - dom (timers c)
           else a = 0)"

lemma valid_handle_arm:
  assumes w: "wheel {} c p L" and w': "wheel {} c' p' L'"
    and x: "x \<in> allocated p'" and al: "allocated p' = insert x (allocated p)"
    and blocks: "block_addrs p' = block_addrs p"
    and cores: "same_cores {x} (objs c) (objs c')" and v: "valid_handle c t"
  shows "valid_handle c' t"
proof (cases "t \<in> insert x (allocated p)")
  case True
  then show ?thesis
    using allocated_subset [of p'] al pool_blocks_wheel [OF w'] dom_timers [OF w']
    by (auto simp: valid_handle_def)
next
  case False
  then have "map_option core (objs c' t) = map_option core (objs c t)"
    using cores by (simp add: same_cores_def)
  with v False show ?thesis
    by (auto simp: valid_handle_def pool_blocks_wheel [OF w] pool_blocks_wheel [OF w'] blocks
        dom_timers [OF w] map_option_case dest: core_eqD(3) split: option.splits)
qed

lemma capacity_wheel:
  assumes w: "wheel {} c p L"
  shows "card (dom (timers c)) < capacity c \<longleftrightarrow> 0 < numOfFree p"
    and "0 \<le> numOfFree p"
  using card_allocated [OF wheelD(2) [OF w]] card_block_addrs [OF wheelD(2) [OF w]]
    pool_invD(7,8) [OF wheelD(2) [OF w]] pool_invD(1) [OF wheelD(2) [OF w]]
  by (auto simp: dom_timers [OF w] capacity_def pool_blocks_wheel [OF w])

text \<open>The second phase, whatever the first one chose.\<close>

lemma arm_step:
  assumes w: "wheel {} c p L" and w1: "wheel {x} c1 p1 L1"
    and c1: "same_cores {x} (objs c) (objs c1)" "same_config c c1"
      "periodsFromStart c1 = periodsFromStart c"
    and al: "allocated p1 = insert x (allocated p)" and blocks: "block_addrs p1 = block_addrs p"
    and period: "int_ok period"
  shows "\<exists>c'. arm_obj cb param handle period x c1 = Inr c' \<and> ctrl_inv c' \<and> same_config c c'
    \<and> periodsFromStart c' = periodsFromStart c \<and> pool_blocks c' = pool_blocks c
    \<and> timers c' = (timers c)(x \<mapsto> (start_count c period, cb, param))
    \<and> (\<forall>t. t = x \<or> valid_handle c t \<longrightarrow> valid_handle c' t)"
proof -
  have xa: "x \<in> allocated p1" using al by simp
  then have "x \<in> dom (objs c1)"
    using pool_invD(12) [OF wheelD(2) [OF w1]] allocated_subset [of p1] by blast
  then obtain ob where x: "objs c1 x = Some ob" by blast
  have "x \<noteq> 0" using xa allocated_subset [of p1] block_addrs_nonzero [OF wheelD(2) [OF w1]] by blast
  from arm_obj_wheel [OF w1 x this period, of cb param handle] obtain c' L' ob' where r:
    "arm_obj cb param handle period x c1 = Inr c'" and w': "wheel {} c' p1 L'"
    and c': "same_cores {x} (objs c1) (objs c')" "same_config c1 c'"
      "periodsFromStart c' = periodsFromStart c1"
    and ob': "objs c' x = Some ob'" "cycle ob' = to_i16 (period sdiv numOfPeriods c1)"
      "index ob' = slot_index c1 period" "fp ob' = cb" "param1 ob' = param" by blast
  have cores: "same_cores {x} (objs c) (objs c')" using c1(1) c'(1) by (rule same_cores_trans)
  have cfg: "same_config c c'" using c1(2) c'(2) by (rule same_config_trans)
  have P: "periodsFromStart c' = periodsFromStart c" using c1(3) c'(3) by simp
  have "timers c' a = ((timers c)(x \<mapsto> (start_count c period, cb, param))) a" for a
  proof (cases "a = x")
    case True
    have "remaining c' ob' = start_count c period"
      using ob'(2,3) c1(2,3) c'(3) cfg
      by (simp add: remaining_def start_count_def slot_index_def same_config_def)
    with True xa ob' show ?thesis by (simp add: timers_wheel [OF w'])
  next
    case False
    with timers_same_cores [OF w w' cores cfg P _ False] al show ?thesis by simp
  qed
  then have t: "timers c' = (timers c)(x \<mapsto> (start_count c period, cb, param))" by (rule ext)
  have pb: "pool_blocks c' = pool_blocks c"
    using blocks by (simp add: pool_blocks_wheel [OF w] pool_blocks_wheel [OF w'])
  have "valid_handle c' x"
    using xa allocated_subset [of p1] by (auto simp: valid_handle_def t pool_blocks_wheel [OF w'])
  moreover have "valid_handle c' t" if "valid_handle c t" for t
    by (rule valid_handle_arm [OF w w' xa al blocks cores that])
  ultimately show ?thesis using r w' cfg P t pb by (auto simp: ctrl_inv_def)
qed

text \<open>The three cases: the handle is armed, a fresh block is taken, or the pool is used up.\<close>

definition reset_done :: "tmr_ctrl_t \<Rightarrow> addr \<Rightarrow> int \<Rightarrow> addr \<Rightarrow> addr \<Rightarrow> tmr_ctrl_t \<Rightarrow> addr \<Rightarrow> bool" where
  "reset_done c cb d param t c' a \<longleftrightarrow> chosen c t a
    \<and> ctrl_inv c' \<and> same_config c c' \<and> periodsFromStart c' = periodsFromStart c
    \<and> pool_blocks c' = pool_blocks c
    \<and> (if a = 0 then c' = c else timers c' = (timers c)(a \<mapsto> (start_count c d, cb, param)))
    \<and> (\<forall>t'. t' = a \<or> valid_handle c t' \<longrightarrow> valid_handle c' t')"

lemma reset_armed:
  assumes w: "wheel {} c p L" and t: "t \<in> allocated p" and h: "handle \<noteq> 0"
    and d: "c_div ms (resolution c) = Inr d" "int_ok d"
  shows "\<exists>c' a. tmrReset cb ms param handle (Some t) c = Inr (c', Some a) \<and> reset_done c cb d param t c' a"
proof -
  from reset_pObj_armed [OF w t] obtain c1 L1 where c1: "reset_pObj c t = Inr (c1, t)"
    "wheel {t} c1 p L1" "same_cores {t} (objs c) (objs c1)" "same_config c c1"
    "periodsFromStart c1 = periodsFromStart c" by blast
  have "allocated p = insert t (allocated p)" using t by blast
  from arm_step [OF w c1(2-5) this refl d(2), of cb param handle] obtain c' where c':
    "arm_obj cb param handle d t c1 = Inr c'" "ctrl_inv c'" "same_config c c'"
    "periodsFromStart c' = periodsFromStart c" "pool_blocks c' = pool_blocks c"
    "timers c' = (timers c)(t \<mapsto> (start_count c d, cb, param))"
    "\<forall>t'. t' = t \<or> valid_handle c t' \<longrightarrow> valid_handle c' t'" by blast
  have t0: "t \<noteq> 0" using t allocated_subset [of p] block_addrs_nonzero [OF wheelD(2) [OF w]] by blast
  have "chosen c t t" using t by (simp add: chosen_def dom_timers [OF w])
  with c' c1(1) d(1) h t0 show ?thesis
    by (intro exI [of _ c'] exI [of _ t]) (simp add: tmrReset_def reset_done_def)
qed

lemma reset_fresh:
  assumes w: "wheel {} c p L" and t: "t \<notin> allocated p" and h: "handle \<noteq> 0"
    and v: "t = 0 \<or> (\<exists>ob. objs c t = Some ob \<and> timerId ob \<noteq> t)" and room: "0 < numOfFree p"
    and d: "c_div ms (resolution c) = Inr d" "int_ok d"
  shows "\<exists>c' a. tmrReset cb ms param handle (Some t) c = Inr (c', Some a) \<and> reset_done c cb d param t c' a"
proof -
  define x where "x = hd (free_addrs p)"
  from reset_pObj_fresh [OF w t v room, folded x_def] obtain c1 where c1:
    "reset_pObj c t = Inr (c1, x)" "wheel {x} c1 (pool_take p) L"
    "same_cores {x} (objs c) (objs c1)" "same_config c c1"
    "periodsFromStart c1 = periodsFromStart c" by blast
  have al: "allocated (pool_take p) = insert x (allocated p)" and x: "x \<notin> allocated p" "x \<noteq> 0"
    using malloc_wheel(3-5) [OF w room] by (simp_all add: x_def)
  have bl: "block_addrs (pool_take p) = block_addrs p"
    by (rule block_addrs_geometry) simp
  from arm_step [OF w c1(2-5) al bl d(2), of cb param handle] obtain c' where c':
    "arm_obj cb param handle d x c1 = Inr c'" "ctrl_inv c'" "same_config c c'"
    "periodsFromStart c' = periodsFromStart c" "pool_blocks c' = pool_blocks c"
    "timers c' = (timers c)(x \<mapsto> (start_count c d, cb, param))"
    "\<forall>t'. t' = x \<or> valid_handle c t' \<longrightarrow> valid_handle c' t'" by blast
  have "x \<in> pool_blocks c - dom (timers c)"
    using al allocated_subset [of "pool_take p"] bl x(1)
    by (auto simp: pool_blocks_wheel [OF w] dom_timers [OF w])
  then have "chosen c t x" using t room x(2) capacity_wheel [OF w] by (auto simp: chosen_def dom_timers [OF w])
  with c' c1(1) d(1) h x(2) show ?thesis
    by (intro exI [of _ c'] exI [of _ x]) (simp add: tmrReset_def reset_done_def)
qed

lemma reset_full:
  assumes inv: "ctrl_inv c" and w: "wheel {} c p L" and t: "t \<notin> allocated p" and h: "handle \<noteq> 0"
    and v: "t = 0 \<or> (\<exists>ob. objs c t = Some ob \<and> timerId ob \<noteq> t)" and full: "\<not> 0 < numOfFree p"
    and d: "c_div ms (resolution c) = Inr d"
  shows "\<exists>c' a. tmrReset cb ms param handle (Some t) c = Inr (c', Some a) \<and> reset_done c cb d param t c' a"
proof -
  note room = capacity_wheel [OF w]
  have "numOfFree p = 0" using room(2) full by simp
  from reset_pObj_full [OF w t v this] have "reset_pObj c t = Inr (c, 0)" .
  moreover have "chosen c t 0" using t room full by (auto simp: chosen_def dom_timers [OF w])
  moreover have "valid_handle c 0" by (simp add: valid_handle_def)
  ultimately show ?thesis using inv d h
    by (intro exI [of _ c] exI [of _ 0]) (simp add: tmrReset_def reset_done_def)
qed

lemma tmrReset_step:
  assumes inv: "ctrl_inv c" and v: "valid_handle c t" and h: "handle \<noteq> 0" and ms: "int_ok ms"
  shows "\<exists>c' a. tmrReset cb ms param handle (Some t) c = Inr (c', Some a) \<and> chosen c t a
    \<and> ctrl_inv c' \<and> same_config c c' \<and> periodsFromStart c' = periodsFromStart c
    \<and> pool_blocks c' = pool_blocks c
    \<and> (if a = 0 then c' = c
       else timers c' = (timers c)(a \<mapsto> (start_count c (ms sdiv resolution c), cb, param)))
    \<and> (\<forall>t'. t' = a \<or> valid_handle c t' \<longrightarrow> valid_handle c' t')"
proof -
  from inv obtain p L where w: "wheel {} c p L" by (auto simp: ctrl_inv_def)
  note d = c_div_ok [OF wheelD(5) [OF w] ms]
  have "t = 0 \<or> (\<exists>ob. objs c t = Some ob \<and> timerId ob \<noteq> t)" if "t \<notin> allocated p"
    using v that by (auto simp: valid_handle_def dom_timers [OF w])
  then have "\<exists>c' a. tmrReset cb ms param handle (Some t) c = Inr (c', Some a)
      \<and> reset_done c cb (ms sdiv resolution c) param t c' a"
    by (cases "t \<in> allocated p"; cases "0 < numOfFree p")
       (blast intro: reset_armed [OF w _ h d] reset_fresh [OF w _ h _ _ d] reset_full [OF inv w _ h _ _ d(1)])+
  then show ?thesis unfolding reset_done_def .
qed

end
