(* ===== verification/TimerModule.thy ===== *)
theory TimerModule
  imports TimerArm
begin

section \<open>The timer module: set-up and the alarm thread (\<open>ttimer/tdengine_old.c\<close>)\<close>

text \<open>
  The global array \<open>tmrCtrl\<close> of 16 controllers, its initialisation (\<open>tmrModuleInit\<close>),
  the creation of a controller (\<open>tmrInit\<close>), and the thread that turns every \<open>SIGALRM\<close> into a
  tick of each controller (\<open>processAlarmSignal\<close>, \<open>timerLoopFunc\<close>).  The array is a list;
  \<open>base\<close> is its address, not 0, which is the address of its first entry.

  What \<open>malloc\<close>, \<open>rand\<close>, \<open>pthread_create\<close> and \<open>sigwait\<close> answer is a parameter.
  \<open>timerLoopFunc\<close> takes no lock of its own; it runs in one thread, and the controller's
  mutex covers its call of \<open>tmrProcessList\<close>, so a tick of one controller is one step.
\<close>

definition maxNumOfTmrCtrl :: nat where
  "maxNumOfTmrCtrl = 16"

definition MSECONDS_PER_TICK :: int where
  "MSECONDS_PER_TICK = 5"

text \<open>\<open>sizeof(tmr_obj_t)\<close> with 8-byte pointers: six pointers, a padded \<open>short\<close> and a padded \<open>int\<close>.\<close>

definition sizeof_tmr_obj :: int where
  "sizeof_tmr_obj = 64"

definition label_size :: nat where
  "label_size = 12"

text \<open>\<open>strncpy\<close> into a buffer of \<open>n\<close> bytes: cut off without a terminator, or padded with zeros.\<close>

definition strncpy :: "nat \<Rightarrow> string \<Rightarrow> string" where
  "strncpy n s = take n (s @ replicate n (CHR 0x00))"

text \<open>The controller that \<open>memset(pCtrl, 0, sizeof(tmr_ctrl_t))\<close> writes; the store stays as it is.\<close>

definition zero_ctrl :: "tmr_obj_t heap \<Rightarrow> tmr_ctrl_t" where
  "zero_ctrl h = \<lparr>signature = 0, resolution = 0, numOfPeriods = 0, periodsFromStart = 0,
     tmrList = [], poolHandle = None, label = replicate label_size (CHR 0x00), maxNumOfTmrs = 0,
     numOfTmrs = 0, ticks = 0, maxTicks = 0, objs = h\<rparr>"

text \<open>The answers to the allocations and to \<open>rand()\<close> in one call of \<open>tmrInit\<close>.\<close>

record init_env =
  pool_env :: "tmr_obj_t malloc_env"
  slots_ok :: bool
  rnd :: int

text \<open>The fields that \<open>tmrInit\<close> fills in once it has the pool.\<close>

definition setup_ctrl :: "addr \<Rightarrow> init_env \<Rightarrow> int \<Rightarrow> int \<Rightarrow> tmr_ctrl_t \<Rightarrow> tmr_ctrl_t res" where
  "setup_ctrl self env resolution0 longest c =
     (let r = (if resolution0 < MSECONDS_PER_TICK then MSECONDS_PER_TICK else resolution0)
      in bindE (c_div r MSECONDS_PER_TICK) (\<lambda>mt.
         bindE (c_div (rnd env) mt) (\<lambda>tk.
         bindE (c_div longest r) (\<lambda>np.
         (let n = (if np < 10 then 10 else np)
          in if \<not> slots_ok env then Inl NullDeref
             else Inr (c\<lparr>resolution := r, maxTicks := mt, ticks := tk, numOfPeriods := n,
                         tmrList := replicate (nat n) \<lparr>head = 0, count = 0\<rparr>,
                         signature := self\<rparr>))))))"

text \<open>
  \<open>tmrInit\<close> always takes the first entry of the array (the allocation of an id is commented
  out in the source).  It returns the handle.
\<close>

definition tmrInit ::
  "addr \<Rightarrow> init_env \<Rightarrow> int \<Rightarrow> int \<Rightarrow> int \<Rightarrow> string \<Rightarrow> tmr_ctrl_t list \<Rightarrow> (addr \<times> tmr_ctrl_t list) res" where
  "tmrInit base env maxNum resolution0 longest lbl ctrls =
     bindE (arr_get ctrls 0) (\<lambda>c.
     bindE (i32 (maxNum + 10)) (\<lambda>num.
     bindE (memPoolInit (pool_env env) num sizeof_tmr_obj (objs c)) (\<lambda>(ph, h).
       (let c0 = (zero_ctrl h)\<lparr>label := strncpy label_size lbl, maxNumOfTmrs := maxNum, poolHandle := ph\<rparr>
        in if ph = None
           then bindE (memPoolCleanup ph h) (\<lambda>_.
                bindE (arr_set ctrls 0 c0) (\<lambda>cs. Inr (0, cs)))
           else bindE (setup_ctrl base env resolution0 longest c0) (\<lambda>c1.
                bindE (arr_set ctrls 0 c1) (\<lambda>cs. Inr (base, cs)))))))"

text \<open>One controller's part of a tick.\<close>

definition tick_ctrl :: "tmr_ctrl_t \<Rightarrow> (tmr_ctrl_t \<times> fire list) res" where
  "tick_ctrl c =
     (if signature c = 0 then Inr (c, [])
      else bindE (i32 (ticks c + 1)) (\<lambda>t.
        if t \<ge> maxTicks c
        then bindE (tmrProcessList (c\<lparr>ticks := t\<rparr>)) (\<lambda>(c', evs). Inr (c'\<lparr>ticks := 0\<rparr>, evs))
        else Inr (c\<lparr>ticks := t\<rparr>, [])))"

fun timerLoopFunc :: "tmr_ctrl_t list \<Rightarrow> (tmr_ctrl_t list \<times> fire list) res" where
  "timerLoopFunc [] = Inr ([], [])"
| "timerLoopFunc (c # cs) =
     bindE (tick_ctrl c) (\<lambda>(c', evs1).
     bindE (timerLoopFunc cs) (\<lambda>(cs', evs2). Inr (c' # cs', evs1 @ evs2)))"

text \<open>
  The loop of the alarm thread over the results of \<open>sigwait\<close>, 0 for a signal received: a
  failed wait is reported and skipped.
\<close>

fun processAlarmSignal :: "int list \<Rightarrow> tmr_ctrl_t list \<Rightarrow> (tmr_ctrl_t list \<times> fire list list) res" where
  "processAlarmSignal [] cs = Inr (cs, [])"
| "processAlarmSignal (r # rs) cs =
     (if r \<noteq> 0 then processAlarmSignal rs cs
      else bindE (timerLoopFunc cs) (\<lambda>(cs', evs).
           bindE (processAlarmSignal rs cs') (\<lambda>(cs'', evss). Inr (cs'', evs # evss))))"

text \<open>\<open>tmrModuleInit\<close>: the array is cleared and the thread started, if \<open>pthread_create\<close> returns 0.\<close>

definition tmrModuleInit :: "int \<Rightarrow> tmr_obj_t heap \<Rightarrow> tmr_ctrl_t list \<times> bool" where
  "tmrModuleInit create h = (replicate maxNumOfTmrCtrl (zero_ctrl h), create = 0)"

subsection \<open>A new controller is well-formed\<close>

text \<open>The invariant of an entry of the array between two alarms.\<close>

definition entry_ok :: "tmr_ctrl_t \<Rightarrow> bool" where
  "entry_ok c \<longleftrightarrow> signature c = 0 \<or>
     (ctrl_inv c \<and> 0 < maxTicks c \<and> int_ok (maxTicks c) \<and> 0 \<le> ticks c \<and> int_ok (ticks c + 1))"

lemma zero_ctrl_entry_ok [simp]: "entry_ok (zero_ctrl h)"
  by (simp add: entry_ok_def zero_ctrl_def)

lemma empty_wheel:
  assumes "poolHandle c = Some p" and "pool_inv p (objs c)" and "allocated p = {}"
    and "0 < numOfPeriods c" "int_ok (numOfPeriods c)" "0 < resolution c" "int_ok (resolution c)"
    and "tmrList c = replicate (nat (numOfPeriods c)) \<lparr>head = 0, count = 0\<rparr>" and "numOfTmrs c = 0"
  shows "wheel {} c p (\<lambda>_. [])"
  using assms by (simp add: wheel_def slot_ok_def)

text \<open>The resolution and the ticks per period that \<open>tmrInit\<close> settles on.\<close>

definition eff_resolution :: "int \<Rightarrow> int" where
  "eff_resolution r = max 5 r"

lemma eff_resolution_bounds: "int_ok r \<Longrightarrow> 5 \<le> eff_resolution r \<and> int_ok (eff_resolution r)"
  by (auto simp: eff_resolution_def int_ok_def max_def)

lemma eff_resolution_if: "(if r < 5 then 5 else r) = eff_resolution r"
  by (simp add: eff_resolution_def)

lemma setup_ctrl_ok:
  assumes "int_ok r" and "int_ok l" and "slots_ok env" and "0 \<le> rnd env" and "int_ok (rnd env)"
  defines "R \<equiv> eff_resolution r"
  shows "setup_ctrl self env r l c = Inr (c\<lparr>resolution := R, maxTicks := R div 5,
      ticks := rnd env div (R div 5), numOfPeriods := max 10 (l sdiv R),
      tmrList := replicate (nat (max 10 (l sdiv R))) \<lparr>head = 0, count = 0\<rparr>, signature := self\<rparr>)"
    and "int_ok (max 10 (l sdiv R))" and "0 < R div 5" and "int_ok (R div 5)"
proof -
  have R: "5 \<le> R" "int_ok R" using eff_resolution_bounds [OF assms(1)] by (simp_all add: R_def)
  then show mt: "0 < R div 5" "int_ok (R div 5)" using int_ok_div [of R 5] by linarith+
  have l: "c_div l R = Inr (l sdiv R)" "int_ok (l sdiv R)" using c_div_ok [of R l] R assms(2) by simp_all
  then show "int_ok (max 10 (l sdiv R))" by (auto simp: int_ok_def max_def)
  have n: "(if l sdiv R < 10 then 10 else l sdiv R) = max 10 (l sdiv R)" by simp
  show "setup_ctrl self env r l c = Inr (c\<lparr>resolution := R, maxTicks := R div 5,
      ticks := rnd env div (R div 5), numOfPeriods := max 10 (l sdiv R),
      tmrList := replicate (nat (max 10 (l sdiv R))) \<lparr>head = 0, count = 0\<rparr>, signature := self\<rparr>)"
    using R l(1) mt assms(3-5)
    unfolding setup_ctrl_def MSECONDS_PER_TICK_def eff_resolution_if [of r, folded R_def] Let_def
    by (simp add: c_div_nonneg n)
qed

lemma tmrInit_ok:
  assumes cs: "cs \<noteq> []" and num: "- 9 < maxNum" "64 * (maxNum + 10) < 2147483648"
    and env: "struct_ok (pool_env env)" "0 < pool_mem (pool_env env)" "list_ok (pool_env env)"
      "slots_ok env" "0 \<le> rnd env" "int_ok (rnd env)"
    and args: "int_ok r" "int_ok l"
  shows "\<exists>c p. tmrInit base env maxNum r l lbl cs = Inr (base, c # tl cs)
    \<and> wheel {} c p (\<lambda>_. []) \<and> numOfBlock p = maxNum + 10 \<and> numOfFree p = maxNum + 10
    \<and> pool p = pool_mem (pool_env env)
    \<and> signature c = base \<and> resolution c = eff_resolution r \<and> numOfPeriods c = max 10 (l sdiv eff_resolution r)
    \<and> maxTicks c = eff_resolution r div 5 \<and> ticks c = rnd env div (eff_resolution r div 5)
    \<and> periodsFromStart c = 0 \<and> label c = strncpy label_size lbl \<and> maxNumOfTmrs c = maxNum"
proof -
  let ?R = "eff_resolution r"
  from cs obtain c cs' where cs': "cs = c # cs'" by (cases cs) auto
  have m: "int_ok (maxNum + 10)" "int_ok (64 * (maxNum + 10))"
    using num by (simp_all add: int_ok_def)
  have "1 < maxNum + 10" using num by simp
  from memPoolInit_some [OF this, of 64 "pool_env env" "objs c"] m(2) env obtain p h where p:
    "memPoolInit (pool_env env) (maxNum + 10) 64 (objs c) = Inr (Some p, h)" "pool_inv p h"
    "numOfFree p = maxNum + 10" "numOfBlock p = maxNum + 10" "pool p = pool_mem (pool_env env)"
    "allocated p = {}" by auto
  define c0 where "c0 = (zero_ctrl h)\<lparr>label := strncpy label_size lbl, maxNumOfTmrs := maxNum,
    poolHandle := Some p\<rparr>"
  note su = setup_ctrl_ok [OF args env(4-6)]
  define c1 where "c1 = c0\<lparr>resolution := ?R, maxTicks := ?R div 5,
      ticks := rnd env div (?R div 5), numOfPeriods := max 10 (l sdiv ?R),
      tmrList := replicate (nat (max 10 (l sdiv ?R))) \<lparr>head = 0, count = 0\<rparr>, signature := base\<rparr>"
  have R: "0 < ?R" "int_ok ?R" using eff_resolution_bounds [OF args(1)] by simp_all
  have "wheel {} c1 p (\<lambda>_. [])"
    by (rule empty_wheel) (use p su(2) R in \<open>simp_all add: c1_def c0_def zero_ctrl_def\<close>)
  moreover have "tmrInit base env maxNum r l lbl cs = Inr (base, c1 # tl cs)"
    using p(1) m(1) su(1) [of base c0]
    by (simp add: tmrInit_def cs' c_simps sizeof_tmr_obj_def c0_def [symmetric] c1_def [symmetric])
  ultimately show ?thesis using p
    by (intro exI [of _ c1] exI [of _ p]) (simp add: c1_def c0_def zero_ctrl_def)
qed

end
