(* ===== verification/TimerRuns.thy ===== *)
theory TimerRuns
  imports TimerModule
begin

section \<open>Runs of a controller and its clients\<close>

text \<open>
  The alarm thread and the clients take turns, in any order: an \<open>Alarm\<close> is one tick of the
  controller with the calls it makes, \<open>Armed t a\<close> one call of \<open>tmrReset\<close> with the handle
  \<open>t\<close>, which left \<open>a\<close> in the client's variable.  A state is the controller and the set of
  handles the clients hold; a client passes \<open>NULL\<close> or a handle that some \<open>tmrReset\<close> has
  returned, however old it is.  The mutex makes every step atomic.
\<close>

type_synonym clients = "tmr_ctrl_t \<times> addr set"

datatype event = Alarm "fire list" | Armed addr addr

inductive timer_step :: "clients \<Rightarrow> event \<Rightarrow> clients \<Rightarrow> bool" where
  alarm: "tick_ctrl c = Inr (c', evs) \<Longrightarrow> timer_step (c, H) (Alarm evs) (c', H)"
| reset: "handle \<noteq> 0 \<Longrightarrow> t \<in> H \<Longrightarrow> int_ok ms \<Longrightarrow>
    tmrReset cb ms param handle (Some t) c = Inr (c', Some a) \<Longrightarrow>
    timer_step (c, H) (Armed t a) (c', insert a H)"

inductive timer_run :: "clients \<Rightarrow> event list \<Rightarrow> clients \<Rightarrow> bool" where
  nil: "timer_run s [] s"
| cons: "timer_step s e s' \<Longrightarrow> timer_run s' es s'' \<Longrightarrow> timer_run s (e # es) s''"

inductive_cases alarmE: "timer_step (c, H) (Alarm evs) s'"
inductive_cases armedE: "timer_step (c, H) (Armed t a) s'"
inductive_simps timer_run_simps [simp]: "timer_run s [] s'" "timer_run s (e # es) s'"

lemma timer_run_append:
  "timer_run s (es @ fs) s'' \<longleftrightarrow> (\<exists>s'. timer_run s es s' \<and> timer_run s' fs s'')"
  by (induction es arbitrary: s) auto

text \<open>The number of alarms of a run, and the timers that an event calls.\<close>

fun is_alarm :: "event \<Rightarrow> bool" where
  "is_alarm (Alarm evs) = True"
| "is_alarm (Armed t a) = False"

definition alarms :: "event list \<Rightarrow> nat" where
  "alarms es = length (filter is_alarm es)"

fun called :: "event \<Rightarrow> addr set" where
  "called (Alarm evs) = (\<lambda>(f, q, a). a) ` set evs"
| "called (Armed t a) = {}"

lemma alarms_simps [simp]:
  "alarms [] = 0" "alarms (Alarm evs # es) = Suc (alarms es)" "alarms (Armed t a # es) = alarms es"
  by (simp_all add: alarms_def)

subsection \<open>A tick of a controller\<close>

definition live :: "tmr_ctrl_t \<Rightarrow> bool" where
  "live c \<longleftrightarrow> signature c \<noteq> 0 \<and> ctrl_inv c \<and> 0 < maxTicks c \<and> int_ok (maxTicks c)
     \<and> 0 \<le> ticks c \<and> int_ok (ticks c + 1)"

definition clients_ok :: "clients \<Rightarrow> bool" where
  "clients_ok s \<longleftrightarrow> live (fst s) \<and> (\<forall>t\<in>snd s. valid_handle (fst s) t)"

lemma entry_ok_live: "entry_ok c \<longleftrightarrow> signature c = 0 \<or> live c"
  by (auto simp: entry_ok_def live_def)

text \<open>Nothing but the alarm itself depends on the tick counter.\<close>

lemma ticks_irrelevant [simp]:
  "ctrl_inv (c\<lparr>ticks := k\<rparr>) = ctrl_inv c" "timers (c\<lparr>ticks := k\<rparr>) = timers c"
  "pool_blocks (c\<lparr>ticks := k\<rparr>) = pool_blocks c" "valid_handle (c\<lparr>ticks := k\<rparr>) t = valid_handle c t"
  "no_wrap (c\<lparr>ticks := k\<rparr>) d = no_wrap c d"
proof -
  show t: "timers (c\<lparr>ticks := k\<rparr>) = timers c" "pool_blocks (c\<lparr>ticks := k\<rparr>) = pool_blocks c"
    by (auto simp: timers_def remaining_def pool_blocks_def fun_eq_iff split: option.split)
  show "ctrl_inv (c\<lparr>ticks := k\<rparr>) = ctrl_inv c" by (simp add: ctrl_inv_def wheel_def)
  show "valid_handle (c\<lparr>ticks := k\<rparr>) t = valid_handle c t" by (simp add: valid_handle_def t)
  show "no_wrap (c\<lparr>ticks := k\<rparr>) d = no_wrap c d" by (simp add: no_wrap_def)
qed

text \<open>The number of alarms to the end of the current period.\<close>

definition to_period :: "tmr_ctrl_t \<Rightarrow> int" where
  "to_period c = max 1 (maxTicks c - ticks c)"

text \<open>The fields that \<open>tmrInit\<close> sets once.\<close>

definition same_setup :: "tmr_ctrl_t \<Rightarrow> tmr_ctrl_t \<Rightarrow> bool" where
  "same_setup c c' \<longleftrightarrow> signature c' = signature c \<and> resolution c' = resolution c
     \<and> numOfPeriods c' = numOfPeriods c \<and> maxTicks c' = maxTicks c"

lemma same_setup_refl [simp]: "same_setup c c"
  by (simp add: same_setup_def)

lemma same_setup_trans: "same_setup a b \<Longrightarrow> same_setup b c \<Longrightarrow> same_setup a c"
  by (simp add: same_setup_def)

text \<open>Most alarms only count; the last one of a period processes the slot.\<close>

lemma tick_counts:
  assumes "live c" and "1 < to_period c"
  shows "tick_ctrl c = Inr (c\<lparr>ticks := ticks c + 1\<rparr>, [])"
    and "live (c\<lparr>ticks := ticks c + 1\<rparr>)"
    and "to_period (c\<lparr>ticks := ticks c + 1\<rparr>) = to_period c - 1"
  using assms by (auto simp: tick_ctrl_def live_def to_period_def c_simps int_ok_def max_def split: if_splits)

lemma tick_processes:
  assumes l: "live c" and tp: "to_period c = 1"
  shows "\<exists>c1 evs. tmrProcessList (c\<lparr>ticks := ticks c + 1\<rparr>) = Inr (c1, evs)
    \<and> tick_ctrl c = Inr (c1\<lparr>ticks := 0\<rparr>, evs) \<and> live (c1\<lparr>ticks := 0\<rparr>)
    \<and> same_setup c c1 \<and> periodsFromStart c1 = periodsFromStart c + 1
    \<and> pool_blocks c1 = pool_blocks c \<and> distinct (map (\<lambda>(f, q, a). a) evs)
    \<and> (\<forall>f q a. (f, q, a) \<in> set evs \<longrightarrow> (\<exists>r. timers c a = Some (r, f, q) \<and> timers c1 a = None))
    \<and> (\<forall>t. valid_handle c t \<longrightarrow> valid_handle c1 t)"
proof -
  let ?c = "c\<lparr>ticks := ticks c + 1\<rparr>"
  have inv: "ctrl_inv ?c" using l by (simp add: live_def)
  from ctrl_inv_step [OF this] obtain c1 evs where r: "tmrProcessList ?c = Inr (c1, evs)"
    "ctrl_inv c1" "same_config ?c c1" "periodsFromStart c1 = periodsFromStart c + 1"
    "pool_blocks c1 = pool_blocks c" "distinct (map (\<lambda>(f, q, a). a) evs)"
    "\<forall>f q a. (f, q, a) \<in> set evs \<longrightarrow> (\<exists>r. timers c a = Some (r, f, q) \<and> timers c1 a = None)"
    "\<forall>t. valid_handle c t \<longrightarrow> valid_handle c1 t" by auto
  have "signature c \<noteq> 0" "int_ok (ticks c + 1)" "maxTicks c \<le> ticks c + 1"
    using l tp by (auto simp: live_def to_period_def max_def split: if_splits)
  then have "tick_ctrl c = Inr (c1\<lparr>ticks := 0\<rparr>, evs)"
    using r(1) by (simp add: tick_ctrl_def c_simps)
  moreover have "live (c1\<lparr>ticks := 0\<rparr>)" "same_setup c c1"
    using l r(2,3) by (auto simp: live_def same_config_def same_setup_def int_ok_def)
  ultimately show ?thesis using r by blast
qed

lemma tick_cases:
  assumes "live c"
  obtains "1 < to_period c" | "to_period c = 1"
  by (cases "1 < to_period c") (auto simp: to_period_def max_def split: if_splits)

lemma to_period_pos: "0 < to_period c"
  by (simp add: to_period_def)

lemma tick_ok:
  assumes l: "live c"
  shows "\<exists>c' evs. tick_ctrl c = Inr (c', evs) \<and> live c' \<and> same_setup c c'
    \<and> pool_blocks c' = pool_blocks c \<and> (\<forall>t. valid_handle c t \<longrightarrow> valid_handle c' t)
    \<and> distinct (map (\<lambda>(f, q, a). a) evs)"
  using l
proof (cases rule: tick_cases)
  case 1
  show ?thesis using tick_counts [OF l 1]
    by (intro exI [of _ "c\<lparr>ticks := ticks c + 1\<rparr>"] exI [of _ "[]"]) (simp add: same_setup_def)
next
  case 2
  from tick_processes [OF l 2] obtain c1 evs where "tick_ctrl c = Inr (c1\<lparr>ticks := 0\<rparr>, evs)"
    "live (c1\<lparr>ticks := 0\<rparr>)" "same_setup c c1" "pool_blocks c1 = pool_blocks c"
    "distinct (map (\<lambda>(f, q, a). a) evs)" "\<forall>t. valid_handle c t \<longrightarrow> valid_handle c1 t" by blast
  then show ?thesis
    by (intro exI [of _ "c1\<lparr>ticks := 0\<rparr>"] exI [of _ evs]) (simp add: same_setup_def)
qed

subsection \<open>Every step is possible, and keeps the invariant\<close>

lemma step_enabled:
  assumes "clients_ok (c, H)"
  shows "\<exists>evs c'. tick_ctrl c = Inr (c', evs) \<and> timer_step (c, H) (Alarm evs) (c', H)"
    and "t \<in> H \<Longrightarrow> handle \<noteq> 0 \<Longrightarrow> int_ok ms \<Longrightarrow>
      \<exists>c' a. tmrReset cb ms param handle (Some t) c = Inr (c', Some a)
        \<and> timer_step (c, H) (Armed t a) (c', insert a H)"
  using tick_ok [of c] tmrReset_step [of c t handle ms cb param] assms
  by (auto simp: clients_ok_def live_def intro: timer_step.intros)

lemma timer_step_ok:
  assumes "timer_step s e s'" and "clients_ok s"
  shows "clients_ok s' \<and> same_setup (fst s) (fst s') \<and> snd s \<subseteq> snd s'
    \<and> pool_blocks (fst s') = pool_blocks (fst s)"
  using assms
proof (cases rule: timer_step.cases)
  case (alarm c c' evs H)
  with tick_ok [of c] assms(2) show ?thesis by (auto simp: clients_ok_def)
next
  case (reset handle t H ms cb param c c' a)
  with tmrReset_step [of c t handle ms cb param] assms(2) show ?thesis
    by (auto simp: clients_ok_def live_def same_config_def same_setup_def)
qed

lemma timer_run_ok:
  "timer_run s es s' \<Longrightarrow> clients_ok s \<Longrightarrow>
     clients_ok s' \<and> same_setup (fst s) (fst s') \<and> snd s \<subseteq> snd s'
     \<and> pool_blocks (fst s') = pool_blocks (fst s)"
proof (induction rule: timer_run.induct)
  case (cons s e s' es s'')
  from timer_step_ok [OF cons.hyps(1) cons.prems] cons.IH show ?case
    by (blast intro: same_setup_trans)
qed simp

subsection \<open>One timer in a run\<close>

text \<open>
  The number of alarms up to and including the one that calls a timer with \<open>r\<close> periods
  to go; \<open>due_in\<close> is the state of a timer that will be called after exactly \<open>n\<close> alarms.
\<close>

definition due_alarm :: "tmr_ctrl_t \<Rightarrow> int \<Rightarrow> int" where
  "due_alarm c r = to_period c + r * maxTicks c"

definition due_in :: "int \<Rightarrow> addr \<Rightarrow> addr \<Rightarrow> addr \<Rightarrow> tmr_ctrl_t \<Rightarrow> bool" where
  "due_in n f q a c \<longleftrightarrow> (\<exists>r. timers c a = Some (r, f, q) \<and> 0 \<le> r \<and> no_wrap c (r + 1) \<and> n = due_alarm c r)"

lemma due_alarm_pos: "0 < maxTicks c \<Longrightarrow> 0 \<le> r \<Longrightarrow> 0 < due_alarm c r"
  using to_period_pos [of c] by (simp add: due_alarm_def add_pos_nonneg)

lemma alarm_due_in:
  assumes ok: "clients_ok (c, H)" and st: "timer_step (c, H) (Alarm evs) (c', H')"
    and d: "due_in n f q a c"
  shows "if n = 1 then timers c' a = None \<and> (\<forall>f' q'. (f', q', a) \<in> set evs \<longleftrightarrow> f \<noteq> 0 \<and> f' = f \<and> q' = q)
         else due_in (n - 1) f q a c' \<and> a \<notin> called (Alarm evs)"
proof -
  from ok have l: "live c" by (simp add: clients_ok_def)
  then have mt: "0 < maxTicks c" by (simp add: live_def)
  from st have run: "tick_ctrl c = Inr (c', evs)" by (auto elim: alarmE)
  from d obtain r where t: "timers c a = Some (r, f, q)" and r: "0 \<le> r" and nw: "no_wrap c (r + 1)"
    and n: "n = due_alarm c r" by (auto simp: due_in_def)
  have rm: "0 \<le> r * maxTicks c" using r mt by simp
  from l show ?thesis
  proof (cases rule: tick_cases)
    case 1
    with tick_counts [OF l 1] run have c': "c' = c\<lparr>ticks := ticks c + 1\<rparr>" "evs = []" by simp_all
    have "n \<noteq> 1" using 1 rm by (simp add: n due_alarm_def)
    moreover have "due_in (n - 1) f q a c'"
      using t r nw tick_counts(3) [OF l 1] by (simp add: due_in_def c' n due_alarm_def)
    ultimately show ?thesis by (simp add: c'(2))
  next
    case 2
    from tick_processes [OF l 2] run obtain c1 where c1:
      "tmrProcessList (c\<lparr>ticks := ticks c + 1\<rparr>) = Inr (c1, evs)" "c' = c1\<lparr>ticks := 0\<rparr>"
      "same_setup c c1" "periodsFromStart c1 = periodsFromStart c + 1" by auto
    from l obtain p L where w: "wheel {} (c\<lparr>ticks := ticks c + 1\<rparr>) p L"
      using ticks_irrelevant(1) [of "ticks c + 1" c] by (auto simp: live_def ctrl_inv_def)
    have "no_wrap (c\<lparr>ticks := ticks c + 1\<rparr>) 1" "timers (c\<lparr>ticks := ticks c + 1\<rparr>) a = Some (r, f, q)"
      using no_wrap_le [OF nw, of 1] r t by simp_all
    note tt = tick_timer [OF w this(1) c1(1) this(2) r]
    show ?thesis
    proof (cases "r = 0")
      case True
      then have "n = 1" using 2 by (simp add: n due_alarm_def)
      moreover have "timers c' a = None" using tt(1) True by (simp add: c1(2))
      moreover have "\<forall>f' q'. (f', q', a) \<in> set evs \<longleftrightarrow> f \<noteq> 0 \<and> f' = f \<and> q' = q"
        using tt(2) True by blast
      ultimately show ?thesis by simp
    next
      case False
      then have "maxTicks c \<le> r * maxTicks c" using r mt by simp
      then have "n \<noteq> 1" using 2 mt by (simp add: n due_alarm_def)
      moreover have "a \<notin> called (Alarm evs)" using tt(2) False by auto
      moreover have "no_wrap c' r"
        using no_wrap_step [of c r c'] nw c1 r by (simp add: same_setup_def)
      moreover have "due_alarm c' (r - 1) = n - 1"
        using 2 c1(3) mt by (simp add: n due_alarm_def to_period_def c1(2) same_setup_def left_diff_distrib)
      ultimately show ?thesis using tt(1) False r by (simp add: due_in_def c1(2))
    qed
  qed
qed

lemma armed_due_in:
  assumes ok: "clients_ok (c, H)" and st: "timer_step (c, H) (Armed t b) (c', H')"
    and d: "due_in n f q a c" and a: "t \<noteq> a"
  shows "due_in n f q a c'"
  using st
proof (cases rule: timer_step.cases)
  case (reset handle ms cb param)
  with tmrReset_step [of c t handle ms cb param] ok have r:
    "chosen c t b" "periodsFromStart c' = periodsFromStart c" "same_config c c'"
    "if b = 0 then c' = c
       else timers c' = (timers c)(b \<mapsto> (start_count c (ms sdiv resolution c), cb, param))"
    by (auto simp: clients_ok_def live_def)
  have "a \<in> dom (timers c)" using d by (auto simp: due_in_def)
  with r(1,4) a have "timers c' a = timers c a" by (auto simp: chosen_def split: if_splits)
  with d r(2,3) show ?thesis
    by (simp add: due_in_def due_alarm_def to_period_def no_wrap_def same_config_def)
qed

lemma run_due_in:
  assumes "timer_run s es s'" and "clients_ok s" and "due_in n f q a (fst s)"
    and "int (alarms es) < n" and "\<forall>b. Armed a b \<notin> set es"
  shows "due_in (n - int (alarms es)) f q a (fst s') \<and> a \<notin> \<Union> (called ` set es)"
  using assms
proof (induction arbitrary: n rule: timer_run.induct)
  case (cons s e s' es s'')
  obtain c H c' H' where s: "s = (c, H)" "s' = (c', H')" by (cases s; cases s') auto
  note ok = cons.prems(1) [unfolded s] and ok' = timer_step_ok [OF cons.hyps(1) cons.prems(1)]
  note st = cons.hyps(1) [unfolded s] and d = cons.prems(2) [unfolded s fst_conv]
  show ?case
  proof (cases e)
    case (Alarm evs)
    have "n \<noteq> 1" using cons.prems(3) Alarm by simp
    with alarm_due_in [OF ok st [unfolded Alarm] d] have
      "due_in (n - 1) f q a (fst s')" "a \<notin> called (Alarm evs)" by (simp_all add: s)
    with cons.IH [of "n - 1"] ok' cons.prems(3,4) Alarm show ?thesis by (simp add: algebra_simps)
  next
    case (Armed t b)
    have "t \<noteq> a" using cons.prems(4) Armed by auto
    with armed_due_in [OF ok st [unfolded Armed] d] have "due_in n f q a (fst s')" by (simp add: s)
    with cons.IH [of n] ok' cons.prems(3,4) Armed show ?thesis by simp
  qed
qed simp

text \<open>The call at the due alarm.\<close>

lemma due_timer_fires:
  assumes run: "timer_run s es (c1, H1)" and ok: "clients_ok s"
    and d: "due_in (int (alarms es) + 1) f q a (fst s)" and f: "f \<noteq> 0" and no: "\<forall>b. Armed a b \<notin> set es"
  shows "a \<notin> \<Union> (called ` set es)
    \<and> (\<exists>c2 evs. tick_ctrl c1 = Inr (c2, evs) \<and> timers c2 a = None
         \<and> {(f', q'). (f', q', a) \<in> set evs} = {(f, q)} \<and> distinct (map (\<lambda>(f, q, a). a) evs))"
proof -
  from run_due_in [OF run ok d _ no]
  have d1: "due_in 1 f q a c1" "a \<notin> \<Union> (called ` set es)" by simp_all
  have ok1: "clients_ok (c1, H1)" using timer_run_ok [OF run ok] by blast
  from step_enabled(1) [OF ok1] obtain c2 evs where
    s: "tick_ctrl c1 = Inr (c2, evs)" "timer_step (c1, H1) (Alarm evs) (c2, H1)" by blast
  have "distinct (map (\<lambda>(f, q, a). a) evs)" using tick_ok [of c1] ok1 s(1) by (auto simp: clients_ok_def)
  with alarm_due_in [OF ok1 s(2) d1(1)] s(1) d1(2) f show ?thesis by auto
qed

text \<open>Arming a fresh timer on a controller with room.\<close>

lemma arm_null:
  assumes l: "live c" and room: "card (dom (timers c)) < capacity c" and h: "handle \<noteq> 0"
    and ms: "0 \<le> ms" "int_ok ms" "ms div resolution c div numOfPeriods c < 32768"
    and nw: "no_wrap c (ms div resolution c)"
  shows "\<exists>c' a. tmrReset cb ms param handle (Some 0) c = Inr (c', Some a) \<and> live c' \<and> a \<noteq> 0
    \<and> a \<in> pool_blocks c - dom (timers c) \<and> timers c' = (timers c)(a \<mapsto> (ms div resolution c, cb, param))
    \<and> same_config c c' \<and> periodsFromStart c' = periodsFromStart c \<and> pool_blocks c' = pool_blocks c"
proof -
  from l have inv: "ctrl_inv c" "valid_handle c 0" by (simp_all add: live_def valid_handle_def)
  from inv obtain p L where w: "wheel {} c p L" by (auto simp: ctrl_inv_def)
  note N = wheelD(3,5) [OF w]
  have "0 \<notin> dom (timers c)"
    using dom_timers [OF w] allocated_subset [of p] block_addrs_nonzero [OF wheelD(2) [OF w]] by blast
  moreover have "start_count c (ms sdiv resolution c) = ms div resolution c"
    using N ms nw start_count_exact [of c "ms div resolution c"]
    by (simp add: sdiv_nonneg pos_imp_zdiv_nonneg_iff)
  moreover from tmrReset_step [OF inv h ms(2), of cb param] obtain c' a where
    r: "tmrReset cb ms param handle (Some 0) c = Inr (c', Some a)" "chosen c 0 a" "ctrl_inv c'"
      "same_config c c'" "periodsFromStart c' = periodsFromStart c" "pool_blocks c' = pool_blocks c"
      "if a = 0 then c' = c
       else timers c' = (timers c)(a \<mapsto> (start_count c (ms sdiv resolution c), cb, param))" by blast
  moreover from l r(3,4) have "live c'" by (simp add: live_def same_config_def)
  ultimately show ?thesis using room by (auto simp: chosen_def)
qed

end
