(* ===== verification/TimerDemo.thy ===== *)
theory TimerDemo
  imports TimerRuns
begin

section \<open>A concrete controller\<close>

text \<open>
  The controller that the closed examples run: the three-block pool of \<open>PoolSpec\<close>, ten slots,
  one tick of 5 ms per period, no timer armed; and the same controller after one \<open>tmrReset\<close>.
\<close>

definition demo_objs :: "tmr_obj_t heap" where
  "demo_objs a = (if a \<in> {4096, 4160, 4224} then Some zero_obj else None)"

definition demo_ctrl :: tmr_ctrl_t where
  "demo_ctrl = (zero_ctrl demo_objs)\<lparr>signature := 1000, resolution := 5, numOfPeriods := 10,
     tmrList := replicate 10 \<lparr>head = 0, count = 0\<rparr>, poolHandle := Some demo_pool,
     label := strncpy label_size ''http'', maxNumOfTmrs := - 7, maxTicks := 1\<rparr>"

definition demo_timer :: tmr_obj_t where
  "demo_timer = \<lparr>param1 = 5, fp = 77, timerId = 4096, cycle = 0, prevp = 0, nextp = 0, index = 2,
     pCtrl = 1000\<rparr>"

definition demo_armed :: tmr_ctrl_t where
  "demo_armed = demo_ctrl\<lparr>tmrList := (replicate 10 \<lparr>head = 0, count = 0\<rparr>)[2 := \<lparr>head = 4096, count = 1\<rparr>],
     poolHandle := Some (pool_take demo_pool), objs := demo_objs(4096 \<mapsto> demo_timer), numOfTmrs := 1\<rparr>"

lemma demo_wheel: "wheel {} demo_ctrl demo_pool (\<lambda>_. [])"
proof (rule empty_wheel)
  show "pool_inv demo_pool (objs demo_ctrl)"
    using demo_inv by (rule pool_inv_heap) (auto simp: demo_heap_def demo_ctrl_def zero_ctrl_def demo_objs_def
        split: if_splits)
  show "allocated demo_pool = {}" by (simp add: allocated_def demo_block_addrs demo_free_addrs)
qed (simp_all add: demo_ctrl_def zero_ctrl_def int_ok_def)

lemma demo_live: "live demo_ctrl"
proof -
  have "ctrl_inv demo_ctrl" unfolding ctrl_inv_def using demo_wheel by blast
  then show ?thesis by (simp add: live_def) (simp add: demo_ctrl_def zero_ctrl_def int_ok_def)
qed

lemma demo_clients: "clients_ok (demo_ctrl, {0})"
  using demo_live by (simp add: clients_ok_def valid_handle_def)

lemma demo_timers: "timers demo_ctrl = Map.empty"
  using dom_timers [OF demo_wheel] by (simp add: allocated_def demo_block_addrs demo_free_addrs)

lemma demo_arm: "tmrReset 77 10 5 1000 (Some 0) demo_ctrl = Inr (demo_armed, Some 4096)"
proof -
  have "memPoolMalloc zero_obj (poolHandle demo_ctrl) (objs demo_ctrl)
      = Inr (hd (free_addrs demo_pool), Some (pool_take demo_pool), (objs demo_ctrl)(hd (free_addrs demo_pool) \<mapsto> zero_obj))"
    by (rule malloc_wheel(2) [OF demo_wheel]) (simp add: demo_pool_def)
  then have m: "memPoolMalloc zero_obj (Some demo_pool) demo_objs
      = Inr (4096, Some (pool_take demo_pool), demo_objs(4096 \<mapsto> zero_obj))"
    by (simp add: demo_free_addrs demo_ctrl_def zero_ctrl_def)
  have f: "loop_fuel (c\<lparr>objs := h\<rparr>) = loop_fuel c" for c h by (simp add: loop_fuel_def)
  have "tmrReset 77 10 5 1000 (Some 0) demo_ctrl =
    bindE (arm_obj 77 5 1000 2 4096 (demo_ctrl\<lparr>poolHandle := Some (pool_take demo_pool),
      objs := demo_objs(4096 \<mapsto> zero_obj)\<rparr>)) (\<lambda>c2. Inr (c2, Some 4096))"
    by (simp add: tmrReset_def reset_pObj_def demo_ctrl_def zero_ctrl_def c_simps int_ok_def m)
  also have "\<dots> = Inr (demo_armed, Some 4096)"
    by (simp add: arm_obj_def link_obj_def demo_ctrl_def zero_ctrl_def c_simps int_ok_def
        loop_fuel_def demo_armed_def demo_timer_def zero_obj_def uint_word_ariths)
  finally show ?thesis .
qed

lemma demo_arm_step: "timer_step (demo_ctrl, {0}) (Armed 0 4096) (demo_armed, {4096, 0})"
  using timer_step.reset [OF _ _ _ demo_arm, of "{0}"] by (simp add: int_ok_def)

lemma demo_armed_clients: "clients_ok (demo_armed, {4096, 0})"
  using timer_step_ok [OF demo_arm_step demo_clients] by simp

lemma demo_armed_timers: "timers demo_armed = [4096 \<mapsto> (2, 77, 5)]"
proof -
  have "ctrl_inv demo_ctrl" "valid_handle demo_ctrl 0"
    using demo_live by (simp_all add: live_def valid_handle_def)
  from tmrReset_step [OF this, of 1000 10 77 5] demo_arm
  have "timers demo_armed = (timers demo_ctrl)(4096 \<mapsto> (start_count demo_ctrl (10 sdiv resolution demo_ctrl), 77, 5))"
    by (simp add: int_ok_def)
  moreover have "start_count demo_ctrl (10 sdiv resolution demo_ctrl) = 2"
    using start_count_exact [of demo_ctrl 2]
    by (simp add: demo_ctrl_def zero_ctrl_def no_wrap_def sdiv_nonneg)
  ultimately show ?thesis by (simp add: demo_timers)
qed

text \<open>Two alarms that find nothing to call.\<close>

lemma demo_armed_tick:
  assumes k: "k = 0 \<or> k = 1"
  shows "tick_ctrl (demo_armed\<lparr>periodsFromStart := k\<rparr>)
     = Inr (demo_armed\<lparr>periodsFromStart := k + 1\<rparr>, [])"
proof -
  have "loop_fuel (demo_armed\<lparr>ticks := 1, periodsFromStart := k\<rparr>) = 4"
    by (simp add: loop_fuel_def demo_armed_def pool_take_def demo_pool_def)
  with k show ?thesis
    by (auto simp: tick_ctrl_def tmrProcessList_def demo_armed_def demo_ctrl_def zero_ctrl_def
        c_simps int_ok_def eval_nat_numeral)
qed

lemma demo_armed_run:
  "timer_run (demo_armed, H) [Alarm [], Alarm []] (demo_armed\<lparr>periodsFromStart := 2\<rparr>, H)"
proof -
  have "demo_armed\<lparr>periodsFromStart := 0\<rparr> = demo_armed"
    by (simp add: demo_armed_def demo_ctrl_def zero_ctrl_def)
  then have "timer_step (demo_armed, H) (Alarm []) (demo_armed\<lparr>periodsFromStart := 1\<rparr>, H)"
    using demo_armed_tick [of 0] by (auto intro: timer_step.alarm)
  moreover have "timer_step (demo_armed\<lparr>periodsFromStart := 1\<rparr>, H) (Alarm [])
      (demo_armed\<lparr>periodsFromStart := 2\<rparr>, H)"
    using demo_armed_tick [of 1] by (auto intro: timer_step.alarm)
  ultimately show ?thesis by auto
qed

end
