(* ===== verification/TimerProps.thy ===== *)
theory TimerProps
  imports TimerDemo
begin

section \<open>Properties of the timer controller\<close>

subsection \<open>A period as a whole\<close>

text \<open>
  C3: tmrProcessList refines one tick of the countdown specification.  When no timer is overdue
  and the period counter does not wrap, it meets no undefined behaviour, calls exactly the timers
  that stand at 0, each once, removes them, and takes one period off all others; the invariant
  is kept.
\<close>
theorem tick_refines_countdown:
  assumes "ctrl_inv c" and "timely c" and "no_wrap c 1"
  shows "\<exists>c' evs. tmrProcessList c = Inr (c', evs) \<and> ctrl_inv c' \<and> timely c'
    \<and> timers c' = spec_tick (timers c) \<and> set evs = spec_calls (timers c)
    \<and> distinct (map (\<lambda>(f, q, a). a) evs)"
proof -
  from ctrl_inv_step [OF assms(1)] obtain c' evs where r: "tmrProcessList c = Inr (c', evs)"
    "ctrl_inv c'" "\<forall>a. timers c a = None \<longrightarrow> timers c' a = None"
    "\<forall>f q a. (f, q, a) \<in> set evs \<longrightarrow> (\<exists>r. timers c a = Some (r, f, q) \<and> timers c' a = None)"
    "distinct (map (\<lambda>(f, q, a). a) evs)" by blast
  from assms(1) obtain p L where w: "wheel {} c p L" by (auto simp: ctrl_inv_def)
  have tt: "timers c' a = (if r = 0 then None else Some (r - 1, f, q))
      \<and> (\<forall>f' q'. (f', q', a) \<in> set evs \<longleftrightarrow> r = 0 \<and> f \<noteq> 0 \<and> f' = f \<and> q' = q)"
    if "timers c a = Some (r, f, q)" for a r f q
  proof -
    have "0 \<le> r" using assms(2) that unfolding timely_def by blast
    then show ?thesis using tick_timer [OF w assms(3) r(1) that] by blast
  qed
  have spec: "timers c' a = spec_tick (timers c) a" for a
  proof (cases "timers c a")
    case (Some v)
    then show ?thesis using tt [of a] by (cases v) (simp add: spec_tick_def)
  qed (simp add: spec_tick_def r(3))
  have calls: "set evs = spec_calls (timers c)"
  proof (rule set_eqI, clarify)
    fix f q a
    show "(f, q, a) \<in> set evs \<longleftrightarrow> (f, q, a) \<in> spec_calls (timers c)"
    proof (cases "timers c a")
      case None
      with r(4) have "(f, q, a) \<notin> set evs" by fastforce
      with None show ?thesis by (simp add: spec_calls_def)
    next
      case (Some v)
      then show ?thesis using tt [of a] by (cases v) (auto simp: spec_calls_def)
    qed
  qed
  have "timely c'"
    using assms(2) by (auto simp: timely_def spec spec_tick_def split: option.splits if_splits) (metis
        add_0 int_one_le_iff_zero_less le_less zle_diff1_eq)
  then show ?thesis using r(1,2,5) spec calls by (intro exI conjI) (auto simp: fun_eq_iff)
qed

theorem tick_refines_countdown_witness:
  "\<exists>c' evs. tmrProcessList demo_armed = Inr (c', evs) \<and> ctrl_inv c' \<and> timely c'
    \<and> timers c' = spec_tick (timers demo_armed) \<and> set evs = spec_calls (timers demo_armed)
    \<and> distinct (map (\<lambda>(f, q, a). a) evs)"
proof (rule tick_refines_countdown)
  show "ctrl_inv demo_armed" using demo_armed_clients by (simp add: clients_ok_def live_def)
  show "timely demo_armed" by (auto simp: timely_def demo_armed_timers split: if_splits)
  show "no_wrap demo_armed 1" by (simp add: no_wrap_def demo_armed_def demo_ctrl_def zero_ctrl_def)
qed

subsection \<open>Arming a timer\<close>

text \<open>
  C2: tmrReset refines arming in the countdown specification.  The timer of an armed handle is
  set anew in place; otherwise a block that no other timer uses is armed; when every block is in
  use the result is NULL and nothing changes.  In the first two cases the timer starts at
  mseconds / resolution periods with its function and argument, and no other timer is touched.
\<close>
theorem reset_refines_countdown:
  assumes "ctrl_inv c" and "valid_handle c t" and "handle \<noteq> 0"
    and "0 \<le> ms" and "int_ok ms" and "ms div resolution c div numOfPeriods c < 32768"
    and "no_wrap c (ms div resolution c)"
  shows "\<exists>c' a. tmrReset cb ms param handle (Some t) c = Inr (c', Some a) \<and> ctrl_inv c' \<and>
    (if t \<in> dom (timers c) \<or> card (dom (timers c)) < capacity c
     then a \<noteq> 0 \<and> (t \<in> dom (timers c) \<longrightarrow> a = t) \<and> (t \<notin> dom (timers c) \<longrightarrow> a \<notin> dom (timers c))
       \<and> timers c' = (timers c)(a \<mapsto> (ms div resolution c, cb, param))
     else a = 0 \<and> c' = c)"
proof -
  from assms(1) obtain p L where w: "wheel {} c p L" by (auto simp: ctrl_inv_def)
  note d = wheelD(3,5) [OF w]
  have per: "ms sdiv resolution c = ms div resolution c" "0 \<le> ms div resolution c"
    using assms(4) d by (simp_all add: sdiv_nonneg pos_imp_zdiv_nonneg_iff)
  have start: "start_count c (ms sdiv resolution c) = ms div resolution c"
    unfolding per(1) by (rule start_count_exact) (use assms per d in simp_all)
  from tmrReset_step [OF assms(1-3,5), of cb param] obtain c' a where
    r: "tmrReset cb ms param handle (Some t) c = Inr (c', Some a)" "chosen c t a" "ctrl_inv c'"
      "if a = 0 then c' = c else timers c' = (timers c)(a \<mapsto> (ms div resolution c, cb, param))"
    by (auto simp: start)
  have "0 \<notin> dom (timers c)"
    using dom_timers [OF w] allocated_subset [of p] block_addrs_nonzero [OF wheelD(2) [OF w]] by blast
  with r show ?thesis by (intro exI [of _ c'] exI [of _ a]) (auto simp: chosen_def split: if_splits)
qed

theorem reset_refines_countdown_witness:
  "\<exists>c' a. tmrReset 78 20 6 1000 (Some 4096) demo_armed = Inr (c', Some a) \<and> ctrl_inv c' \<and>
    (if 4096 \<in> dom (timers demo_armed) \<or> card (dom (timers demo_armed)) < capacity demo_armed
     then a \<noteq> 0 \<and> (4096 \<in> dom (timers demo_armed) \<longrightarrow> a = 4096)
       \<and> (4096 \<notin> dom (timers demo_armed) \<longrightarrow> a \<notin> dom (timers demo_armed))
       \<and> timers c' = (timers demo_armed)(a \<mapsto> (20 div resolution demo_armed, 78, 6))
     else a = 0 \<and> c' = demo_armed)"
proof (rule reset_refines_countdown)
  show "ctrl_inv demo_armed" "valid_handle demo_armed 4096"
    using demo_armed_clients by (simp_all add: clients_ok_def live_def)
qed (simp_all add: demo_armed_def demo_ctrl_def zero_ctrl_def int_ok_def no_wrap_def)

subsection \<open>A timer is called on time\<close>

text \<open>
  C1: an armed timer with r periods to go is called at exactly the alarm it is due at, and not
  before, whatever other clients do in between: over any run of alarms and of tmrReset calls
  that do not name it, it is called by none of the first due_alarm - 1 alarms, and the next
  alarm calls it once, with its function and argument, and disarms it.
\<close>
theorem timer_fires_on_time:
  assumes "timer_run (c, H) es (c1, H1)" and "clients_ok (c, H)"
    and "timers c a = Some (r, f, q)" and "0 \<le> r" and "f \<noteq> 0" and "no_wrap c (r + 1)"
    and "int (alarms es) = due_alarm c r - 1" and "\<forall>b. Armed a b \<notin> set es"
  shows "a \<notin> \<Union> (called ` set es)
    \<and> (\<exists>c2 evs. tick_ctrl c1 = Inr (c2, evs) \<and> timers c2 a = None
         \<and> {(f', q'). (f', q', a) \<in> set evs} = {(f, q)} \<and> distinct (map (\<lambda>(f, q, a). a) evs))"
proof (rule due_timer_fires [OF assms(1,2)])
  show "due_in (int (alarms es) + 1) f q a (fst (c, H))"
    using assms(3,4,6,7) by (auto simp: due_in_def)
qed (use assms(5,8) in simp_all)

theorem timer_fires_on_time_witness:
  "4096 \<notin> \<Union> (called ` set [Alarm [], Alarm []])
    \<and> (\<exists>c2 evs. tick_ctrl (demo_armed\<lparr>periodsFromStart := 2\<rparr>) = Inr (c2, evs) \<and> timers c2 4096 = None
         \<and> {(f', q'). (f', q', 4096) \<in> set evs} = {(77, 5)} \<and> distinct (map (\<lambda>(f, q, a). a) evs))"
  by (rule timer_fires_on_time [OF demo_armed_run demo_armed_clients, of _ 2])
     (simp_all add: demo_armed_timers due_alarm_def to_period_def no_wrap_def,
      simp_all add: demo_armed_def demo_ctrl_def zero_ctrl_def)

text \<open>
  C16: from tmrReset to the call.  A timer armed for mseconds on a controller whose period is a
  multiple of the tick is called at an alarm that lies more than mseconds - resolution and at
  most mseconds + resolution after the call of tmrReset: alarm number due_alarm, one every 5 ms.
\<close>
theorem timer_called_within_resolution:
  assumes ok: "clients_ok (c, H)" and t: "t \<in> H" and h: "handle \<noteq> 0"
    and ms: "0 \<le> ms" "int_ok ms" "ms div resolution c div numOfPeriods c < 32768"
    and nw: "no_wrap c (ms div resolution c + 1)"
    and res: "resolution c = MSECONDS_PER_TICK * maxTicks c" and tk: "ticks c < maxTicks c"
    and cb: "cb \<noteq> 0"
    and arm: "tmrReset cb ms param handle (Some t) c = Inr (c', Some a)" "a \<noteq> 0"
    and run: "timer_run (c', insert a H) es (c1, H1)" "\<forall>b. Armed a b \<notin> set es"
    and n: "int (alarms es) + 1 = due_alarm c (ms div resolution c)"
  shows "a \<notin> \<Union> (called ` set es)
    \<and> (\<exists>c2 evs. tick_ctrl c1 = Inr (c2, evs) \<and> {(f, q). (f, q, a) \<in> set evs} = {(cb, param)})
    \<and> ms - resolution c < MSECONDS_PER_TICK * (int (alarms es) + 1)
    \<and> MSECONDS_PER_TICK * (int (alarms es) + 1) \<le> ms + resolution c"
proof -
  let ?R = "resolution c" and ?d = "ms div resolution c"
  have l: "ctrl_inv c" "valid_handle c t" "0 < maxTicks c" "0 \<le> ticks c"
    using ok t by (simp_all add: clients_ok_def live_def)
  from l(1) obtain p L where w: "wheel {} c p L" by (auto simp: ctrl_inv_def)
  note N = wheelD(3,5) [OF w]
  have d: "0 \<le> ?d" "ms sdiv ?R = ?d" using ms N by (simp_all add: sdiv_nonneg pos_imp_zdiv_nonneg_iff)
  have start: "start_count c (ms sdiv ?R) = ?d"
    unfolding d(2) using N(1) d(1) ms(3) no_wrap_le [OF nw, of ?d] by (intro start_count_exact) simp_all
  from tmrReset_step [OF l(1,2) h ms(2), of cb param] arm start have
    tm: "timers c' a = Some (?d, cb, param)" and cfg: "same_config c c'"
      "periodsFromStart c' = periodsFromStart c" by auto
  have st: "timer_step (c, H) (Armed t a) (c', insert a H)"
    using h t ms(2) arm(1) by (rule timer_step.reset)
  have ok': "clients_ok (c', insert a H)" using timer_step_ok [OF st ok] by blast
  have due: "due_alarm c' ?d = due_alarm c ?d" "no_wrap c' (?d + 1)"
    using cfg nw by (simp_all add: due_alarm_def to_period_def same_config_def no_wrap_def)
  have "due_in (int (alarms es) + 1) cb param a (fst (c', insert a H))"
    using tm d(1) due n by (auto simp: due_in_def)
  note fires = due_timer_fires [OF run(1) ok' this cb run(2)]
  have "due_alarm c ?d = maxTicks c - ticks c + ?d * maxTicks c"
    using tk by (simp add: due_alarm_def to_period_def)
  then have time: "MSECONDS_PER_TICK * (int (alarms es) + 1) = ?R - 5 * ticks c + ?d * ?R"
    using n res by (simp add: MSECONDS_PER_TICK_def algebra_simps)
  have "5 * ticks c < ?R" using tk res by (simp add: MSECONDS_PER_TICK_def)
  moreover have "?d * ?R \<le> ms" "ms < ?d * ?R + ?R"
    using div_mult_mod_eq [of ms ?R] pos_mod_sign [OF N(2), of ms] pos_mod_bound [OF N(2), of ms]
    by linarith+
  ultimately have "ms - ?R < MSECONDS_PER_TICK * (int (alarms es) + 1)"
    "MSECONDS_PER_TICK * (int (alarms es) + 1) \<le> ms + ?R"
    using l(4) unfolding time by linarith+
  with fires show ?thesis by blast
qed

theorem timer_called_within_resolution_witness:
  "4096 \<notin> \<Union> (called ` set [Alarm [], Alarm []])
    \<and> (\<exists>c2 evs. tick_ctrl (demo_armed\<lparr>periodsFromStart := 2\<rparr>) = Inr (c2, evs)
         \<and> {(f, q). (f, q, 4096) \<in> set evs} = {(77, 5)})
    \<and> 10 - resolution demo_ctrl < MSECONDS_PER_TICK * (int (alarms [Alarm [], Alarm []]) + 1)
    \<and> MSECONDS_PER_TICK * (int (alarms [Alarm [], Alarm []]) + 1) \<le> 10 + resolution demo_ctrl"
  by (rule timer_called_within_resolution [OF demo_clients _ _ _ _ _ _ _ _ _ demo_arm _ demo_armed_run])
     (simp_all add: int_ok_def no_wrap_def due_alarm_def to_period_def MSECONDS_PER_TICK_def
        demo_ctrl_def zero_ctrl_def)

end
