(* ===== verification/ModuleProps.thy ===== *)
theory ModuleProps
  imports TimerDemo
begin

section \<open>Properties of the timer module\<close>

text \<open>
  Set-up, the controller under arbitrary clients, and the alarm thread.
\<close>

text \<open>The answers that the closed examples give to \<open>tmrInit\<close>.\<close>

definition demo_init_env :: init_env where
  "demo_init_env = \<lparr>pool_env = \<lparr>struct_ok = True, pool_mem = 4096, list_ok = True, junk = (\<lambda>_. zero_obj),
                list_junk = (\<lambda>_. 0)\<rparr>,
                    slots_ok = True, rnd = 0\<rparr>"

lemma wheel_empty_timers:
  assumes "wheel {} c p (\<lambda>_. [])"
  shows "timers c = Map.empty"
  using dom_timers [OF assms] wheelD(9) [OF assms] by simp

lemma tmrInit_live_rand:
  assumes "base \<noteq> 0" and "cs \<noteq> []" and "- 9 < maxNum" "64 * (maxNum + 10) < 2147483648"
    and "struct_ok (pool_env env)" "0 < pool_mem (pool_env env)" "list_ok (pool_env env)"
      "slots_ok env" "0 \<le> rnd env" "int_ok (rnd env)"
    and "int_ok r" "int_ok l" and rn: "int_ok (rnd env div (eff_resolution r div 5) + 1)"
  shows "\<exists>c. tmrInit base env maxNum r l lbl cs = Inr (base, c # tl cs)
    \<and> live c \<and> timers c = Map.empty \<and> capacity c = nat (maxNum + 10)
    \<and> resolution c = eff_resolution r \<and> maxTicks c = eff_resolution r div 5
    \<and> numOfPeriods c = max 10 (l sdiv eff_resolution r) \<and> periodsFromStart c = 0
    \<and> ticks c = rnd env div (eff_resolution r div 5) \<and> label c = strncpy label_size lbl"
proof -
  from tmrInit_ok [OF assms(2-12), of base lbl] obtain c p where
    c: "tmrInit base env maxNum r l lbl cs = Inr (base, c # tl cs)" "wheel {} c p (\<lambda>_. [])"
      "numOfBlock p = maxNum + 10" "signature c = base" "resolution c = eff_resolution r"
      "numOfPeriods c = max 10 (l sdiv eff_resolution r)" "maxTicks c = eff_resolution r div 5"
      "ticks c = rnd env div (eff_resolution r div 5)" "periodsFromStart c = 0"
      "label c = strncpy label_size lbl" by blast
  note R = eff_resolution_bounds [OF assms(11)]
  have mt: "0 < eff_resolution r div 5" "int_ok (eff_resolution r div 5)"
    using R int_ok_div [of "eff_resolution r" 5] by linarith+
  have "0 \<le> ticks c"
    using assms(9) mt(1) by (simp add: c(8) pos_imp_zdiv_nonneg_iff)
  moreover have "int_ok (ticks c + 1)" using rn by (simp add: c(8))
  ultimately have "live c" using c mt assms(1) by (auto simp: live_def ctrl_inv_def)
  moreover have "capacity c = nat (maxNum + 10)"
    using card_block_addrs [OF wheelD(2) [OF c(2)]] by (simp add: capacity_def pool_blocks_wheel [OF c(2)] c(3))
  ultimately show ?thesis using c wheel_empty_timers [OF c(2)] by blast
qed

lemma tmrInit_live:
  assumes "base \<noteq> 0" and "cs \<noteq> []" and "- 9 < maxNum" "64 * (maxNum + 10) < 2147483648"
    and "struct_ok (pool_env env)" "0 < pool_mem (pool_env env)" "list_ok (pool_env env)"
      "slots_ok env" "0 \<le> rnd env" "rnd env < 2147483647"
    and "int_ok r" "int_ok l"
  shows "\<exists>c. tmrInit base env maxNum r l lbl cs = Inr (base, c # tl cs)
    \<and> live c \<and> timers c = Map.empty \<and> capacity c = nat (maxNum + 10)
    \<and> resolution c = eff_resolution r \<and> maxTicks c = eff_resolution r div 5
    \<and> numOfPeriods c = max 10 (l sdiv eff_resolution r) \<and> periodsFromStart c = 0
    \<and> ticks c = rnd env div (eff_resolution r div 5) \<and> label c = strncpy label_size lbl"
proof -
  have R: "1 \<le> eff_resolution r div 5" using eff_resolution_bounds [OF assms(11)] by linarith
  have "0 \<le> rnd env div (eff_resolution r div 5)"
    using assms(9) R by (simp add: pos_imp_zdiv_nonneg_iff)
  moreover have "rnd env div (eff_resolution r div 5) \<le> rnd env"
    using assms(9) R by (intro div_le_self_int) linarith+
  ultimately have "int_ok (rnd env div (eff_resolution r div 5) + 1)" and "int_ok (rnd env)"
    using assms(9,10) by (auto intro!: int_okI)
  then show ?thesis using assms by (intro tmrInit_live_rand)
qed

lemma ctrl_inv_count:
  assumes "ctrl_inv c"
  shows "numOfTmrs c = int (card (dom (timers c)))" and "card (dom (timers c)) \<le> capacity c"
proof -
  from assms obtain p L where w: "wheel {} c p L" by (auto simp: ctrl_inv_def)
  show "numOfTmrs c = int (card (dom (timers c)))"
    using wheelD(11) [OF w] by (simp add: dom_timers [OF w])
  show "card (dom (timers c)) \<le> capacity c"
    unfolding dom_timers [OF w] capacity_def pool_blocks_wheel [OF w]
    by (intro card_mono) (simp_all add: allocated_subset)
qed

text \<open>
  C4: a controller made by tmrInit stays well-formed under every sequence of alarms and tmrReset
  calls, with any int period and any handle (NULL, or one that tmrReset returned at some time).
  Its count of timers is the number of armed timers and never exceeds the pool; and no next
  alarm and no next tmrReset can meet undefined behaviour.
\<close>
theorem controller_safe:
  assumes "base \<noteq> 0" and "cs \<noteq> []" and "- 9 < maxNum" "64 * (maxNum + 10) < 2147483648"
    and "struct_ok (pool_env env)" "0 < pool_mem (pool_env env)" "list_ok (pool_env env)"
      "slots_ok env" "0 \<le> rnd env" "rnd env < 2147483647"
    and "int_ok r" "int_ok l"
  shows "\<exists>c. tmrInit base env maxNum r l lbl cs = Inr (base, c # tl cs) \<and>
    (\<forall>es c1 H1. timer_run (c, {0}) es (c1, H1) \<longrightarrow>
       ctrl_inv c1 \<and> numOfTmrs c1 = int (card (dom (timers c1)))
       \<and> numOfTmrs c1 \<le> maxNum + 10
       \<and> (\<exists>c2 evs. tick_ctrl c1 = Inr (c2, evs))
       \<and> (\<forall>t\<in>H1. \<forall>cb ms param. int_ok ms \<longrightarrow>
            (\<exists>c2 a. tmrReset cb ms param base (Some t) c1 = Inr (c2, Some a))))"
proof -
  from tmrInit_live [OF assms, of lbl] obtain c where
    c: "tmrInit base env maxNum r l lbl cs = Inr (base, c # tl cs)" "live c"
      "capacity c = nat (maxNum + 10)" by blast
  have ok: "clients_ok (c, {0})" using c(2) by (simp add: clients_ok_def valid_handle_def)
  have "ctrl_inv c1 \<and> numOfTmrs c1 = int (card (dom (timers c1))) \<and> numOfTmrs c1 \<le> maxNum + 10
       \<and> (\<exists>c2 evs. tick_ctrl c1 = Inr (c2, evs))
       \<and> (\<forall>t\<in>H1. \<forall>cb ms param. int_ok ms \<longrightarrow>
            (\<exists>c2 a. tmrReset cb ms param base (Some t) c1 = Inr (c2, Some a)))"
    if run: "timer_run (c, {0}) es (c1, H1)" for es c1 H1
  proof -
    note r = timer_run_ok [OF run ok]
    then have inv: "ctrl_inv c1" by (simp add: clients_ok_def live_def)
    have "capacity c1 = nat (maxNum + 10)" using r c(3) by (simp add: capacity_def)
    then have "numOfTmrs c1 \<le> maxNum + 10" using ctrl_inv_count [OF inv] assms(3) by linarith
    moreover have "\<exists>c2 evs. tick_ctrl c1 = Inr (c2, evs)"
      using step_enabled(1) [of c1 H1] r by blast
    moreover have "\<exists>c2 a. tmrReset cb ms param base (Some t) c1 = Inr (c2, Some a)"
      if "t \<in> H1" "int_ok ms" for t cb ms param
      using step_enabled(2) [of c1 H1 t base ms] r that assms(1) by blast
    ultimately show ?thesis using inv ctrl_inv_count(1) [OF inv] by blast
  qed
  with c(1) show ?thesis by blast
qed

theorem controller_safe_witness:
  "\<exists>c. tmrInit 1000 demo_init_env 5 100 1000 ''http'' [zero_ctrl Map.empty] = Inr (1000, c # tl [zero_ctrl Map.empty]) \<and>
    (\<forall>es c1 H1. timer_run (c, {0}) es (c1, H1) \<longrightarrow>
       ctrl_inv c1 \<and> numOfTmrs c1 = int (card (dom (timers c1)))
       \<and> numOfTmrs c1 \<le> 5 + 10
       \<and> (\<exists>c2 evs. tick_ctrl c1 = Inr (c2, evs))
       \<and> (\<forall>t\<in>H1. \<forall>cb ms param. int_ok ms \<longrightarrow>
            (\<exists>c2 a. tmrReset cb ms param 1000 (Some t) c1 = Inr (c2, Some a))))"
  by (rule controller_safe) (simp_all add: demo_init_env_def int_ok_def)

text \<open>
  A call of tmrInit, when its allocations succeed, puts an empty controller into the first entry of the
  array and leaves the others alone: the resolution raised to 5 ms at least, one period of
  resolution / 5 ticks, at least ten slots, room for maxNumOfTmrs + 10 timers.  Whatever
  controller was in the entry before is gone, with its timers.
\<close>
theorem init_makes_empty_controller:
  assumes "base \<noteq> 0" and "cs \<noteq> []" and "- 9 < maxNum" "64 * (maxNum + 10) < 2147483648"
    and "struct_ok (pool_env env)" "0 < pool_mem (pool_env env)" "list_ok (pool_env env)"
      "slots_ok env" "0 \<le> rnd env" "rnd env < 2147483647"
    and "int_ok r" "0 \<le> l" "int_ok l"
  shows "\<exists>c. tmrInit base env maxNum r l lbl cs = Inr (base, c # tl cs)
    \<and> ctrl_inv c \<and> timers c = Map.empty \<and> capacity c = nat (maxNum + 10)
    \<and> resolution c = max 5 r \<and> numOfPeriods c = max 10 (l div max 5 r)
    \<and> maxTicks c = max 5 r div 5 \<and> periodsFromStart c = 0"
proof -
  from tmrInit_live [OF assms(1-11,13), of lbl] obtain c where
    c: "tmrInit base env maxNum r l lbl cs = Inr (base, c # tl cs)"
      "live c" "timers c = Map.empty" "capacity c = nat (maxNum + 10)"
      "resolution c = eff_resolution r" "maxTicks c = eff_resolution r div 5"
      "numOfPeriods c = max 10 (l sdiv eff_resolution r)" "periodsFromStart c = 0" by blast
  moreover have "l sdiv eff_resolution r = l div eff_resolution r"
    using eff_resolution_bounds [OF assms(11)] assms(12) by (intro sdiv_nonneg) simp_all
  ultimately show ?thesis by (auto simp: eff_resolution_def live_def)
qed

theorem init_makes_empty_controller_witness:
  "\<exists>c. tmrInit 1000 demo_init_env 5 100 2000 ''http'' [demo_armed] = Inr (1000, c # tl [demo_armed])
    \<and> ctrl_inv c \<and> timers c = Map.empty \<and> capacity c = nat (5 + 10)
    \<and> resolution c = max 5 100 \<and> numOfPeriods c = max 10 (2000 div max 5 100)
    \<and> maxTicks c = max 5 100 div 5 \<and> periodsFromStart c = 0"
  by (rule init_makes_empty_controller) (simp_all add: demo_init_env_def int_ok_def)

subsection \<open>The alarm thread\<close>

lemma tick_entry:
  assumes "entry_ok c"
  shows "\<exists>c' evs. tick_ctrl c = Inr (c', evs) \<and> entry_ok c' \<and> same_setup c c'
    \<and> (signature c = 0 \<longrightarrow> c' = c) \<and> (signature c \<noteq> 0 \<longrightarrow> ticks c < maxTicks c \<longrightarrow>
         0 \<le> ticks c \<and> ticks c' < maxTicks c'
         \<and> ticks c' = (ticks c + 1) mod maxTicks c
         \<and> periodsFromStart c' = periodsFromStart c + word_of_int ((ticks c + 1) div maxTicks c))"
proof (cases "signature c = 0")
  case True
  then show ?thesis using assms by (simp add: tick_ctrl_def)
next
  case False
  then have l: "live c" using assms by (simp add: entry_ok_live)
  then have t: "0 \<le> ticks c" "0 < maxTicks c" by (simp_all add: live_def)
  from l show ?thesis
  proof (cases rule: tick_cases)
    case 1
    then have "ticks c + 1 < maxTicks c" by (auto simp: to_period_def max_def split: if_splits)
    with tick_counts [OF l 1] False t show ?thesis
      by (simp add: entry_ok_live same_setup_def)
  next
    case 2
    from tick_processes [OF l 2] obtain c1 evs where r: "tick_ctrl c = Inr (c1\<lparr>ticks := 0\<rparr>, evs)"
      "live (c1\<lparr>ticks := 0\<rparr>)" "same_setup c c1" "periodsFromStart c1 = periodsFromStart c + 1" by blast
    have "ticks c + 1 = maxTicks c" if "ticks c < maxTicks c"
      using 2 that by (auto simp: to_period_def max_def split: if_splits)
    with r False t show ?thesis
      by (auto simp: entry_ok_live same_setup_def)
  qed
qed

lemma timerLoopFunc_ok:
  "\<forall>c\<in>set cs. entry_ok c \<Longrightarrow> \<exists>cs' evs. timerLoopFunc cs = Inr (cs', evs) \<and> length cs' = length cs
     \<and> (\<forall>i < length cs. \<exists>evs1. tick_ctrl (cs ! i) = Inr (cs' ! i, evs1) \<and> set evs1 \<subseteq> set evs)"
proof (induction cs)
  case (Cons c cs)
  then obtain cs' evs where IH: "timerLoopFunc cs = Inr (cs', evs)" "length cs' = length cs"
    "\<forall>i < length cs. \<exists>evs1. tick_ctrl (cs ! i) = Inr (cs' ! i, evs1) \<and> set evs1 \<subseteq> set evs" by auto
  from tick_entry [of c] Cons.prems obtain c' evs1 where t: "tick_ctrl c = Inr (c', evs1)" by auto
  have "\<exists>evs2. tick_ctrl ((c # cs) ! i) = Inr ((c' # cs') ! i, evs2) \<and> set evs2 \<subseteq> set (evs1 @ evs)"
    if "i < length (c # cs)" for i
    using that t IH(3) by (cases i) fastforce+
  with t IH(1,2) show ?case by auto
qed simp

lemma entries_after:
  assumes "\<forall>c\<in>set cs. entry_ok c" and "timerLoopFunc cs = Inr (cs', evs)"
  shows "\<forall>c\<in>set cs'. entry_ok c" and "length cs' = length cs"
    and "i < length cs \<Longrightarrow> \<exists>evs1. tick_ctrl (cs ! i) = Inr (cs' ! i, evs1)"
proof -
  from timerLoopFunc_ok [OF assms(1)] assms(2) have r: "length cs' = length cs"
    "\<forall>i < length cs. \<exists>evs1. tick_ctrl (cs ! i) = Inr (cs' ! i, evs1) \<and> set evs1 \<subseteq> set evs" by auto
  then show "length cs' = length cs"
    "i < length cs \<Longrightarrow> \<exists>evs1. tick_ctrl (cs ! i) = Inr (cs' ! i, evs1)" by blast+
  show "\<forall>c\<in>set cs'. entry_ok c"
  proof
    fix c
    assume "c \<in> set cs'"
    then obtain i where "i < length cs" "c = cs' ! i" using r(1) by (metis in_set_conv_nth)
    with r(2) tick_entry [of "cs ! i"] assms(1) show "entry_ok c" by fastforce
  qed
qed

text \<open>The number of signals that \<open>sigwait\<close> delivered.\<close>

definition signals :: "int list \<Rightarrow> nat" where
  "signals rs = length (filter (\<lambda>r. r = 0) rs)"

text \<open>A counter that wraps at \<open>m\<close>: its value and its number of wraps after \<open>k + 1\<close> steps.\<close>

lemma mod_count:
  fixes t m k :: int
  assumes "0 < m"
  shows "((t + 1) mod m + k) mod m = (t + (k + 1)) mod m"
    and "(t + 1) div m + ((t + 1) mod m + k) div m = (t + (k + 1)) div m"
proof -
  have e: "t + (k + 1) = ((t + 1) mod m + k) + ((t + 1) div m) * m"
    using div_mult_mod_eq [of "t + 1" m] by linarith
  show "((t + 1) mod m + k) mod m = (t + (k + 1)) mod m"
    unfolding mod_add_left_eq by (simp add: add_ac)
  show "(t + 1) div m + ((t + 1) mod m + k) div m = (t + (k + 1)) div m"
    by (subst e, subst div_mult_self1) (use assms in simp_all)
qed

text \<open>What \<open>n\<close> ticks do to a controller: nothing if it is not in use, else they are counted.\<close>

definition counted :: "nat \<Rightarrow> tmr_ctrl_t \<Rightarrow> tmr_ctrl_t \<Rightarrow> bool" where
  "counted n c c' \<longleftrightarrow> (signature c = 0 \<longrightarrow> c' = c)
     \<and> (signature c \<noteq> 0 \<longrightarrow> ticks c < maxTicks c \<longrightarrow>
          ticks c' = (ticks c + int n) mod maxTicks c
          \<and> periodsFromStart c' = periodsFromStart c + word_of_int ((ticks c + int n) div maxTicks c))"

lemma counted_Suc:
  assumes ok: "entry_ok c" and run: "tick_ctrl c = Inr (c1, evs)" and n: "counted n c1 c'"
  shows "counted (Suc n) c c'"
proof (cases "signature c = 0")
  case True
  then show ?thesis using tick_entry [of c] ok run n by (auto simp: counted_def)
next
  case s: False
  show ?thesis
  proof (cases "ticks c < maxTicks c")
    case k: True
    from ok run tick_entry [of c] s k have c1: "same_setup c c1" "ticks c1 < maxTicks c1"
      "ticks c1 = (ticks c + 1) mod maxTicks c" "0 \<le> ticks c"
      "periodsFromStart c1 = periodsFromStart c + word_of_int ((ticks c + 1) div maxTicks c)" by auto
    have m: "0 < maxTicks c" using c1(4) k by simp
    have "ticks c' = (ticks c1 + int n) mod maxTicks c
        \<and> periodsFromStart c' = periodsFromStart c1 + word_of_int ((ticks c1 + int n) div maxTicks c)"
      using n c1(1,2) s by (simp add: same_setup_def counted_def)
    then show ?thesis
      using mod_count [OF m, of "ticks c" "int n"] c1(3,5) s
      by (simp add: counted_def add.assoc flip: of_int_add) (simp add: add_ac)
  qed (use s in \<open>simp add: counted_def\<close>)
qed

lemma processAlarmSignal_counted:
  "\<forall>c\<in>set cs. entry_ok c \<Longrightarrow>
   \<exists>cs' evss. processAlarmSignal rs cs = Inr (cs', evss) \<and> length cs' = length cs
     \<and> (\<forall>c\<in>set cs'. entry_ok c) \<and> length evss = signals rs
     \<and> (\<forall>i < length cs. counted (signals rs) (cs ! i) (cs' ! i))"
proof (induction rs arbitrary: cs)
  case Nil
  have "counted 0 c c" if "c \<in> set cs" for c
    using Nil that by (auto simp: entry_ok_def counted_def)
  then show ?case using Nil by (auto simp: signals_def)
next
  case (Cons r rs)
  show ?case
  proof (cases "r = 0")
    case False
    with Cons.IH [OF Cons.prems] show ?thesis by (simp add: signals_def)
  next
    case True
    from timerLoopFunc_ok [OF Cons.prems] obtain cs1 evs where
      t: "timerLoopFunc cs = Inr (cs1, evs)" by blast
    note e1 = entries_after [OF Cons.prems t]
    from Cons.IH [OF e1(1)] obtain cs' evss where IH: "processAlarmSignal rs cs1 = Inr (cs', evss)"
      "length cs' = length cs1" "\<forall>c\<in>set cs'. entry_ok c" "length evss = signals rs"
      "\<forall>i < length cs1. counted (signals rs) (cs1 ! i) (cs' ! i)" by blast
    have sg: "signals (r # rs) = Suc (signals rs)" using True by (simp add: signals_def)
    have "counted (Suc (signals rs)) (cs ! i) (cs' ! i)" if i: "i < length cs" for i
    proof -
      from e1(3) [OF i] obtain evs1 where "tick_ctrl (cs ! i) = Inr (cs1 ! i, evs1)" by blast
      then show ?thesis using counted_Suc Cons.prems IH(5) e1(2) i by (metis nth_mem)
    qed
    then show ?thesis using True t IH(1-4) e1(2) sg by auto
  qed
qed

lemma processAlarmSignal_ok:
  "\<forall>c\<in>set cs. entry_ok c \<Longrightarrow>
   \<exists>cs' evss. processAlarmSignal rs cs = Inr (cs', evss) \<and> length cs' = length cs
     \<and> (\<forall>c\<in>set cs'. entry_ok c) \<and> length evss = signals rs
     \<and> (\<forall>i < length cs. signature (cs ! i) = 0 \<longrightarrow> cs' ! i = cs ! i)
     \<and> (\<forall>i < length cs. signature (cs ! i) \<noteq> 0 \<longrightarrow> ticks (cs ! i) < maxTicks (cs ! i) \<longrightarrow>
          ticks (cs' ! i) = (ticks (cs ! i) + int (signals rs)) mod maxTicks (cs ! i)
          \<and> periodsFromStart (cs' ! i) = periodsFromStart (cs ! i)
              + word_of_int ((ticks (cs ! i) + int (signals rs)) div maxTicks (cs ! i)))"
  using processAlarmSignal_counted [of cs rs] unfolding counted_def by blast

text \<open>
  C17: the alarm thread on any array whose entries are unused or well-formed meets no undefined
  behaviour, whatever sigwait returns: one round of calls per delivered signal, none for a failed
  wait; unused entries stay as they are; and a controller's periods are counted exactly, one
  every maxTicks signals.
\<close>
theorem alarm_thread_counts_periods:
  assumes "\<forall>c\<in>set cs. entry_ok c"
  shows "\<exists>cs' evss. processAlarmSignal rs cs = Inr (cs', evss) \<and> length cs' = length cs
     \<and> (\<forall>c\<in>set cs'. entry_ok c) \<and> length evss = signals rs
     \<and> (\<forall>i < length cs. signature (cs ! i) = 0 \<longrightarrow> cs' ! i = cs ! i)
     \<and> (\<forall>i < length cs. signature (cs ! i) \<noteq> 0 \<longrightarrow> ticks (cs ! i) < maxTicks (cs ! i) \<longrightarrow>
          ticks (cs' ! i) = (ticks (cs ! i) + int (signals rs)) mod maxTicks (cs ! i)
          \<and> periodsFromStart (cs' ! i) = periodsFromStart (cs ! i)
              + word_of_int ((ticks (cs ! i) + int (signals rs)) div maxTicks (cs ! i)))"
  using assms by (rule processAlarmSignal_ok)

theorem alarm_thread_counts_periods_witness:
  "\<exists>cs' evss. processAlarmSignal [0, 4, 0] [demo_armed, zero_ctrl Map.empty] = Inr (cs', evss)
     \<and> length cs' = length [demo_armed, zero_ctrl Map.empty]
     \<and> (\<forall>c\<in>set cs'. entry_ok c) \<and> length evss = signals [0, 4, 0]
     \<and> (\<forall>i < length [demo_armed, zero_ctrl Map.empty].
          signature ([demo_armed, zero_ctrl Map.empty] ! i) = 0 \<longrightarrow> cs' ! i = [demo_armed, zero_ctrl Map.empty] ! i)
     \<and> (\<forall>i < length [demo_armed, zero_ctrl Map.empty].
          signature ([demo_armed, zero_ctrl Map.empty] ! i) \<noteq> 0 \<longrightarrow>
          ticks ([demo_armed, zero_ctrl Map.empty] ! i) < maxTicks ([demo_armed, zero_ctrl Map.empty] ! i) \<longrightarrow>
          ticks (cs' ! i) = (ticks ([demo_armed, zero_ctrl Map.empty] ! i) + int (signals [0, 4, 0]))
              mod maxTicks ([demo_armed, zero_ctrl Map.empty] ! i)
          \<and> periodsFromStart (cs' ! i) = periodsFromStart ([demo_armed, zero_ctrl Map.empty] ! i)
              + word_of_int ((ticks ([demo_armed, zero_ctrl Map.empty] ! i) + int (signals [0, 4, 0]))
                  div maxTicks ([demo_armed, zero_ctrl Map.empty] ! i)))"
proof (rule alarm_thread_counts_periods)
  have "entry_ok demo_armed" using demo_armed_clients by (simp add: entry_ok_live clients_ok_def)
  then show "\<forall>c\<in>set [demo_armed, zero_ctrl Map.empty]. entry_ok c" by simp
qed

end
