(* ===== verification/TimerMain.thy ===== *)
theory TimerMain
  imports ModuleProps
begin

section \<open>The program: \<open>main\<close>, \<open>test\<close> and the alarm thread\<close>

text \<open>
  \<open>main\<close> initialises the module and calls \<open>test\<close>, which makes a controller, arms three timers
  and returns; then it sleeps for ever.  The alarm thread, once \<open>tmrModuleInit\<close> has created
  it, turns every signal into a tick of the controllers and runs the callbacks that are due.
  A schedule says in which order the two threads go: a turn of the main thread is its next
  call (each call of \<open>tmrReset\<close> takes the controller's mutex; \<open>tmrInit\<close> sets the
  \<open>signature\<close>, without which the alarm thread passes over the controller, last), a turn of the
  alarm thread one return of \<open>sigwait\<close> with all that follows from it.  The callbacks only
  read, so they run after the tick that calls them.
\<close>

text \<open>
  A call of \<open>tmrReset\<close> by \<open>test\<close>, whose controller is the first entry of the array; \<open>t\<close> is
  the caller's variable.
\<close>

definition reset_at ::
  "addr \<Rightarrow> addr \<Rightarrow> int \<Rightarrow> addr \<Rightarrow> addr \<Rightarrow> tmr_ctrl_t list \<Rightarrow> (tmr_ctrl_t list \<times> addr option) res" where
  "reset_at handle cb ms param t cs =
     bindE (arr_get cs 0) (\<lambda>c.
     bindE (tmrReset cb ms param handle (Some t) c) (\<lambda>(c', t').
     bindE (arr_set cs 0 c') (\<lambda>cs'. Inr (cs', t'))))"

text \<open>
  The two callbacks read an \<open>int\<close> through their first argument and print it; the value is
  what they return here.  \<open>stk\<close> is the stack, and \<open>leave_frame\<close> what a function's return
  does to its local variables.
\<close>

definition timerFunc1 :: "int heap \<Rightarrow> addr \<Rightarrow> addr \<Rightarrow> int res" where
  "timerFunc1 stk param tmrId = deref stk param"

definition timerFunc2 :: "int heap \<Rightarrow> addr \<Rightarrow> addr \<Rightarrow> int res" where
  "timerFunc2 stk param tmrId = deref stk param"

definition test_frame :: "addr \<Rightarrow> addr \<Rightarrow> addr \<Rightarrow> int heap \<Rightarrow> int heap" where
  "test_frame i1 i2 i3 stk = stk(i1 \<mapsto> 1, i2 \<mapsto> 2, i3 \<mapsto> 3)"

definition leave_frame :: "addr set \<Rightarrow> int heap \<Rightarrow> int heap" where
  "leave_frame vars stk a = (if a \<in> vars then None else stk a)"

subsection \<open>The two threads\<close>

text \<open>
  What the program does not decide: the address of the array \<open>tmrCtrl\<close>, what the allocations
  and \<open>rand()\<close> answer to \<open>tmrInit\<close>, what \<open>pthread_create\<close> returns, the addresses of the two
  callbacks and of the local variables \<open>id1\<close> to \<open>id3\<close> of \<open>test\<close>.
\<close>

record main_env =
  tmr_base :: addr
  first_env :: init_env
  created :: int
  fun1 :: addr
  fun2 :: addr
  var1 :: addr
  var2 :: addr
  var3 :: addr

text \<open>
  Where the main thread stands: before \<open>tmrModuleInit\<close>, before the call of \<open>tmrInit\<close> in
  \<open>test\<close>, before each call of \<open>tmrReset\<close> (with the local variable \<open>timerHandle\<close>), before
  the return of \<open>test\<close>, in the loop of \<open>sleep\<close>.
\<close>

datatype main_point = Boot | Enter | Reset1 addr | Reset2 addr | Reset3 addr | Leave | Asleep

record main_state =
  ctrls :: "tmr_ctrl_t list"
  alarmed :: bool
  stack :: "int heap"
  main_at :: main_point
  printed :: "int list"

definition main_init :: main_state where
  "main_init = \<lparr>ctrls = replicate maxNumOfTmrCtrl (zero_ctrl Map.empty), alarmed = False,
                stack = Map.empty, main_at = Boot, printed = []\<rparr>"

definition main_step :: "main_env \<Rightarrow> main_state \<Rightarrow> main_state res" where
  "main_step E s = (case main_at s of
     Boot \<Rightarrow> (let (cs, started) = tmrModuleInit (created E) Map.empty
              in Inr (s\<lparr>ctrls := cs, alarmed := started, main_at := Enter\<rparr>))
   | Enter \<Rightarrow> bindE (tmrInit (tmr_base E) (first_env E) 5 100 1000 ''http'' (ctrls s)) (\<lambda>(handle, cs).
       Inr (s\<lparr>ctrls := cs, stack := test_frame (var1 E) (var2 E) (var3 E) (stack s), main_at := Reset1 handle\<rparr>))
   | Reset1 handle \<Rightarrow> bindE (reset_at handle (fun1 E) (1000 * 5) (var1 E) 0 (ctrls s)) (\<lambda>(cs, timer1).
       Inr (s\<lparr>ctrls := cs, main_at := Reset2 handle\<rparr>))
   | Reset2 handle \<Rightarrow> bindE (reset_at handle (fun2 E) (1000 * 10) (var2 E) 0 (ctrls s)) (\<lambda>(cs, timer2).
       Inr (s\<lparr>ctrls := cs, main_at := Reset3 handle\<rparr>))
   | Reset3 handle \<Rightarrow> bindE (reset_at handle (fun2 E) (1000 * 60) (var3 E) 0 (ctrls s)) (\<lambda>(cs, timer3).
       Inr (s\<lparr>ctrls := cs, main_at := Leave\<rparr>))
   | Leave \<Rightarrow> Inr (s\<lparr>stack := leave_frame {var1 E, var2 E, var3 E} (stack s), main_at := Asleep\<rparr>)
   | Asleep \<Rightarrow> Inr s)"

text \<open>The calls of a tick, one after the other; the values they print.\<close>

fun run_calls :: "main_env \<Rightarrow> int heap \<Rightarrow> fire list \<Rightarrow> int list res" where
  "run_calls E stk [] = Inr []"
| "run_calls E stk ((f, q, a) # evs) =
     bindE (if f = fun1 E then timerFunc1 stk q a
            else if f = fun2 E then timerFunc2 stk q a else Inl WildDeref) (\<lambda>x.
     bindE (run_calls E stk evs) (\<lambda>xs. Inr (x # xs)))"

text \<open>One round of the alarm thread, if it exists; \<open>r\<close> is the result of \<open>sigwait\<close>.\<close>

definition alarm_step :: "main_env \<Rightarrow> int \<Rightarrow> main_state \<Rightarrow> main_state res" where
  "alarm_step E r s =
     (if alarmed s \<and> r = 0 then
        bindE (timerLoopFunc (ctrls s)) (\<lambda>(cs, evs).
        bindE (run_calls E (stack s) evs) (\<lambda>xs.
          Inr (s\<lparr>ctrls := cs, printed := printed s @ xs\<rparr>)))
      else Inr s)"

datatype main_turn = MainThread | Signal int

fun take_turn :: "main_env \<Rightarrow> main_turn \<Rightarrow> main_state \<Rightarrow> main_state res" where
  "take_turn E MainThread s = main_step E s"
| "take_turn E (Signal r) s = alarm_step E r s"

fun main_run :: "main_env \<Rightarrow> main_state \<Rightarrow> main_turn list \<Rightarrow> main_state res" where
  "main_run E s [] = Inr s"
| "main_run E s (t # ts) = bindE (take_turn E t s) (\<lambda>s'. main_run E s' ts)"

lemma main_run_append: "main_run E s (ts @ us) = bindE (main_run E s ts) (\<lambda>s'. main_run E s' us)"
  by (induction ts arbitrary: s) (simp_all add: bindE_assoc)

lemma bindE_Inr: "bindE r Inr = r"
  by (cases r) simp_all

subsection \<open>The invariant\<close>

text \<open>What the threads rely on: the allocations succeed, the addresses are addresses.\<close>

definition main_env_ok :: "main_env \<Rightarrow> bool" where
  "main_env_ok E \<longleftrightarrow> tmr_base E \<noteq> 0 \<and> struct_ok (pool_env (first_env E)) \<and> 0 < pool_mem (pool_env (first_env E))
     \<and> list_ok (pool_env (first_env E)) \<and> slots_ok (first_env E)
     \<and> 0 \<le> rnd (first_env E) \<and> rnd (first_env E) \<le> 2147483647
     \<and> fun1 E \<noteq> 0 \<and> fun2 E \<noteq> 0 \<and> 0 \<notin> {var1 E, var2 E, var3 E} \<and> distinct [var1 E, var2 E, var3 E]"

text \<open>Every armed timer has one of the three calls of \<open>test\<close>.\<close>

definition test_calls :: "main_env \<Rightarrow> (addr \<times> addr) set" where
  "test_calls E = {(fun1 E, var1 E), (fun2 E, var2 E), (fun2 E, var3 E)}"

definition test_timers :: "main_env \<Rightarrow> tmr_ctrl_t \<Rightarrow> bool" where
  "test_timers E c \<longleftrightarrow> (\<forall>a r f q. timers c a = Some (r, f, q) \<longrightarrow> (f, q) \<in> test_calls E)"

definition main_inv :: "main_env \<Rightarrow> main_state \<Rightarrow> bool" where
  "main_inv E s \<longleftrightarrow> (\<exists>c cs. ctrls s = c # cs \<and> length cs = 15 \<and> (\<forall>d\<in>set cs. signature d = 0)
     \<and> (if main_at s \<in> {Boot, Enter} then signature c = 0 else live c \<and> test_timers E c))
     \<and> main_at s \<in> {Boot, Enter, Reset1 (tmr_base E), Reset2 (tmr_base E), Reset3 (tmr_base E), Leave, Asleep}
     \<and> (main_at s \<notin> {Boot, Enter, Asleep} \<longrightarrow>
          (\<forall>(f, q)\<in>test_calls E. \<exists>x\<in>{1, 2, 3}. stack s q = Some x))
     \<and> (main_at s = Asleep \<longrightarrow> (\<forall>(f, q)\<in>test_calls E. stack s q = None))
     \<and> set (printed s) \<subseteq> {1, 2, 3}"

subsection \<open>A tick keeps the calls of the timers\<close>

lemma processed_calls:
  assumes "ctrl_inv c" and "tmrProcessList c = Inr (c', evs)" and "timers c' a = Some (r', f, q)"
  shows "\<exists>r. timers c a = Some (r, f, q)"
proof -
  from assms(1) obtain p L where w: "wheel {} c p L" by (auto simp: ctrl_inv_def)
  let ?i = "current_slot c"
  from tmrProcessList_wheel [OF w] assms(2) obtain c0 p' where
    c': "c' = c0\<lparr>periodsFromStart := periodsFromStart c + 1\<rparr>" and sp: "slot_processed ?i c p L c0 p'" by auto
  note sp' = sp [unfolded slot_processed_def]
  have w': "wheel {} c' p' (L(?i := waiting (objs c) (L ?i)))"
    using sp' by (simp add: c' wheel_periodsFromStart)
  from assms(3) obtain ob where a: "a \<in> allocated p'" "objs c0 a = Some ob" "f = fp ob" "q = param1 ob"
    unfolding timers_wheel_Some [OF w'] by (auto simp: c')
  then have ap: "a \<in> allocated p" "a \<notin> set (expired (objs c) (L ?i))" using sp' by blast+
  have "\<exists>ob0. objs c a = Some ob0 \<and> fp ob0 = f \<and> param1 ob0 = q"
  proof (cases "a \<in> set (L ?i)")
    case True
    then have "a \<in> set (waiting (objs c) (L ?i))"
      using ap(2) expired_waiting [of "objs c" "L ?i"] by (metis Un_iff set_append)
    then have "map_option core (objs c0 a) = map_option (\<lambda>ob. core (ob\<lparr>cycle := cycle ob - 1\<rparr>)) (objs c a)"
      using sp' by blast
    then obtain ob0 where ob0: "objs c a = Some ob0" "core ob = core (ob0\<lparr>cycle := cycle ob0 - 1\<rparr>)"
      using a(2) by (cases "objs c a") auto
    from ob0(2) have "fp (core ob) = fp (core (ob0\<lparr>cycle := cycle ob0 - 1\<rparr>))"
      "param1 (core ob) = param1 (core (ob0\<lparr>cycle := cycle ob0 - 1\<rparr>))" by simp_all
    then have "fp ob = fp ob0" "param1 ob = param1 ob0" by (simp_all add: core_def)
    with a ob0(1) show ?thesis by simp
  next
    case False
    then show ?thesis using sp' a by simp
  qed
  with ap(1) show ?thesis by (auto simp: timers_wheel_Some [OF w])
qed

lemma tick_calls:
  assumes "live c"
  shows "\<exists>c' evs. tick_ctrl c = Inr (c', evs) \<and> live c'
    \<and> (\<forall>a r f q. timers c' a = Some (r, f, q) \<longrightarrow> (\<exists>r0. timers c a = Some (r0, f, q)))
    \<and> (\<forall>(f, q, a)\<in>set evs. \<exists>r. timers c a = Some (r, f, q))"
  using assms
proof (cases rule: tick_cases)
  case 1
  with tick_counts [OF assms 1] show ?thesis by simp
next
  case 2
  from tick_processes [OF assms 2] obtain c1 evs where
    t: "tmrProcessList (c\<lparr>ticks := ticks c + 1\<rparr>) = Inr (c1, evs)" "tick_ctrl c = Inr (c1\<lparr>ticks := 0\<rparr>, evs)"
      "live (c1\<lparr>ticks := 0\<rparr>)" "\<forall>f q a. (f, q, a) \<in> set evs \<longrightarrow> (\<exists>r. timers c a = Some (r, f, q) \<and> timers c1 a = None)"
    by blast
  have "ctrl_inv (c\<lparr>ticks := ticks c + 1\<rparr>)" using assms by (simp add: live_def)
  with processed_calls [OF this t(1)] t(2-4) show ?thesis by fastforce
qed

subsection \<open>The steps keep the invariant\<close>

lemma timerLoopFunc_unused: "\<forall>d\<in>set cs. signature d = 0 \<Longrightarrow> timerLoopFunc cs = Inr (cs, [])"
  by (induction cs) (simp_all add: tick_ctrl_def)

lemma timerLoopFunc_first:
  "\<forall>d\<in>set cs. signature d = 0 \<Longrightarrow>
     timerLoopFunc (c # cs) = bindE (tick_ctrl c) (\<lambda>(c', evs). Inr (c' # cs, evs))"
  by (simp add: timerLoopFunc_unused)

lemma reset_at_first:
  assumes l: "live c" and t: "test_timers E c" and h: "tmr_base E \<noteq> 0" and call: "(f, q) \<in> test_calls E"
    and ms: "int_ok ms"
  shows "\<exists>c' t'. reset_at (tmr_base E) f ms q 0 (c # cs) = Inr (c' # cs, t') \<and> live c' \<and> test_timers E c'"
proof -
  have "ctrl_inv c" "valid_handle c 0" using l by (simp_all add: live_def valid_handle_def)
  from tmrReset_step [OF this h ms, of f q] obtain c' a where r:
    "tmrReset f ms q (tmr_base E) (Some 0) c = Inr (c', Some a)" "ctrl_inv c'" "same_config c c'"
    "if a = 0 then c' = c else timers c' = (timers c)(a \<mapsto> (start_count c (ms sdiv resolution c), f, q))" by blast
  moreover have "live c'" using l r(2,3) by (simp add: live_def same_config_def)
  moreover have "test_timers E c'"
    using r(4) t call by (auto simp: test_timers_def split: if_splits)
  ultimately show ?thesis by (simp add: reset_at_def c_simps)
qed

lemma run_calls_frame:
  assumes "\<forall>(f, q, a)\<in>set evs. (f, q) \<in> test_calls E" and "\<forall>(f, q)\<in>test_calls E. q \<noteq> 0 \<and> (\<exists>x\<in>X. stk q = Some x)"
  shows "\<exists>xs. run_calls E stk evs = Inr xs \<and> set xs \<subseteq> X \<and> length xs = length evs"
  using assms
proof (induction evs)
  case (Cons e evs)
  then obtain xs where "run_calls E stk evs = Inr xs" "set xs \<subseteq> X" "length xs = length evs" by auto
  moreover obtain f q a where e: "e = (f, q, a)" by (cases e)
  moreover have c: "(f, q) \<in> test_calls E" using Cons.prems(1) e by simp
  moreover from c Cons.prems(2) obtain x where "q \<noteq> 0" "x \<in> X" "stk q = Some x" by blast
  moreover have "f = fun1 E \<or> f = fun2 E" using c by (auto simp: test_calls_def)
  ultimately show ?case by (auto simp: timerFunc1_def timerFunc2_def deref_def)
qed simp

lemma run_calls_dead:
  assumes "\<forall>(f, q, a)\<in>set evs. (f, q) \<in> test_calls E" and "evs \<noteq> []"
    and "\<forall>(f, q)\<in>test_calls E. q \<noteq> 0 \<and> stk q = None"
  shows "run_calls E stk evs = Inl WildDeref"
proof -
  from assms(2) obtain f q a rest where e: "evs = (f, q, a) # rest" by (cases evs) auto
  with assms(1) have c: "(f, q) \<in> test_calls E" by simp
  with assms(3) have "deref stk q = Inl WildDeref" by (auto simp: deref_def)
  with c show ?thesis by (auto simp: e test_calls_def timerFunc1_def timerFunc2_def)
qed

lemma init_step:
  assumes E: "main_env_ok E"
  shows "\<exists>c. tmrInit (tmr_base E) (first_env E) 5 100 1000 ''http'' (d # cs) = Inr (tmr_base E, c # cs)
    \<and> live c \<and> timers c = Map.empty \<and> capacity c = 15 \<and> resolution c = 100 \<and> maxTicks c = 20
    \<and> numOfPeriods c = 10 \<and> periodsFromStart c = 0 \<and> ticks c = rnd (first_env E) div 20"
proof -
  have R: "eff_resolution 100 = 100" by (simp add: eff_resolution_def)
  have "rnd (first_env E) div 20 \<le> 2147483647 div 20" "0 \<le> rnd (first_env E) div 20"
    using E by (auto simp: main_env_ok_def intro: zdiv_mono1)
  then have "int_ok (rnd (first_env E) div (eff_resolution 100 div 5) + 1)"
    by (simp add: R int_ok_def)
  moreover have "int_ok (rnd (first_env E))" using E by (intro int_okI) (auto simp: main_env_ok_def)
  ultimately show ?thesis
    using tmrInit_live_rand [of "tmr_base E" "d # cs" 5 "first_env E" 100 1000 "''http''"] E
    by (auto simp: main_env_ok_def R int_ok_def sdiv_nonneg)
qed

lemma main_invE:
  assumes "main_inv E s"
  obtains c cs where "ctrls s = c # cs" "length cs = 15" "\<forall>d\<in>set cs. signature d = 0"
    "main_at s \<in> {Boot, Enter} \<Longrightarrow> signature c = 0" "main_at s \<notin> {Boot, Enter} \<Longrightarrow> live c \<and> test_timers E c"
  using assms unfolding main_inv_def by (metis (no_types, lifting))

lemma main_inv_init: "main_inv E main_init"
proof -
  have "replicate maxNumOfTmrCtrl (zero_ctrl Map.empty) = zero_ctrl Map.empty # replicate 15 (zero_ctrl Map.empty)"
    by (simp add: maxNumOfTmrCtrl_def eval_nat_numeral)
  then show ?thesis by (auto simp: main_inv_def main_init_def zero_ctrl_def)
qed

text \<open>A call of \<open>tmrReset\<close> by \<open>test\<close>, whichever of the three it is.\<close>

lemma reset_turn:
  assumes inv: "main_inv E s" and E: "main_env_ok E" and pt: "main_at s \<notin> {Boot, Enter, Asleep}"
    and call: "(f, q) \<in> test_calls E" and ms: "int_ok ms"
    and nx: "pt' \<in> {Reset2 (tmr_base E), Reset3 (tmr_base E), Leave}"
  shows "\<exists>cs' t'. reset_at (tmr_base E) f ms q 0 (ctrls s) = Inr (cs', t')
    \<and> main_inv E (s\<lparr>ctrls := cs', main_at := pt'\<rparr>)"
proof -
  from inv obtain c cs where c: "ctrls s = c # cs" "length cs = 15" "\<forall>d\<in>set cs. signature d = 0"
    "main_at s \<notin> {Boot, Enter} \<Longrightarrow> live c \<and> test_timers E c"
    by (rule main_invE) blast
  have b: "tmr_base E \<noteq> 0" using E by (simp add: main_env_ok_def)
  from c(4) pt have "live c" "test_timers E c" by simp_all
  from reset_at_first [OF this b call ms, of cs] obtain c' t' where
    "reset_at (tmr_base E) f ms q 0 (c # cs) = Inr (c' # cs, t')" "live c'" "test_timers E c'" by blast
  with c(1-3) inv pt nx show ?thesis by (auto simp: main_inv_def)
qed

lemma main_step_ok:
  assumes inv: "main_inv E s" and E: "main_env_ok E"
  shows "\<exists>s'. main_step E s = Inr s' \<and> main_inv E s'"
proof -
  from inv obtain c cs where c: "ctrls s = c # cs" "length cs = 15" "\<forall>d\<in>set cs. signature d = 0"
    "main_at s \<in> {Boot, Enter} \<Longrightarrow> signature c = 0" "main_at s \<notin> {Boot, Enter} \<Longrightarrow> live c \<and> test_timers E c"
    by (rule main_invE) blast
  have calls: "(fun1 E, var1 E) \<in> test_calls E" "(fun2 E, var2 E) \<in> test_calls E" "(fun2 E, var3 E) \<in> test_calls E"
    by (simp_all add: test_calls_def)
  have vars: "\<forall>(f, q)\<in>test_calls E. \<exists>x\<in>{1, 2, 3}. test_frame (var1 E) (var2 E) (var3 E) stk q = Some x" for stk
    using E by (auto simp: test_calls_def test_frame_def main_env_ok_def)
  have out: "set (printed s) \<subseteq> {1, 2, 3}" using inv by (simp add: main_inv_def)
  show ?thesis
  proof (cases "main_at s")
    case Boot
    then show ?thesis using main_inv_init [of E] out
      by (auto simp: main_step_def tmrModuleInit_def main_inv_def main_init_def)
  next
    case Enter
    from init_step [OF E, of c cs] obtain c' where
      "tmrInit (tmr_base E) (first_env E) 5 100 1000 ''http'' (c # cs) = Inr (tmr_base E, c' # cs)"
      "live c'" "timers c' = Map.empty" by blast
    with Enter c vars [of "stack s"] out show ?thesis
      by (simp add: main_step_def main_inv_def test_timers_def)
  next
    case (Reset1 h)
    then have "h = tmr_base E" using inv by (simp add: main_inv_def)
    with Reset1 reset_turn [OF inv E _ calls(1), of 5000 "Reset2 h"] show ?thesis
      by (auto simp: main_step_def int_ok_def)
  next
    case (Reset2 h)
    then have "h = tmr_base E" using inv by (simp add: main_inv_def)
    with Reset2 reset_turn [OF inv E _ calls(2), of 10000 "Reset3 h"] show ?thesis
      by (auto simp: main_step_def int_ok_def)
  next
    case (Reset3 h)
    then have "h = tmr_base E" using inv by (simp add: main_inv_def)
    with Reset3 reset_turn [OF inv E _ calls(3), of 60000 Leave] show ?thesis
      by (auto simp: main_step_def int_ok_def)
  next
    case Leave
    with c out show ?thesis by (auto simp: main_step_def main_inv_def test_calls_def leave_frame_def)
  next
    case Asleep
    with inv show ?thesis by (simp add: main_step_def)
  qed
qed

text \<open>A round of the alarm thread: it fails exactly when it calls a timer after \<open>test\<close> has returned.\<close>

lemma alarm_step_ok:
  assumes inv: "main_inv E s" and E: "main_env_ok E"
  shows "\<exists>cs evs. timerLoopFunc (ctrls s) = Inr (cs, evs) \<and>
    (if alarmed s \<and> r = 0 \<and> main_at s = Asleep \<and> evs \<noteq> [] then alarm_step E r s = Inl WildDeref
     else \<exists>s'. alarm_step E r s = Inr s' \<and> main_inv E s')"
proof -
  from inv obtain c cs where c: "ctrls s = c # cs" "length cs = 15" "\<forall>d\<in>set cs. signature d = 0"
    "main_at s \<in> {Boot, Enter} \<Longrightarrow> signature c = 0" "main_at s \<notin> {Boot, Enter} \<Longrightarrow> live c \<and> test_timers E c"
    by (rule main_invE) blast
  have vars: "\<forall>(f, q)\<in>test_calls E. q \<noteq> 0" using E by (auto simp: test_calls_def main_env_ok_def)
  show ?thesis
  proof (cases "main_at s \<in> {Boot, Enter}")
    case True
    with c(4) have "timerLoopFunc (ctrls s) = Inr (ctrls s, [])"
      using c(3) by (intro timerLoopFunc_unused) (simp add: c(1))
    with True inv show ?thesis by (auto simp: alarm_step_def)
  next
    case False
    with c(5) have l: "live c" "test_timers E c" by simp_all
    from tick_calls [OF l(1)] obtain c' evs where t: "tick_ctrl c = Inr (c', evs)" "live c'"
      "\<forall>a r f q. timers c' a = Some (r, f, q) \<longrightarrow> (\<exists>r0. timers c a = Some (r0, f, q))"
      "\<forall>(f, q, a)\<in>set evs. \<exists>r. timers c a = Some (r, f, q)" by blast
    have loop: "timerLoopFunc (ctrls s) = Inr (c' # cs, evs)"
      unfolding c(1) timerLoopFunc_first [OF c(3)] by (simp add: t(1))
    have known: "\<forall>(f, q, a)\<in>set evs. (f, q) \<in> test_calls E" using t(4) l(2) by (fastforce simp: test_timers_def)
    have t': "test_timers E c'" using t(3) l(2) by (fastforce simp: test_timers_def)
    have keeps: "main_inv E (s\<lparr>ctrls := c' # cs, printed := printed s @ xs\<rparr>)" if "set xs \<subseteq> {1, 2, 3}" for xs
      using inv c(2,3) t(2) t' that False by (auto simp: main_inv_def)
    show ?thesis
    proof (cases "main_at s = Asleep")
      case True
      then have "\<forall>(f, q)\<in>test_calls E. q \<noteq> 0 \<and> stack s q = None"
        using inv vars by (auto simp: main_inv_def)
      with run_calls_dead [OF known] have "evs \<noteq> [] \<Longrightarrow> run_calls E (stack s) evs = Inl WildDeref" by blast
      with True loop keeps [of "[]"] inv show ?thesis by (auto simp: alarm_step_def)
    next
      case awake: False
      then have "\<forall>(f, q)\<in>test_calls E. q \<noteq> 0 \<and> (\<exists>x\<in>{1, 2, 3}. stack s q = Some x)"
        using inv vars False by (auto simp: main_inv_def)
      from run_calls_frame [OF known this] obtain xs where
        "run_calls E (stack s) evs = Inr xs" "set xs \<subseteq> {1, 2, 3}" by blast
      with awake loop keeps [of xs] inv show ?thesis by (auto simp: alarm_step_def)
    qed
  qed
qed

lemma main_run_inv:
  assumes "main_env_ok E"
  shows "main_run E s ts = Inr s' \<Longrightarrow> main_inv E s \<Longrightarrow> main_inv E s'"
proof (induction ts arbitrary: s)
  case (Cons t ts)
  from Cons.prems(1) obtain s1 where s1: "take_turn E t s = Inr s1" "main_run E s1 ts = Inr s'"
    by (auto simp: bindE_eq_Inr_iff)
  have "main_inv E s1"
  proof (cases t)
    case MainThread
    with s1(1) main_step_ok [OF Cons.prems(2) assms] show ?thesis by auto
  next
    case (Signal r)
    with s1(1) alarm_step_ok [OF Cons.prems(2) assms, of r] show ?thesis by (auto split: if_splits)
  qed
  with Cons.IH s1(2) show ?case by blast
qed simp

subsection \<open>The alarm at which the program ends\<close>

text \<open>The three timers of \<open>test\<close>, the first of them called at the \<open>m\<close>-th alarm from now.\<close>

definition counting :: "main_env \<Rightarrow> int \<Rightarrow> tmr_ctrl_t \<Rightarrow> bool" where
  "counting E m c \<longleftrightarrow> live c \<and> (\<exists>t1 t2 t3. dom (timers c) \<subseteq> {t1, t2, t3}
     \<and> due_in m (fun1 E) (var1 E) t1 c \<and> due_in (m + 1000) (fun2 E) (var2 E) t2 c
     \<and> due_in (m + 11000) (fun2 E) (var3 E) t3 c)"

lemma counting_tick:
  assumes cn: "counting E m c" and m: "1 \<le> m" and f: "fun1 E \<noteq> 0"
  shows "\<exists>c' evs. tick_ctrl c = Inr (c', evs)
    \<and> (if m = 1 then evs \<noteq> [] else evs = [] \<and> counting E (m - 1) c')"
proof -
  from cn obtain t1 t2 t3 where l: "live c" and dm: "dom (timers c) \<subseteq> {t1, t2, t3}"
    and due: "due_in m (fun1 E) (var1 E) t1 c" "due_in (m + 1000) (fun2 E) (var2 E) t2 c"
      "due_in (m + 11000) (fun2 E) (var3 E) t3 c" unfolding counting_def by blast
  have ok: "clients_ok (c, {0})" using l by (simp add: clients_ok_def valid_handle_def)
  from tick_calls [OF l] obtain c' evs where t: "tick_ctrl c = Inr (c', evs)" "live c'"
    "\<forall>a r f q. timers c' a = Some (r, f, q) \<longrightarrow> (\<exists>r0. timers c a = Some (r0, f, q))"
    "\<forall>(f, q, a)\<in>set evs. \<exists>r. timers c a = Some (r, f, q)" by blast
  then have st: "timer_step (c, {0}) (Alarm evs) (c', {0})" by (intro timer_step.intros)
  note d = alarm_due_in [OF ok st due(1)] alarm_due_in [OF ok st due(2)] alarm_due_in [OF ok st due(3)]
  show ?thesis
  proof (cases "m = 1")
    case True
    with d(1) f have "(fun1 E, var1 E, t1) \<in> set evs" by simp
    with t(1) True show ?thesis by auto
  next
    case False
    with m have ne: "m + 1000 \<noteq> 1" "m + 11000 \<noteq> 1"
      and eq: "m + 1000 - 1 = m - 1 + 1000" "m + 11000 - 1 = m - 1 + 11000" by linarith+
    have d': "due_in (m - 1) (fun1 E) (var1 E) t1 c'" "t1 \<notin> called (Alarm evs)"
      using d(1) unfolding if_not_P [OF False] by blast+
    have d2: "due_in (m - 1 + 1000) (fun2 E) (var2 E) t2 c'" "t2 \<notin> called (Alarm evs)"
      using d(2) unfolding if_not_P [OF ne(1)] eq by blast+
    have d3: "due_in (m - 1 + 11000) (fun2 E) (var3 E) t3 c'" "t3 \<notin> called (Alarm evs)"
      using d(3) unfolding if_not_P [OF ne(2)] eq by blast+
    have "evs = []"
    proof (cases evs)
      case (Cons e es)
      obtain g q a where e: "e = (g, q, a)" by (cases e)
      then have "a \<in> called (Alarm evs)" by (simp add: Cons)
      moreover have "\<exists>r. timers c a = Some (r, g, q)" using t(4) by (simp add: Cons e)
      then have "a \<in> {t1, t2, t3}" using dm by blast
      ultimately show ?thesis using d'(2) d2(2) d3(2) by blast
    qed simp
    moreover have "dom (timers c') \<subseteq> {t1, t2, t3}" using t(3) dm by (fastforce simp: dom_def)
    ultimately have "evs = [] \<and> counting E (m - 1) c'"
      using t(2) d'(1) d2(1) d3(1) unfolding counting_def by blast
    with t(1) False show ?thesis by simp
  qed
qed

lemma main_counts_down:
  assumes E: "main_env_ok E"
  shows "main_inv E s \<Longrightarrow> alarmed s \<Longrightarrow> main_at s = Asleep \<Longrightarrow> counting E m (hd (ctrls s)) \<Longrightarrow> 1 \<le> m \<Longrightarrow>
    main_run E s (replicate n (Signal 0)) = Inl WildDeref \<longleftrightarrow> m \<le> int n"
proof (induction n arbitrary: s m)
  case (Suc n)
  from Suc.prems(1) obtain c cs where c: "ctrls s = c # cs" "\<forall>d\<in>set cs. signature d = 0"
    by (rule main_invE) blast
  from counting_tick [of E m c] Suc.prems(4,5) E c(1) obtain c' evs where t: "tick_ctrl c = Inr (c', evs)"
    "if m = 1 then evs \<noteq> [] else evs = [] \<and> counting E (m - 1) c'" by (auto simp: main_env_ok_def)
  have loop: "timerLoopFunc (ctrls s) = Inr (c' # cs, evs)"
    unfolding c(1) timerLoopFunc_first [OF c(2)] by (simp add: t(1))
  show ?case
  proof (cases "m = 1")
    case True
    with t(2) alarm_step_ok [OF Suc.prems(1) E, of 0] Suc.prems(2,3) loop
    have "alarm_step E 0 s = Inl WildDeref" by auto
    with True show ?thesis by simp
  next
    case False
    let ?s = "s\<lparr>ctrls := c' # cs\<rparr>"
    from False t(2) loop Suc.prems(2) have st: "alarm_step E 0 s = Inr ?s" by (simp add: alarm_step_def)
    with alarm_step_ok [OF Suc.prems(1) E, of 0] have "main_inv E ?s" by (auto split: if_splits)
    from Suc.IH [OF this, of "m - 1"] Suc.prems(2,3,5) False t(2) st show ?thesis by auto
  qed
qed simp

lemma main_settled:
  assumes E: "main_env_ok E"
  defines "m \<equiv> 1000 + max 1 (20 - rnd (first_env E) div 20)"
  shows "\<exists>s. main_run E main_init (replicate 6 MainThread) = Inr s \<and> main_at s = Asleep
    \<and> alarmed s = (created E = 0) \<and> counting E m (hd (ctrls s))"
proof -
  let ?b = "tmr_base E"
  define cs where "cs = replicate 15 (zero_ctrl Map.empty)"
  have all: "replicate maxNumOfTmrCtrl (zero_ctrl Map.empty) = zero_ctrl Map.empty # cs"
    by (simp add: cs_def maxNumOfTmrCtrl_def eval_nat_numeral)
  have b: "?b \<noteq> 0" using E by (simp add: main_env_ok_def)
  from init_step [OF E, of "zero_ctrl Map.empty" cs] obtain c where
    c: "tmrInit ?b (first_env E) 5 100 1000 ''http'' (zero_ctrl Map.empty # cs) = Inr (?b, c # cs)"
      "live c" "timers c = Map.empty" "capacity c = 15" "resolution c = 100" "maxTicks c = 20"
      "numOfPeriods c = 10" "periodsFromStart c = 0" "ticks c = rnd (first_env E) div 20" by blast
  have ok: "int_ok 5000" "int_ok 10000" "int_ok 60000" by (simp_all add: int_ok_def)
  from arm_null [OF c(2) _ b _ ok(1), of "fun1 E" "var1 E"] c obtain c1 t1 where
    c1: "tmrReset (fun1 E) 5000 (var1 E) ?b (Some 0) c = Inr (c1, Some t1)" "live c1"
      "timers c1 = [t1 \<mapsto> (50, fun1 E, var1 E)]" "same_config c c1" "periodsFromStart c1 = 0" "capacity c1 = 15"
    by (auto simp: no_wrap_def capacity_def)
  from c1(4) c have g1: "resolution c1 = 100" "numOfPeriods c1 = 10" by (simp_all add: same_config_def)
  from arm_null [OF c1(2) _ b _ ok(2), of "fun2 E" "var2 E"] c1 g1 obtain c2 t2 where
    c2: "tmrReset (fun2 E) 10000 (var2 E) ?b (Some 0) c1 = Inr (c2, Some t2)" "live c2" "t2 \<noteq> t1"
      "timers c2 = [t1 \<mapsto> (50, fun1 E, var1 E), t2 \<mapsto> (100, fun2 E, var2 E)]" "same_config c1 c2"
      "periodsFromStart c2 = 0" "capacity c2 = 15"
    by (auto simp: no_wrap_def capacity_def)
  from c2(5) g1 have g2: "resolution c2 = 100" "numOfPeriods c2 = 10" by (simp_all add: same_config_def)
  from c2(3) have "card (dom (timers c2)) < capacity c2" by (simp add: c2(4,7))
  from arm_null [OF c2(2) this b _ ok(3), of "fun2 E" "var3 E"] c2 g2 obtain c3 t3 where
    c3: "tmrReset (fun2 E) 60000 (var3 E) ?b (Some 0) c2 = Inr (c3, Some t3)" "live c3" "t3 \<noteq> t1" "t3 \<noteq> t2"
      "timers c3 = [t1 \<mapsto> (50, fun1 E, var1 E), t2 \<mapsto> (100, fun2 E, var2 E), t3 \<mapsto> (600, fun2 E, var3 E)]"
      "same_config c2 c3" "periodsFromStart c3 = 0"
    by (auto simp: no_wrap_def capacity_def)
  have g3: "maxTicks c3 = 20" "ticks c3 = rnd (first_env E) div 20"
    using c1(4) c2(5) c3(6) c(6,9) by (simp_all add: same_config_def)
  have "counting E m c3"
    unfolding counting_def
    using c2(3) c3(2-5,7) g3
    by (intro conjI exI [of _ t1] exI [of _ t2] exI [of _ t3])
      (auto simp: due_in_def no_wrap_def due_alarm_def to_period_def m_def)
  moreover have steps: "replicate 6 MainThread = [MainThread, MainThread, MainThread, MainThread, MainThread, MainThread]"
    by (simp add: eval_nat_numeral)
  moreover have "\<exists>s. main_run E main_init (replicate 6 MainThread) = Inr s \<and> main_at s = Asleep
      \<and> alarmed s = (created E = 0) \<and> ctrls s = c3 # cs"
    using c(1) c1(1) c2(1) c3(1)
    by (simp add: steps main_step_def main_init_def tmrModuleInit_def all reset_at_def c_simps)
  ultimately show ?thesis by auto
qed

subsection \<open>The property of the program\<close>

text \<open>A run of the program for the closed example.\<close>

definition demo_main :: main_env where
  "demo_main = \<lparr>tmr_base = 1000, first_env = demo_init_env, created = 0, fun1 = 77, fun2 = 78,
                var1 = 10, var2 = 11, var3 = 12\<rparr>"

text \<open>
  C33: the program as a whole, main and the alarm thread in any order of their turns, callbacks
  included, with memory and any value of rand().  In every state that an execution reaches, the
  array's entries are well-formed and only 1, 2 and 3 have been printed; the main thread can go on;
  and a round of the alarm thread fails in exactly one case: test() has returned and the round calls
  a timer, whose callback then reads the local variable of test() that no longer exists.  When the
  main thread is not held up, that happens: the program gets through its first 999 + max(1, 20 -
  rand() / 20) alarms and ends in undefined behaviour with the next one.
\<close>
theorem main_ends_in_dead_local:
  assumes E: "main_env_ok E"
  shows "(\<forall>ts s. main_run E main_init ts = Inr s \<longrightarrow>
      length (ctrls s) = maxNumOfTmrCtrl \<and> (\<forall>c\<in>set (ctrls s). entry_ok c) \<and> set (printed s) \<subseteq> {1, 2, 3}
      \<and> (\<exists>s'. main_run E main_init (ts @ [MainThread]) = Inr s')
      \<and> (\<exists>cs evs. timerLoopFunc (ctrls s) = Inr (cs, evs) \<and> (\<forall>r.
           if alarmed s \<and> r = 0 \<and> main_at s = Asleep \<and> evs \<noteq> []
           then main_run E main_init (ts @ [Signal r]) = Inl WildDeref
           else \<exists>s'. main_run E main_init (ts @ [Signal r]) = Inr s')))
    \<and> (\<forall>n. created E = 0 \<longrightarrow>
        (main_run E main_init (replicate 6 MainThread @ replicate n (Signal 0)) = Inl WildDeref)
          = (1000 + max 1 (20 - rnd (first_env E) div 20) \<le> int n))"
proof (intro conjI allI impI)
  fix ts s
  assume run: "main_run E main_init ts = Inr s"
  then have inv: "main_inv E s" using main_run_inv [OF E] main_inv_init by blast
  then obtain c cs where c: "ctrls s = c # cs" "length cs = 15" "\<forall>d\<in>set cs. signature d = 0"
    "main_at s \<in> {Boot, Enter} \<Longrightarrow> signature c = 0" "main_at s \<notin> {Boot, Enter} \<Longrightarrow> live c \<and> test_timers E c"
    by (rule main_invE) blast
  show "length (ctrls s) = maxNumOfTmrCtrl" using c by (simp add: maxNumOfTmrCtrl_def)
  show "\<forall>c\<in>set (ctrls s). entry_ok c" using c by (auto simp: entry_ok_live)
  show "set (printed s) \<subseteq> {1, 2, 3}" using inv by (simp add: main_inv_def)
  show "\<exists>s'. main_run E main_init (ts @ [MainThread]) = Inr s'"
    using main_step_ok [OF inv E] by (auto simp: main_run_append run)
  show "\<exists>cs evs. timerLoopFunc (ctrls s) = Inr (cs, evs) \<and> (\<forall>r.
           if alarmed s \<and> r = 0 \<and> main_at s = Asleep \<and> evs \<noteq> []
           then main_run E main_init (ts @ [Signal r]) = Inl WildDeref
           else \<exists>s'. main_run E main_init (ts @ [Signal r]) = Inr s')"
  proof -
    from alarm_step_ok [OF inv E] obtain cs evs where loop: "timerLoopFunc (ctrls s) = Inr (cs, evs)" by blast
    have "main_run E main_init (ts @ [Signal r]) = alarm_step E r s" for r
      by (simp add: main_run_append run bindE_Inr)
    with alarm_step_ok [OF inv E] loop show ?thesis by simp metis
  qed
next
  fix n
  assume "created E = 0"
  with main_settled [OF E] obtain s where s: "main_run E main_init (replicate 6 MainThread) = Inr s"
    "main_at s = Asleep" "alarmed s" "counting E (1000 + max 1 (20 - rnd (first_env E) div 20)) (hd (ctrls s))" by auto
  have "main_inv E s" using main_run_inv [OF E s(1) main_inv_init] .
  from main_counts_down [OF E this s(3,2,4)] s(1)
  show "(main_run E main_init (replicate 6 MainThread @ replicate n (Signal 0)) = Inl WildDeref)
          = (1000 + max 1 (20 - rnd (first_env E) div 20) \<le> int n)"
    by (simp add: main_run_append)
qed

theorem main_ends_in_dead_local_witness:
  "main_run demo_main main_init (replicate 6 MainThread @ replicate 1020 (Signal 0)) = Inl WildDeref
    \<and> main_run demo_main main_init (replicate 6 MainThread @ replicate 1019 (Signal 0)) \<noteq> Inl WildDeref"
proof -
  have "main_env_ok demo_main" by (simp add: main_env_ok_def demo_main_def demo_init_env_def)
  moreover have "created demo_main = 0" "rnd (first_env demo_main) = 0"
    by (simp_all add: demo_main_def demo_init_env_def)
  ultimately show ?thesis
    using main_ends_in_dead_local [of demo_main, THEN conjunct2, rule_format, of 1020]
      main_ends_in_dead_local [of demo_main, THEN conjunct2, rule_format, of 1019]
    by (simp del: main_run.simps replicate.simps)
qed

end
