(* ===== verification/TimerFaults.thy ===== *)
theory TimerFaults
  imports TimerDemo
begin

section \<open>Where the timer controller departs from its promise\<close>

text \<open>
  Inputs on which the exactness theorems do not apply, and what the code does there: periods
  too long for the 16-bit \<open>cycle\<close>, the wrap of the period counter, a handle whose block
  belongs to another timer by now, and the failures of \<open>tmrInit\<close>.
\<close>

text \<open>A timer that stands at or below 0 at a multiple of the wheel's size is called in the next period.\<close>

lemma overdue_fires:
  assumes inv: "ctrl_inv c" and t: "timers c a = Some (r, f, q)"
    and r: "r \<le> 0" "numOfPeriods c dvd r" and f: "f \<noteq> 0"
  shows "\<exists>c' evs. tmrProcessList c = Inr (c', evs) \<and> (f, q, a) \<in> set evs"
proof -
  from inv obtain p L where w: "wheel {} c p L" by (auto simp: ctrl_inv_def)
  let ?i = "current_slot c" and ?N = "numOfPeriods c" and ?P = "uint (periodsFromStart c)"
  from tmrProcessList_wheel [OF w] obtain c' where
    run: "tmrProcessList c = Inr (c', concat (map (fire_of (objs c)) (expired (objs c) (L ?i))))"
    and i: "?i < nat ?N" by blast
  have N: "0 < ?N" using wheelD(3) [OF w] .
  from t obtain ob where ob: "a \<in> allocated p" "objs c a = Some ob" "r = remaining c ob"
    "f = fp ob" "q = param1 ob" by (auto simp: timers_wheel_Some [OF w])
  from wheel_member [OF w ob(1)] obtain j where j: "j < nat ?N" "a \<in> set (L j)" by blast
  from wheel_slot_index [OF w j] ob(2) have idx: "index ob = int j" by auto
  have rem: "r = (int j - ?P) mod ?N + cycle ob * ?N" by (simp add: ob(3) remaining_def idx)
  then have "?N dvd (int j - ?P) mod ?N" using r(2) by (simp add: dvd_add_left_iff)
  then have z: "(int j - ?P) mod ?N = 0" using N by (simp add: mod_eq_0_iff_dvd dvd_mod_iff)
  then have "j = ?i" using slot_position [OF w N j(1)] by simp
  moreover have "cycle ob \<le> 0" using rem z r(1) N by (simp add: mult_le_0_iff)
  ultimately have "a \<in> set (expired (objs c) (L ?i))"
    using j(2) slot_okD(6) [OF wheelD(8) [OF w i]] by (simp add: expired_filter cyc_def ob(2))
  then have "(f, q, a) \<in> set (concat (map (fire_of (objs c)) (expired (objs c) (L ?i))))"
    using ob(2,4,5) f unfolding fires_mem by blast
  with run show ?thesis by blast
qed

text \<open>The two ways in which a new timer can start at the wrong number.\<close>

lemma start_count_truncated:
  assumes "0 < numOfPeriods c" and "0 \<le> d" and "numOfPeriods c dvd d"
    and "32768 \<le> d div numOfPeriods c" "d div numOfPeriods c < 65536" and "no_wrap c d"
  shows "start_count c d = d - 65536 * numOfPeriods c"
proof -
  let ?N = "numOfPeriods c" and ?P = "uint (periodsFromStart c)" and ?k = "d div numOfPeriods c"
  have "slot_index c d = (d + ?P) mod ?N"
    using uint_add_no_wrap [of "periodsFromStart c" d ?N] assms by (simp add: slot_index_def no_wrap_def)
  then have "(slot_index c d - ?P) mod ?N = 0" using assms(3) by (simp add: mod_diff_left_eq)
  moreover have "to_i16 ?k = ?k - 65536"
  proof -
    have "(?k + 32768) mod 65536 = (?k - 32768 + 65536) mod 65536" by (simp add: add.commute)
    also have "\<dots> = (?k - 32768) mod 65536" by (rule mod_add_self2)
    also have "\<dots> = ?k - 32768" using assms(4,5) by (intro mod_pos_pos_trivial) simp_all
    finally show ?thesis
      by (simp add: to_i16_def signed_take_bit_eq_take_bit_shift take_bit_eq_mod)
  qed
  moreover have "?k * ?N = d" using assms(3) by simp
  ultimately show ?thesis
    using assms(1,2) by (simp add: start_count_def sdiv_nonneg left_diff_distrib)
qed

lemma start_count_wrapped:
  assumes "0 < d" "d < numOfPeriods c" and "uint (periodsFromStart c) = 2 ^ 32 - d"
    and "numOfPeriods c dvd uint (periodsFromStart c)"
  shows "start_count c d = 0"
proof -
  have "uint (word_of_int d + periodsFromStart c) = (d + uint (periodsFromStart c)) mod 2 ^ 32"
    by (simp add: uint_word_ariths uint_word_of_int mod_add_left_eq)
  also have "\<dots> = 0" by (simp add: assms(3))
  finally have "slot_index c d = 0" by (simp add: slot_index_def)
  moreover have "(- uint (periodsFromStart c)) mod numOfPeriods c = 0" using assms(4) by simp
  moreover have "to_i16 (d sdiv numOfPeriods c) = 0"
    using assms(1,2) by (simp add: sdiv_nonneg to_i16_id)
  ultimately show ?thesis by (simp add: start_count_def)
qed

lemma misplaced_fires:
  assumes inv: "ctrl_inv c" and v: "valid_handle c t" and h: "handle \<noteq> 0" and ms: "int_ok ms"
    and room: "t \<in> dom (timers c) \<or> card (dom (timers c)) < capacity c"
    and st: "start_count c (ms sdiv resolution c) \<le> 0"
      "numOfPeriods c dvd start_count c (ms sdiv resolution c)" and cb: "cb \<noteq> 0"
  shows "\<exists>c' a c'' evs. tmrReset cb ms param handle (Some t) c = Inr (c', Some a)
    \<and> tmrProcessList c' = Inr (c'', evs) \<and> (cb, param, a) \<in> set evs"
proof -
  from inv obtain p L where w: "wheel {} c p L" by (auto simp: ctrl_inv_def)
  have z: "0 \<notin> dom (timers c)"
    using dom_timers [OF w] allocated_subset [of p] block_addrs_nonzero [OF wheelD(2) [OF w]] by blast
  from tmrReset_step [OF inv v h ms, of cb param] obtain c' a where
    r: "tmrReset cb ms param handle (Some t) c = Inr (c', Some a)" "chosen c t a" "ctrl_inv c'"
      "same_config c c'"
      "if a = 0 then c' = c
       else timers c' = (timers c)(a \<mapsto> (start_count c (ms sdiv resolution c), cb, param))" by blast
  have "a \<noteq> 0" using r(2) room z by (auto simp: chosen_def split: if_splits)
  then have t: "timers c' a = Some (start_count c (ms sdiv resolution c), cb, param)" using r(5) by simp
  have "numOfPeriods c' = numOfPeriods c" using r(4) by (simp add: same_config_def)
  with overdue_fires [OF r(3) t st(1) _ cb] st(2) r(1) show ?thesis by auto
qed

text \<open>
  C36: the number of turns is stored in a 16-bit field.  A timer whose period is a multiple of the
  wheel and needs 32768 to 65535 turns gets a negative number of turns, and is called in the very
  next period instead of that many turns later.
\<close>
theorem long_timer_fires_at_once:
  assumes "ctrl_inv c" and "valid_handle c t" and "handle \<noteq> 0" and "0 \<le> ms" "int_ok ms"
    and "t \<in> dom (timers c) \<or> card (dom (timers c)) < capacity c"
    and "numOfPeriods c dvd ms div resolution c"
    and "32768 \<le> ms div resolution c div numOfPeriods c" "ms div resolution c div numOfPeriods c < 65536"
    and "no_wrap c (ms div resolution c)" and "cb \<noteq> 0"
  shows "\<exists>c' a c'' evs. tmrReset cb ms param handle (Some t) c = Inr (c', Some a)
    \<and> tmrProcessList c' = Inr (c'', evs) \<and> (cb, param, a) \<in> set evs"
proof (rule misplaced_fires [OF assms(1-3,5,6) _ _ assms(11)])
  let ?d = "ms div resolution c" and ?N = "numOfPeriods c"
  from assms(1) obtain p L where w: "wheel {} c p L" by (auto simp: ctrl_inv_def)
  note N = wheelD(3,5) [OF w]
  have d: "ms sdiv resolution c = ?d" "0 \<le> ?d"
    using assms(4) N by (simp_all add: sdiv_nonneg pos_imp_zdiv_nonneg_iff)
  have st: "start_count c ?d = ?d - 65536 * ?N"
    using N d assms(7-10) by (intro start_count_truncated) simp_all
  have "?d = ?d div ?N * ?N" using assms(7) by simp
  also have "\<dots> \<le> 65536 * ?N" using assms(9) N by (intro mult_right_mono) simp_all
  finally show "start_count c (ms sdiv resolution c) \<le> 0" by (simp add: st d)
  show "?N dvd start_count c (ms sdiv resolution c)" using assms(7) by (simp add: st d)
qed

theorem long_timer_fires_at_once_witness:
  "\<exists>c' a c'' evs. tmrReset 77 1638400 5 1000 (Some 0) demo_ctrl = Inr (c', Some a)
    \<and> tmrProcessList c' = Inr (c'', evs) \<and> (77, 5, a) \<in> set evs"
proof (rule long_timer_fires_at_once)
  show "ctrl_inv demo_ctrl" using demo_live by (simp add: live_def)
  show "0 \<in> dom (timers demo_ctrl) \<or> card (dom (timers demo_ctrl)) < capacity demo_ctrl"
    by (simp add: demo_timers capacity_def pool_blocks_wheel [OF demo_wheel] demo_block_addrs)
qed (simp_all add: valid_handle_def int_ok_def no_wrap_def demo_ctrl_def zero_ctrl_def)

text \<open>
  C37: the slot is computed from a 32-bit period counter that wraps.  When the number of slots
  does not divide 2^32, a timer that is due when the counter wraps to 0 can land in the wrong
  slot: here it is called in the next period instead of d periods later.
\<close>
theorem timer_across_wrap_fires_at_once:
  assumes "ctrl_inv c" and "valid_handle c t" and "handle \<noteq> 0" and "0 \<le> ms" "int_ok ms"
    and "t \<in> dom (timers c) \<or> card (dom (timers c)) < capacity c"
    and "0 < ms div resolution c" "ms div resolution c < numOfPeriods c"
    and "uint (periodsFromStart c) = 2 ^ 32 - ms div resolution c"
    and "numOfPeriods c dvd uint (periodsFromStart c)" and "cb \<noteq> 0"
  shows "\<exists>c' a c'' evs. tmrReset cb ms param handle (Some t) c = Inr (c', Some a)
    \<and> tmrProcessList c' = Inr (c'', evs) \<and> (cb, param, a) \<in> set evs"
proof -
  from assms(1) obtain p L where w: "wheel {} c p L" by (auto simp: ctrl_inv_def)
  have d: "ms sdiv resolution c = ms div resolution c"
    using assms(4) wheelD(5) [OF w] by (simp add: sdiv_nonneg)
  have "start_count c (ms sdiv resolution c) = 0"
    unfolding d using assms(7-10) by (rule start_count_wrapped)
  then show ?thesis by (intro misplaced_fires [OF assms(1-3,5,6) _ _ assms(11)]) simp_all
qed

theorem timer_across_wrap_fires_at_once_witness:
  "\<exists>c' a c'' evs. tmrReset 77 30 5 1000 (Some 0) (demo_ctrl\<lparr>periodsFromStart := 4294967290\<rparr>) = Inr (c', Some a)
    \<and> tmrProcessList c' = Inr (c'', evs) \<and> (77, 5, a) \<in> set evs"
proof (rule timer_across_wrap_fires_at_once)
  let ?c = "demo_ctrl\<lparr>periodsFromStart := 4294967290\<rparr>"
  have w: "wheel {} ?c demo_pool (\<lambda>_. [])" using demo_wheel by (simp add: wheel_periodsFromStart)
  show "ctrl_inv ?c" using w by (auto simp: ctrl_inv_def)
  have "card (dom (timers ?c)) < capacity ?c"
    unfolding dom_timers [OF w]
    by (simp add: allocated_def demo_block_addrs demo_free_addrs capacity_def pool_blocks_wheel [OF w])
  then show "0 \<in> dom (timers ?c) \<or> card (dom (timers ?c)) < capacity ?c" ..
qed (simp_all add: valid_handle_def int_ok_def demo_ctrl_def zero_ctrl_def)

text \<open>
  C35: a handle is the address of a pool block, and an expired timer's block is reused.  When the
  last free block is the one of an expired timer, another client's tmrReset gets that block, and
  a tmrReset with the old handle then replaces the other client's timer: its call is lost.
\<close>
theorem stale_handle_replaces_timer:
  assumes inv: "ctrl_inv c" and v: "valid_handle c t" and h: "handle \<noteq> 0"
    and ms: "int_ok msA" "int_ok msB"
    and last: "pool_blocks c - dom (timers c) = {t}"
  shows "\<exists>c1 c2 r. tmrReset fB msB qB handle (Some 0) c = Inr (c1, Some t)
    \<and> tmrReset fA msA qA handle (Some t) c1 = Inr (c2, Some t)
    \<and> timers c2 = (timers c)(t \<mapsto> (r, fA, qA)) \<and> card (dom (timers c2)) = card (dom (timers c)) + 1"
proof -
  from inv obtain p L where w: "wheel {} c p L" by (auto simp: ctrl_inv_def)
  have z: "0 \<notin> dom (timers c)" "0 \<notin> pool_blocks c" and fin: "finite (dom (timers c))"
    using dom_timers [OF w] allocated_subset [of p] block_addrs_nonzero [OF wheelD(2) [OF w]]
      pool_blocks_wheel [OF w] by auto
  have sub: "dom (timers c) \<subseteq> pool_blocks c"
    using allocated_subset [of p] by (simp add: dom_timers [OF w] pool_blocks_wheel [OF w])
  have "finite (pool_blocks c)" by (simp add: pool_blocks_wheel [OF w])
  then have room: "card (dom (timers c)) < capacity c"
    unfolding capacity_def using last sub by (intro psubset_card_mono) auto
  have "valid_handle c 0" by (simp add: valid_handle_def)
  from tmrReset_step [OF inv this h ms(2), of fB qB] obtain c1 b where
    r1: "tmrReset fB msB qB handle (Some 0) c = Inr (c1, Some b)" "chosen c 0 b" "ctrl_inv c1"
      "if b = 0 then c1 = c
       else timers c1 = (timers c)(b \<mapsto> (start_count c (msB sdiv resolution c), fB, qB))"
      "\<forall>t'. t' = b \<or> valid_handle c t' \<longrightarrow> valid_handle c1 t'" by blast
  have b: "b = t" "t \<noteq> 0" "t \<notin> dom (timers c)" using r1(2) room z last by (auto simp: chosen_def)
  have t1: "timers c1 = (timers c)(t \<mapsto> (start_count c (msB sdiv resolution c), fB, qB))"
    using r1(4) b by simp
  have "valid_handle c1 t" using r1(5) b(1) by blast
  from tmrReset_step [OF r1(3) this h ms(1), of fA qA] obtain c2 a where
    r2: "tmrReset fA msA qA handle (Some t) c1 = Inr (c2, Some a)" "chosen c1 t a"
      "if a = 0 then c2 = c1
       else timers c2 = (timers c1)(a \<mapsto> (start_count c1 (msA sdiv resolution c1), fA, qA))" by blast
  have "a = t" using r2(2) by (simp add: chosen_def t1)
  with r2 b(2) t1 have t2: "timers c2 = (timers c)(t \<mapsto> (start_count c1 (msA sdiv resolution c1), fA, qA))"
    by simp
  then have "card (dom (timers c2)) = card (dom (timers c)) + 1" using fin b(3) by simp
  with r1(1) r2(1) b(1) \<open>a = t\<close> t2 show ?thesis by blast
qed

text \<open>
  The state for the closed example: the timer of block 4096 has expired, the blocks 4160 and
  4224 are armed.
\<close>

definition demo_stale :: tmr_ctrl_t where
  "demo_stale = demo_ctrl\<lparr>
     tmrList := (replicate 10 \<lparr>head = 0, count = 0\<rparr>)[2 := \<lparr>head = 4160, count = 1\<rparr>, 3 := \<lparr>head = 4224, count = 1\<rparr>],
     poolHandle := Some (demo_pool\<lparr>numOfFree := 1\<rparr>), numOfTmrs := 2,
     objs := demo_objs(4160 \<mapsto> demo_timer\<lparr>timerId := 4160\<rparr>, 4224 \<mapsto> demo_timer\<lparr>timerId := 4224, index := 3\<rparr>)\<rparr>"

lemma demo_stale_pool:
  "block_addrs (demo_pool\<lparr>numOfFree := 1\<rparr>) = {4096, 4160, 4224}"
  "free_queue (demo_pool\<lparr>numOfFree := 1\<rparr>) = [0]"
  "allocated (demo_pool\<lparr>numOfFree := 1\<rparr>) = {4160, 4224}"
proof -
  show b: "block_addrs (demo_pool\<lparr>numOfFree := 1\<rparr>) = {4096, 4160, 4224}"
    using demo_block_addrs by (simp add: block_addrs_def block_addr_def)
  show q: "free_queue (demo_pool\<lparr>numOfFree := 1\<rparr>) = [0]"
    by (simp add: free_queue_def demo_pool_def ring_def)
  show "allocated (demo_pool\<lparr>numOfFree := 1\<rparr>) = {4160, 4224}"
    unfolding allocated_def free_addrs_def q b by (auto simp: block_addr_def demo_pool_def)
qed

lemma demo_stale_wheel:
  "wheel {} demo_stale (demo_pool\<lparr>numOfFree := 1\<rparr>) ((\<lambda>_. [])(2 := [4160], 3 := [4224]))"
proof -
  let ?L = "(\<lambda>_. [])(2 := [4160], 3 := [4224]) :: nat \<Rightarrow> addr list"
  have "pool_inv (demo_pool\<lparr>numOfFree := 1\<rparr>) (objs demo_stale)"
    by (auto simp: pool_inv_def demo_stale_pool) (simp_all add: pool_shape_def demo_pool_def
        demo_stale_def demo_ctrl_def zero_ctrl_def demo_objs_def)
  moreover have "slot_ok (objs demo_stale) i (tmrList demo_stale ! i) (?L i)" if "i < 10" for i
    using that
    by (auto simp: slot_ok_def node_ok_def demo_stale_def demo_ctrl_def zero_ctrl_def demo_timer_def
        nth_list_update)
  moreover have "(\<Union>i < nat 10. set (?L i)) = {4160, 4224}"
    by (auto split: if_splits) (rule bexI [of _ 2]; simp)
  ultimately show ?thesis
    unfolding wheel_def demo_stale_pool
    by (simp add: demo_stale_def demo_ctrl_def zero_ctrl_def int_ok_def)
qed

theorem stale_handle_replaces_timer_witness:
  "\<exists>c1 c2 r. tmrReset 78 20 6 1000 (Some 0) demo_stale = Inr (c1, Some 4096)
    \<and> tmrReset 77 10 5 1000 (Some 4096) c1 = Inr (c2, Some 4096)
    \<and> timers c2 = (timers demo_stale)(4096 \<mapsto> (r, 77, 5))
    \<and> card (dom (timers c2)) = card (dom (timers demo_stale)) + 1"
proof (rule stale_handle_replaces_timer)
  note w = demo_stale_wheel
  show "ctrl_inv demo_stale" using w by (auto simp: ctrl_inv_def)
  show "pool_blocks demo_stale - dom (timers demo_stale) = {4096}"
    unfolding dom_timers [OF w] pool_blocks_wheel [OF w] demo_stale_pool by auto
  show "valid_handle demo_stale 4096"
    by (simp add: valid_handle_def pool_blocks_wheel [OF w] demo_stale_pool)
       (simp add: demo_stale_def demo_ctrl_def zero_ctrl_def demo_objs_def zero_obj_def)
qed (simp_all add: int_ok_def)

subsection \<open>The set-up\<close>

definition ok_env :: init_env where
  "ok_env = \<lparr>pool_env = \<lparr>struct_ok = True, pool_mem = 4096, list_ok = True, junk = (\<lambda>_. zero_obj),
                list_junk = (\<lambda>_. 0)\<rparr>,
             slots_ok = True, rnd = 2147483647\<rparr>"

text \<open>
  When the pool cannot be made (no memory for its struct, or too few timers asked for),
  tmrInit cleans up a pool that does not exist: memPoolCleanup is called with NULL and reads
  through it.
\<close>
theorem init_failure_null_deref:
  assumes "cs \<noteq> []" and "int_ok (maxNum + 10)"
    and "maxNum + 10 \<le> 1 \<or> \<not> struct_ok (pool_env env)"
  shows "tmrInit base env maxNum r l lbl cs = Inl NullDeref"
proof -
  from assms(1) obtain c cs' where cs: "cs = c # cs'" by (cases cs) auto
  have "memPoolInit (pool_env env) (maxNum + 10) sizeof_tmr_obj (objs c) = Inr (None, objs c)"
    using assms(3) by (auto intro: memPoolInit_null)
  then show ?thesis using assms(2) by (simp add: tmrInit_def cs c_simps)
qed

theorem init_failure_null_deref_witness:
  "tmrInit 1000 ok_env (- 10) 100 1000 ''http'' [demo_ctrl] = Inl NullDeref"
  by (rule init_failure_null_deref) (simp_all add: int_ok_def)

text \<open>
  The first tick count is rand() / maxTicks instead of a remainder.  At the finest resolution
  (one tick per period) a rand() of RAND_MAX makes the very first alarm overflow the counter.
\<close>
theorem first_alarm_overflows:
  assumes "base \<noteq> 0" and "cs \<noteq> []" and "- 9 < maxNum" "64 * (maxNum + 10) < 2147483648"
    and "struct_ok (pool_env env)" "0 < pool_mem (pool_env env)" "list_ok (pool_env env)"
      "slots_ok env" "rnd env = 2147483647"
    and "int_ok r" "r < 10" "int_ok l"
  shows "\<exists>c. tmrInit base env maxNum r l lbl cs = Inr (base, c # tl cs)
    \<and> tick_ctrl c = Inl SignedOverflow"
proof -
  have "0 \<le> rnd env" "int_ok (rnd env)" by (simp_all add: assms(9) int_ok_def)
  from tmrInit_ok [OF assms(2-8) this assms(10,12), of base lbl] obtain c p where
    c: "tmrInit base env maxNum r l lbl cs = Inr (base, c # tl cs)" "signature c = base"
      "ticks c = rnd env div (eff_resolution r div 5)" by blast
  have "eff_resolution r div 5 = 1" using assms(11) by (simp add: eff_resolution_def max_def) presburger
  then have "ticks c = 2147483647" using c(3) assms(9) by simp
  then have "tick_ctrl c = Inl SignedOverflow"
    using c(2) assms(1) by (simp add: tick_ctrl_def i32_def int_ok_def)
  with c(1) show ?thesis by blast
qed

theorem first_alarm_overflows_witness:
  "\<exists>c. tmrInit 1000 ok_env 5 5 1000 ''http'' [demo_ctrl] = Inr (1000, c # tl [demo_ctrl])
    \<and> tick_ctrl c = Inl SignedOverflow"
  by (rule first_alarm_overflows) (simp_all add: ok_env_def int_ok_def)

text \<open>
  A resolution that is no multiple of the 5 ms tick is rounded down for the period's length,
  but not for the division of mseconds: d periods end (resolution mod 5) * d ms too early.
\<close>
theorem periods_shorter_than_resolution:
  assumes "cs \<noteq> []" and "- 9 < maxNum" "64 * (maxNum + 10) < 2147483648"
    and "struct_ok (pool_env env)" "0 < pool_mem (pool_env env)" "list_ok (pool_env env)"
      "slots_ok env" "0 \<le> rnd env" "int_ok (rnd env)"
    and "int_ok r" "int_ok l" and "5 \<le> r"
  shows "\<exists>c. tmrInit base env maxNum r l lbl cs = Inr (base, c # tl cs)
    \<and> MSECONDS_PER_TICK * (d * maxTicks c) = d * resolution c - (r mod 5) * d"
proof -
  from tmrInit_ok [OF assms(1-11), of base lbl] obtain c where
    c: "tmrInit base env maxNum r l lbl cs = Inr (base, c # tl cs)"
      "resolution c = eff_resolution r" "maxTicks c = eff_resolution r div 5" by blast
  have e: "eff_resolution r = r" using assms(12) by (simp add: eff_resolution_def)
  have "r = 5 * (r div 5) + r mod 5" by simp
  then have "d * r = 5 * (d * (r div 5)) + (r mod 5) * d"
    by (metis distrib_right mult.assoc mult.commute)
  with c e show ?thesis by (auto simp: MSECONDS_PER_TICK_def)
qed

theorem periods_shorter_than_resolution_witness:
  "\<exists>c. tmrInit 1000 ok_env 5 9 1000 ''http'' [demo_ctrl] = Inr (1000, c # tl [demo_ctrl])
    \<and> MSECONDS_PER_TICK * (1000 * maxTicks c) = 1000 * resolution c - (9 mod 5) * 1000"
  by (rule periods_shorter_than_resolution) (simp_all add: ok_env_def int_ok_def)

text \<open>
  A label of twelve characters or more is stored without its terminating zero, in a field that
  the log messages print as a string.
\<close>
theorem long_label_unterminated:
  assumes "cs \<noteq> []" and "- 9 < maxNum" "64 * (maxNum + 10) < 2147483648"
    and "struct_ok (pool_env env)" "0 < pool_mem (pool_env env)" "list_ok (pool_env env)"
      "slots_ok env" "0 \<le> rnd env" "int_ok (rnd env)"
    and "int_ok r" "int_ok l" and "12 \<le> length lbl" and "CHR 0x00 \<notin> set lbl"
  shows "\<exists>c. tmrInit base env maxNum r l lbl cs = Inr (base, c # tl cs)
    \<and> label c = take 12 lbl \<and> CHR 0x00 \<notin> set (label c)"
proof -
  from tmrInit_ok [OF assms(1-11), of base lbl] obtain c where
    c: "tmrInit base env maxNum r l lbl cs = Inr (base, c # tl cs)" "label c = strncpy label_size lbl"
    by blast
  have "label c = take 12 lbl" using assms(12) by (simp add: c(2) strncpy_def label_size_def)
  moreover from this have "CHR 0x00 \<notin> set (label c)" using assms(13) set_take_subset by fastforce
  ultimately show ?thesis using c(1) by blast
qed

theorem long_label_unterminated_witness:
  "\<exists>c. tmrInit 1000 ok_env 5 100 1000 ''http-requests'' [demo_ctrl] = Inr (1000, c # tl [demo_ctrl])
    \<and> label c = take 12 ''http-requests'' \<and> CHR 0x00 \<notin> set (label c)"
  by (rule long_label_unterminated) (simp_all add: ok_env_def int_ok_def)

end
