(* ===== verification/Locked.thy ===== *)
theory Locked
  imports CBase
begin

section \<open>Objects behind a mutex, thread by thread\<close>

text \<open>
  Threads that operate on one object under one mutex, in any interleaving.  An operation is
  asked for (\<open>Waiting\<close>), gets the mutex, runs in steps of its body (\<open>Running\<close>, with the
  point it has reached) and gives the mutex back with its result.

  \<open>start\<close> is the first point of an operation, \<open>body\<close> one step from a point.  A step changes the
  object and says how the thread goes on: at the next point; with \<open>pthread_mutex_lock\<close> on the
  object's mutex, and then at a point; with \<open>pthread_mutex_unlock\<close>, and then at a point; or with
  the unlock that ends the operation and its result.  The mutex is a normal one, neither recursive
  nor checking: a lock waits until nobody has the mutex, be the waiting thread its holder, and an
  unlock frees it.  A step that reaches undefined behaviour ends its thread as \<open>Failed\<close>.

  The laws of the interface are about operations that keep the mutex from their start to their end
  (\<open>whole\<close>): what they do from a point on when nobody interferes (\<open>finish\<close>), and that a part of the
  object that one thread writes without the mutex (\<open>put\<close>) does not matter to them.  From these:
  every interleaving is equivalent to the sequence of the atomic operations in the order in which
  they gave the mutex back.  An operation that asks for the mutex in its middle has no law to obey:
  that it stays there follows from the machine.
\<close>

datatype ('q, 'p) thread = Idle | Waiting 'q | Running 'q 'p | Failed ub

datatype ('p, 'r) move = Go 'p | Lock 'p | Unlock 'p | Done 'r

type_synonym ('t, 'q, 'p, 's) lock_sys = "'s \<times> 't option \<times> ('t \<Rightarrow> ('q, 'p) thread)"

inductive lock_step ::
  "('q \<Rightarrow> 'p) \<Rightarrow> ('p \<Rightarrow> 's \<Rightarrow> ('s \<times> ('p, 'r) move) res) \<Rightarrow> ('t, 'q, 'p, 's) lock_sys
     \<Rightarrow> ('t \<times> 'q \<times> 'r) option \<Rightarrow> ('t, 'q, 'p, 's) lock_sys \<Rightarrow> bool"
  for start body where
  acquire: "th t = Waiting q \<Longrightarrow>
    lock_step start body (s, None, th) None (s, Some t, th(t := Running q (start q)))"
| progress: "th t = Running q p \<Longrightarrow> body p s = Inr (s', Go p') \<Longrightarrow>
    lock_step start body (s, ow, th) None (s', ow, th(t := Running q p'))"
| lock: "th t = Running q p \<Longrightarrow> body p s = Inr (s', Lock p') \<Longrightarrow>
    lock_step start body (s, None, th) None (s', Some t, th(t := Running q p'))"
| unlock: "th t = Running q p \<Longrightarrow> body p s = Inr (s', Unlock p') \<Longrightarrow>
    lock_step start body (s, ow, th) None (s', None, th(t := Running q p'))"
| release: "th t = Running q p \<Longrightarrow> body p s = Inr (s', Done r) \<Longrightarrow>
    lock_step start body (s, ow, th) (Some (t, q, r)) (s', None, th(t := Idle))"
| fault: "th t = Running q p \<Longrightarrow> body p s = Inl e \<Longrightarrow>
    lock_step start body (s, ow, th) None (s, ow, th(t := Failed e))"

fun asked :: "('q, 'p) thread \<Rightarrow> 'q option" where
  "asked Idle = None"
| "asked (Waiting q) = Some q"
| "asked (Running q p) = Some q"
| "asked (Failed e) = None"

fun inside :: "('q, 'p) thread \<Rightarrow> bool" where
  "inside (Running q p) = True"
| "inside _ = False"

fun failed :: "('q, 'p) thread \<Rightarrow> bool" where
  "failed (Failed e) = True"
| "failed _ = False"

text \<open>
  \<open>serial whole finish op m c\<close>: the system \<open>m\<close> is one in which the completed operations have led
  to \<open>c\<close>, and the holder of the mutex, if there is one, is on the way from \<open>c\<close> to what its
  operation makes of it.
\<close>

fun serial :: "('p \<Rightarrow> bool) \<Rightarrow> ('p \<Rightarrow> 's \<Rightarrow> ('s \<times> 'r) res) \<Rightarrow> ('q \<Rightarrow> 's \<Rightarrow> ('s \<times> 'r) res)
    \<Rightarrow> ('t, 'q, 'p, 's) lock_sys \<Rightarrow> 's \<Rightarrow> bool" where
  "serial whole finish op (s, ow, th) c \<longleftrightarrow>
     (\<forall>t. \<not> failed (th t)) \<and> (\<forall>t. inside (th t) \<longleftrightarrow> ow = Some t)
     \<and> (case ow of None \<Rightarrow> s = c
        | Some t \<Rightarrow> \<exists>q p. th t = Running q p \<and> whole p \<and> finish p s = op q c)"

text \<open>Every operation that has been asked for is one that \<open>c\<close> allows.\<close>

definition allowed :: "('q \<Rightarrow> 's \<Rightarrow> ('s \<times> 'r) res) \<Rightarrow> ('t \<Rightarrow> ('q, 'p) thread) \<Rightarrow> 's \<Rightarrow> bool" where
  "allowed op th c \<longleftrightarrow> (\<forall>t q. asked (th t) = Some q \<longrightarrow> (\<exists>v. op q c = Inr v))"

lemma inside_iff: "inside x \<longleftrightarrow> (\<exists>q p. x = Running q p)"
  by (cases x) simp_all

lemma failed_iff: "failed x \<longleftrightarrow> (\<exists>e. x = Failed e)"
  by (cases x) simp_all

locale locked_object =
  fixes start :: "'q \<Rightarrow> 'p"
    and body :: "'p \<Rightarrow> 's \<Rightarrow> ('s \<times> ('p, 'r) move) res"
    and whole :: "'p \<Rightarrow> bool"
    and finish :: "'p \<Rightarrow> 's \<Rightarrow> ('s \<times> 'r) res"
    and op :: "'q \<Rightarrow> 's \<Rightarrow> ('s \<times> 'r) res"
    and put :: "'u \<Rightarrow> 's \<Rightarrow> 's"
  assumes whole_start: "whole (start q)"
    and whole_go: "whole p \<Longrightarrow> body p s = Inr (s', Go p') \<Longrightarrow> whole p' \<and> finish p s = finish p' s'"
    and whole_done: "whole p \<Longrightarrow> body p s = Inr (s', Done r) \<Longrightarrow> finish p s = Inr (s', r)"
    and whole_keeps: "whole p \<Longrightarrow> body p s \<noteq> Inr (s', Unlock p')"
    and whole_fault: "whole p \<Longrightarrow> body p s = Inl e \<Longrightarrow> finish p s = Inl e"
    and finish_start: "finish (start q) s = op q s"
    and finish_put: "finish p (put u s) = bindE (finish p s) (\<lambda>(s', r). Inr (put u s', r))"
begin

lemma op_put: "op q (put u s) = bindE (op q s) (\<lambda>(s', r). Inr (put u s', r))"
  unfolding finish_start [symmetric] by (rule finish_put)

text \<open>Asking for an operation, and a write of the thread that owns the unlocked part.\<close>

lemma serial_ask:
  assumes "serial whole finish op (s, ow, th) c" and "th t = Idle"
  shows "serial whole finish op (s, ow, th(t := Waiting q)) c"
  using assms by (auto split: option.splits)

lemma serial_put:
  assumes "serial whole finish op (s, ow, th) c"
  shows "serial whole finish op (put u s, ow, th) (put u c)"
  using assms by (auto simp: finish_put op_put split: option.splits)

lemma serial_asked:
  assumes "serial whole finish op (s, ow, th) c" and "ow = Some t"
  obtains q where "asked (th t) = Some q"
  using assms by auto

text \<open>The thread that is inside has the mutex, and is on its way.\<close>

lemma serial_inside:
  assumes "serial whole finish op (s, ow, th) c" and "th t = Running q p"
  shows "ow = Some t" and "whole p" and "finish p s = op q c"
proof -
  show ow: "ow = Some t" using assms by (metis inside.simps(1) serial.simps)
  then show "whole p" "finish p s = op q c" using assms by auto
qed

text \<open>A step inside the mutex keeps the completed operations, and does not fail.\<close>

lemma serial_quiet:
  assumes "lock_step start body m None m'" and "serial whole finish op m c" and "allowed op (snd (snd m)) c"
  shows "serial whole finish op m' c \<and> (\<forall>t. asked (snd (snd m') t) = asked (snd (snd m) t))"
  using assms(1)
proof (cases rule: lock_step.cases)
  case (acquire th t q s)
  with assms(2) show ?thesis by (auto simp: finish_start whole_start)
next
  case (progress th t q p s s' p' ow)
  note i = serial_inside [OF assms(2) [unfolded progress(1)] progress(3)]
  have "whole p'" "finish p' s' = op q c" using whole_go [OF i(2) progress(4)] i(3) by simp_all
  with progress assms(2) show ?thesis by (auto simp: i(1))
next
  case (lock th t q p s s' p')
  from serial_inside(1) [OF assms(2) [unfolded lock(1)] lock(3)] show ?thesis by simp
next
  case (unlock th t q p s s' p' ow)
  from serial_inside(2) [OF assms(2) [unfolded unlock(1)] unlock(3)] whole_keeps unlock(4) show ?thesis by simp
next
  case (fault th t q p s e ow)
  note i = serial_inside [OF assms(2) [unfolded fault(1)] fault(3)]
  have "op q c = Inl e" using whole_fault [OF i(2) fault(4)] i(3) by simp
  moreover have "asked (th t) = Some q" using fault(3) by simp
  ultimately have False using assms(3) fault(1) by (fastforce simp: allowed_def)
  then show ?thesis ..
qed

text \<open>The step that gives the mutex back completes its operation atomically.\<close>

lemma serial_done:
  assumes "lock_step start body m (Some (t, q, r)) m'" and "serial whole finish op m c"
  obtains c' where "op q c = Inr (c', r)" "serial whole finish op m' c'"
    "asked (snd (snd m) t) = Some q" "m' = (c', None, (snd (snd m))(t := Idle))"
  using assms(1)
proof (cases rule: lock_step.cases)
  case (release th p s s' ow)
  note i = serial_inside [OF assms(2) [unfolded release(1)] release(3)]
  have "op q c = Inr (s', r)" using whole_done [OF i(2) release(4)] i(3) by simp
  moreover have "serial whole finish op m' s'" using release assms(2) i(1) by auto
  ultimately show ?thesis using that release by auto
qed

end

text \<open>
  An object whose operations take a bounded number of steps and never ask for the mutex again:
  every step that is not the last one brings the point down in a well-founded order.
\<close>

locale finite_object = locked_object start body whole finish op put
  for start :: "'q \<Rightarrow> 'p"
    and body :: "'p \<Rightarrow> 's \<Rightarrow> ('s \<times> ('p, 'r) move) res"
    and whole :: "'p \<Rightarrow> bool"
    and finish :: "'p \<Rightarrow> 's \<Rightarrow> ('s \<times> 'r) res"
    and op :: "'q \<Rightarrow> 's \<Rightarrow> ('s \<times> 'r) res"
    and put :: "'u \<Rightarrow> 's \<Rightarrow> 's" +
  fixes rank :: "'p \<Rightarrow> nat \<times> nat"
  assumes body_rank: "whole p \<Longrightarrow> body p s = Inr (s', Go p') \<Longrightarrow> (rank p', rank p) \<in> less_than <*lex*> less_than"
    and body_free: "whole p \<Longrightarrow> body p s \<noteq> Inr (s', Lock p')"
begin

text \<open>The holder of the mutex gives it back, by steps of its own.\<close>

lemma holder_finishes:
  assumes "finish p s = Inr (c', r)" and "whole p" and "th t = Running q p"
  shows "\<exists>m1. (\<lambda>m m'. lock_step start body m None m')\<^sup>*\<^sup>* (s, Some t, th) m1
    \<and> lock_step start body m1 (Some (t, q, r)) (c', None, th(t := Idle))"
  using assms
proof (induction "rank p" arbitrary: p s th rule: wf_induct [of "less_than <*lex*> less_than"])
  case 1
  show ?case by auto
next
  case 2
  note p = 2(2-4)
  obtain s1 x where b: "body p s = Inr (s1, x)"
    using whole_fault [OF p(2), of s] p(1) by (cases "body p s") auto
  show ?case
  proof (cases x)
    case (Go p')
    have st: "lock_step start body (s, Some t, th) None (s1, Some t, th(t := Running q p'))"
      by (rule lock_step.progress) (use p(3) b Go in simp_all)
    have "(rank p', rank p) \<in> less_than <*lex*> less_than" using body_rank [OF p(2)] b Go by simp
    moreover have "whole p'" "finish p' s1 = Inr (c', r)" using whole_go [OF p(2)] b Go p(1) by simp_all
    ultimately obtain m1 where m1: "(\<lambda>m m'. lock_step start body m None m')\<^sup>*\<^sup>* (s1, Some t, th(t := Running q p')) m1"
      "lock_step start body m1 (Some (t, q, r)) (c', None, (th(t := Running q p'))(t := Idle))"
      using 2(1) [rule_format, of "rank p'" p' s1 "th(t := Running q p')"] by auto
    have "(\<lambda>m m'. lock_step start body m None m')\<^sup>*\<^sup>* (s, Some t, th) m1"
      by (rule converse_rtranclp_into_rtranclp [of "\<lambda>m m'. lock_step start body m None m'", OF st m1(1)])
    with m1(2) show ?thesis by (metis fun_upd_upd)
  next
    case (Done r')
    then have "s1 = c'" "r' = r" using whole_done [OF p(2)] b p(1) by auto
    then have "lock_step start body (s, Some t, th) (Some (t, q, r)) (c', None, th(t := Idle))"
      using p(3) b Done by (intro lock_step.release) simp_all
    then show ?thesis by blast
  qed (use b whole_keeps [OF p(2)] body_free [OF p(2)] in simp_all)
qed

end

end
