(* ===== verification/TimerSections.thy ===== *)
theory TimerSections
  imports TimerRuns Locked
begin

section \<open>The controller's operations, step by step (\<open>ttimer/tdengine_old.c\<close>)\<close>

text \<open>
  \<open>tmrProcessList\<close> and \<open>tmrReset\<close> as the steps a thread takes between locking and
  unlocking the controller's mutex: one iteration of a loop, one group of assignments, one
  call of a callback at a time.  \<open>sect_finish\<close> says what a section does from each of its
  points on, in terms of the whole operations of \<open>TimerCtrl\<close>; the interpretations at the
  end discharge the laws of \<open>Locked\<close>, so that a whole operation may be used for its steps.

  What a callback does with its own controller is a parameter: \<open>relock (f, q, a)\<close> is the call of
  \<open>tmrReset\<close> that the function \<open>f\<close> makes when it is called with \<open>q\<close> and \<open>a\<close>, if it makes one.  The
  thread then does what \<open>tmrReset\<close> does: it asks for the mutex, goes through the steps of the
  section, unlocks, and goes on in \<open>tmrProcessList\<close>.  Whether it gets the mutex is for the machine
  of \<open>Locked\<close> to say.  (The mutex is the zeroed one of \<open>memset\<close>, which is not recursive.)
\<close>

text \<open>
  What a thread asks the mutex for: \<open>ProcessList\<close>, or \<open>ResetTmr fp period param1 handle t\<close>,
  the part of \<open>tmrReset\<close> under the lock with the handle \<open>t\<close> in the caller's variable.
\<close>

datatype section_call = ProcessList | ResetTmr addr int addr addr addr

text \<open>
  The points of \<open>tmrReset\<close>: the object is to be chosen; to be filled in; the search for its
  place, at a node; the links to be set.
\<close>

datatype reset_point =
    ResetBegin addr int addr addr addr
  | ResetFill addr int addr addr addr
  | ResetFind nat int addr addr addr
  | ResetLink int addr addr addr

text \<open>
  The points of \<open>tmrProcessList\<close>: the index is to be computed; the top of the outer loop; the
  inner loop at a node; before the call of the function of the unlinked header; in a \<open>tmrReset\<close>
  that this function has called, with its mutex locked; before the header's block is freed; before
  \<open>periodsFromStart++\<close>.  The \<open>nat\<close>s bound the loops, the lists are the calls made so far.
\<close>

datatype list_point =
    ListBegin
  | ListTop nat int "fire list"
  | ListDec nat addr "fire list"
  | ListCall nat int addr addr addr "fire list"
  | ListNested nat int addr addr addr "fire list" reset_point
  | ListFree nat int addr "fire list"
  | ListEnd "fire list"

type_synonym callbacks = "fire \<Rightarrow> (addr \<times> int \<times> addr \<times> addr \<times> addr) option"

datatype point = InList list_point | InReset addr reset_point

fun sect_start :: "section_call \<Rightarrow> point" where
  "sect_start ProcessList = InList ListBegin"
| "sect_start (ResetTmr cb period param handle t) = InReset t (ResetBegin cb period param handle t)"

subsection \<open>The groups of assignments\<close>

text \<open>\<open>tmrProcessList\<close>: the header leaves the list; then its block goes back to the pool.\<close>

definition unlink_head :: "int \<Rightarrow> tmr_ctrl_t \<Rightarrow> (tmr_ctrl_t \<times> addr \<times> addr \<times> addr) res" where
  "unlink_head idx c =
     bindE (arr_get (tmrList c) idx) (\<lambda>l.
     bindE (deref (objs c) (head l)) (\<lambda>hdr.
     bindE (arr_set (tmrList c) idx (l\<lparr>head := nextp hdr, count := count l - 1\<rparr>)) (\<lambda>tl.
     bindE (modify_nn (objs c) (nextp hdr) (\<lambda>ob. ob\<lparr>prevp := 0\<rparr>)) (\<lambda>h1.
     bindE (modify h1 (head l) (\<lambda>ob. ob\<lparr>timerId := 0\<rparr>)) (\<lambda>h2.
       Inr (c\<lparr>numOfTmrs := numOfTmrs c - 1, tmrList := tl, objs := h2\<rparr>, head l, fp hdr, param1 hdr))))))"

definition free_head :: "addr \<Rightarrow> tmr_ctrl_t \<Rightarrow> tmr_ctrl_t res" where
  "free_head a c =
     bindE (memPoolFree zero_obj (poolHandle c) (objs c) a) (\<lambda>(q, h).
       Inr (c\<lparr>poolHandle := q, objs := h\<rparr>))"

text \<open>\<open>tmrReset\<close>: the fields of the object, its index, the start of the search; then the links.\<close>

definition fill_obj :: "addr \<Rightarrow> addr \<Rightarrow> addr \<Rightarrow> int \<Rightarrow> addr \<Rightarrow> tmr_ctrl_t \<Rightarrow> (tmr_ctrl_t \<times> int \<times> addr) res" where
  "fill_obj cb param handle period pObj c =
     bindE (c_div period (numOfPeriods c)) (\<lambda>turns.
     bindE (modify (objs c) pObj (\<lambda>ob. ob\<lparr>cycle := to_i16 turns, param1 := param, fp := cb,
              timerId := pObj, pCtrl := handle\<rparr>)) (\<lambda>h.
     bindE (u_mod (word_of_int period + periodsFromStart c) (numOfPeriods c)) (\<lambda>idx.
     bindE (arr_get (tmrList c) idx) (\<lambda>l.
     bindE (modify h pObj (\<lambda>ob. ob\<lparr>index := idx\<rparr>)) (\<lambda>h0.
       Inr (c\<lparr>objs := h0\<rparr>, idx, head l))))))"

definition set_links :: "addr \<Rightarrow> int \<Rightarrow> addr \<Rightarrow> addr \<Rightarrow> tmr_ctrl_t \<Rightarrow> tmr_ctrl_t res" where
  "set_links pObj idx pNode cNode c =
     bindE (arr_get (tmrList c) idx) (\<lambda>l.
     bindE (modify (objs c) pObj (\<lambda>ob. ob\<lparr>nextp := cNode, prevp := pNode\<rparr>)) (\<lambda>h1.
     bindE (modify_nn h1 cNode (\<lambda>nb. nb\<lparr>prevp := pObj\<rparr>)) (\<lambda>h2.
     bindE (modify_nn h2 pNode (\<lambda>nb. nb\<lparr>nextp := pObj\<rparr>)) (\<lambda>h3.
     bindE (arr_set (tmrList c) idx
              (l\<lparr>head := (if pNode \<noteq> 0 then head l else pObj), count := count l + 1\<rparr>)) (\<lambda>tl.
       Inr (c\<lparr>tmrList := tl, objs := h3, numOfTmrs := numOfTmrs c + 1\<rparr>))))))"

subsection \<open>One step of a section\<close>

fun reset_body :: "reset_point \<Rightarrow> tmr_ctrl_t \<Rightarrow> (tmr_ctrl_t \<times> (reset_point + addr)) res" where
  "reset_body (ResetBegin cb period param handle t) c =
     bindE (reset_pObj c t) (\<lambda>(c', pObj).
     if pObj = 0 then Inr (c', Inr 0)
     else Inr (c', Inl (ResetFill cb period param handle pObj)))"
| "reset_body (ResetFill cb period param handle pObj) c =
     bindE (fill_obj cb param handle period pObj c) (\<lambda>(c', idx, cNode).
       Inr (c', Inl (ResetFind (loop_fuel c') idx pObj cNode 0)))"
| "reset_body (ResetFind 0 idx pObj cNode pNode) c = Inl OutOfFuel"
| "reset_body (ResetFind (Suc n) idx pObj cNode pNode) c =
     (if cNode = 0 then Inr (c, Inl (ResetLink idx pObj pNode cNode))
      else bindE (deref (objs c) cNode) (\<lambda>cn.
           bindE (deref (objs c) pObj) (\<lambda>ob.
           if cycle cn < cycle ob then Inr (c, Inl (ResetFind n idx pObj (nextp cn) cNode))
           else Inr (c, Inl (ResetLink idx pObj pNode cNode)))))"
| "reset_body (ResetLink idx pObj pNode cNode) c =
     bindE (set_links pObj idx pNode cNode c) (\<lambda>c'. Inr (c', Inr pObj))"

fun list_body :: "callbacks \<Rightarrow> list_point \<Rightarrow> tmr_ctrl_t \<Rightarrow> (tmr_ctrl_t \<times> (list_point, fire list) move) res" where
  "list_body relock ListBegin c =
     bindE (u_mod (periodsFromStart c) (numOfPeriods c)) (\<lambda>idx.
       Inr (c, Go (ListTop (loop_fuel c) idx [])))"
| "list_body relock (ListTop 0 idx evs) c = Inl OutOfFuel"
| "list_body relock (ListTop (Suc n) idx evs) c =
     bindE (arr_get (tmrList c) idx) (\<lambda>l.
     if head l = 0 then Inr (c, Go (ListEnd evs))
     else
       bindE (deref (objs c) (head l)) (\<lambda>hdr.
       if cycle hdr > 0 then Inr (c, Go (ListDec (loop_fuel c) (head l) evs))
       else bindE (unlink_head idx c) (\<lambda>(c', a, f, q). Inr (c', Go (ListCall n idx a f q evs)))))"
| "list_body relock (ListDec 0 pObj evs) c = Inl OutOfFuel"
| "list_body relock (ListDec (Suc n) pObj evs) c =
     (if pObj = 0 then Inr (c, Go (ListEnd evs))
      else bindE (deref (objs c) pObj) (\<lambda>ob.
        Inr (c\<lparr>objs := (objs c)(pObj \<mapsto> ob\<lparr>cycle := to_i16 (cycle ob - 1)\<rparr>)\<rparr>,
             Go (ListDec n (nextp ob) evs))))"
| "list_body relock (ListCall n idx a f q evs) c =
     (if f = 0 then Inr (c, Go (ListFree n idx a evs))
      else case relock (f, q, a) of
          None \<Rightarrow> Inr (c, Go (ListFree n idx a (evs @ [(f, q, a)])))
        | Some (cb, period, param, handle, t) \<Rightarrow>
            Inr (c, Lock (ListNested n idx a f q evs (ResetBegin cb period param handle t))))"
| "list_body relock (ListNested n idx a f q evs p) c =
     bindE (reset_body p c) (\<lambda>(c', x). case x of
         Inl p' \<Rightarrow> Inr (c', Go (ListNested n idx a f q evs p'))
       | Inr _ \<Rightarrow> Inr (c', Unlock (ListFree n idx a (evs @ [(f, q, a)]))))"
| "list_body relock (ListFree n idx a evs) c =
     bindE (free_head a c) (\<lambda>c'. Inr (c', Go (ListTop n idx evs)))"
| "list_body relock (ListEnd evs) c =
     Inr (c\<lparr>periodsFromStart := periodsFromStart c + 1\<rparr>, Done evs)"

text \<open>The section of a thread; \<open>tmrReset\<close> leaves the object in the caller's variable.\<close>

fun sect_body :: "callbacks \<Rightarrow> point \<Rightarrow> tmr_ctrl_t \<Rightarrow> (tmr_ctrl_t \<times> (point, event) move) res" where
  "sect_body relock (InList p) c =
     bindE (list_body relock p c) (\<lambda>(c', x). Inr (c', map_move InList Alarm x))"
| "sect_body relock (InReset t p) c =
     bindE (reset_body p c) (\<lambda>(c', x). Inr (c', case x of Inl p' \<Rightarrow> Go (InReset t p') | Inr a \<Rightarrow> Done (Armed t a)))"

text \<open>The points at which the mutex has been held since the start of the section.\<close>

fun sect_whole :: "point \<Rightarrow> bool" where
  "sect_whole (InList (ListNested n idx a f q evs p)) = False"
| "sect_whole _ = True"

subsection \<open>What a section does from each point on\<close>

definition after_list :: "nat \<Rightarrow> int \<Rightarrow> fire list \<Rightarrow> tmr_ctrl_t \<Rightarrow> (tmr_ctrl_t \<times> fire list) res" where
  "after_list n idx evs c = bindE (expire_loop n idx c) (\<lambda>(c', es).
     Inr (c'\<lparr>periodsFromStart := periodsFromStart c' + 1\<rparr>, evs @ es))"

definition after_free :: "nat \<Rightarrow> int \<Rightarrow> addr \<Rightarrow> fire list \<Rightarrow> tmr_ctrl_t \<Rightarrow> (tmr_ctrl_t \<times> fire list) res" where
  "after_free n idx a evs c = bindE (free_head a c) (after_list n idx evs)"

text \<open>The search as the code writes it, with the object's own \<open>cycle\<close> read at every node.\<close>

fun search_place :: "nat \<Rightarrow> tmr_obj_t heap \<Rightarrow> addr \<Rightarrow> addr \<Rightarrow> addr \<Rightarrow> (addr \<times> addr) res" where
  "search_place 0 h pObj cNode pNode = Inl OutOfFuel"
| "search_place (Suc n) h pObj cNode pNode =
     (if cNode = 0 then Inr (pNode, cNode)
      else bindE (deref h cNode) (\<lambda>cn. bindE (deref h pObj) (\<lambda>ob.
             if cycle cn < cycle ob then search_place n h pObj (nextp cn) cNode
             else Inr (pNode, cNode))))"

fun reset_finish :: "reset_point \<Rightarrow> tmr_ctrl_t \<Rightarrow> (tmr_ctrl_t \<times> addr) res" where
  "reset_finish (ResetBegin cb period param handle t) c =
     bindE (reset_pObj c t) (\<lambda>(c1, pObj).
     if pObj = 0 then Inr (c1, 0)
     else bindE (arm_obj cb param handle period pObj c1) (\<lambda>c2. Inr (c2, pObj)))"
| "reset_finish (ResetFill cb period param handle pObj) c =
     bindE (arm_obj cb param handle period pObj c) (\<lambda>c2. Inr (c2, pObj))"
| "reset_finish (ResetFind n idx pObj cNode pNode) c =
     bindE (search_place n (objs c) pObj cNode pNode) (\<lambda>(pN, cN).
     bindE (set_links pObj idx pN cN c) (\<lambda>c'. Inr (c', pObj)))"
| "reset_finish (ResetLink idx pObj pNode cNode) c =
     bindE (set_links pObj idx pNode cNode c) (\<lambda>c'. Inr (c', pObj))"

fun list_finish :: "list_point \<Rightarrow> tmr_ctrl_t \<Rightarrow> (tmr_ctrl_t \<times> fire list) res" where
  "list_finish ListBegin c = tmrProcessList c"
| "list_finish (ListTop n idx evs) c = after_list n idx evs c"
| "list_finish (ListDec n a evs) c = bindE (dec_cycles n (objs c) a) (\<lambda>h.
     Inr (c\<lparr>objs := h, periodsFromStart := periodsFromStart c + 1\<rparr>, evs))"
| "list_finish (ListCall n idx a f q evs) c =
     after_free n idx a (evs @ (if f \<noteq> 0 then [(f, q, a)] else [])) c"
| "list_finish (ListNested n idx a f q evs p) c =
     bindE (reset_finish p c) (\<lambda>(c', _). after_free n idx a (evs @ [(f, q, a)]) c')"
| "list_finish (ListFree n idx a evs) c = after_free n idx a evs c"
| "list_finish (ListEnd evs) c = Inr (c\<lparr>periodsFromStart := periodsFromStart c + 1\<rparr>, evs)"

fun sect_finish :: "point \<Rightarrow> tmr_ctrl_t \<Rightarrow> (tmr_ctrl_t \<times> event) res" where
  "sect_finish (InList p) c = bindE (list_finish p c) (\<lambda>(c', evs). Inr (c', Alarm evs))"
| "sect_finish (InReset t p) c = bindE (reset_finish p c) (\<lambda>(c', a). Inr (c', Armed t a))"

definition sect_op :: "section_call \<Rightarrow> tmr_ctrl_t \<Rightarrow> (tmr_ctrl_t \<times> event) res" where
  "sect_op q = sect_finish (sect_start q)"

subsection \<open>The steps make up the operations\<close>

lemma expire_head_steps:
  "expire_head idx c = bindE (unlink_head idx c) (\<lambda>(c1, a, f, q).
     bindE (free_head a c1) (\<lambda>c2. Inr (c2, if f \<noteq> 0 then [(f, q, a)] else [])))"
  by (simp add: expire_head_def unlink_head_def free_head_def bindE_assoc case_prod_unfold cong: if_cong)

lemma search_place_eq:
  "h pObj = Some ob \<Longrightarrow> pObj \<noteq> 0 \<Longrightarrow>
     search_place n h pObj cNode pNode = find_place n h cNode pNode (cycle ob)"
  by (induction n arbitrary: cNode pNode) (simp_all add: c_simps cong: if_cong)

lemma search_place_deref:
  "deref h pObj = Inr ob \<Longrightarrow> search_place n h pObj cNode pNode = find_place n h cNode pNode (cycle ob)"
  by (rule search_place_eq) (auto simp: deref_def split: if_splits option.splits)

lemma modify_deref: "modify h p f = Inr h' \<Longrightarrow> \<exists>ob. deref h' p = Inr ob"
  by (auto simp: modify_def deref_def split: if_splits option.splits)

lemma arm_obj_steps:
  "arm_obj cb param handle period pObj c =
     bindE (fill_obj cb param handle period pObj c) (\<lambda>(c', idx, cN).
     bindE (search_place (loop_fuel c') (objs c') pObj cN 0) (\<lambda>(pN, cN'). set_links pObj idx pN cN' c'))"
  (is "_ = ?R")
proof -
  have f: "loop_fuel (c\<lparr>objs := h\<rparr>) = loop_fuel c" for h by (simp add: loop_fuel_def)
  have "link_obj (c\<lparr>objs := h\<rparr>) pObj idx =
      bindE (arr_get (tmrList c) idx) (\<lambda>l. bindE (modify h pObj (\<lambda>ob. ob\<lparr>index := idx\<rparr>)) (\<lambda>h0.
      bindE (search_place (loop_fuel c) h0 pObj (head l) 0) (\<lambda>(pN, cN). set_links pObj idx pN cN (c\<lparr>objs := h0\<rparr>))))"
    for h idx
  proof (cases "arr_get (tmrList c) idx")
    case l: (Inr l)
    show ?thesis
    proof (cases "modify h pObj (\<lambda>ob. ob\<lparr>index := idx\<rparr>)")
      case h0: (Inr h0)
      from modify_deref [OF h0] obtain ob where ob: "deref h0 pObj = Inr ob" by blast
      show ?thesis
        by (simp add: link_obj_def l h0 ob f search_place_deref [OF ob] set_links_def case_prod_unfold)
    qed (simp add: link_obj_def l)
  qed (simp add: link_obj_def)
  then show ?thesis
    by (simp add: arm_obj_def fill_obj_def bindE_assoc case_prod_unfold f)
qed

lemma process_after:
  "tmrProcessList c =
     bindE (u_mod (periodsFromStart c) (numOfPeriods c)) (\<lambda>idx. after_list (loop_fuel c) idx [] c)"
  by (simp add: tmrProcessList_def after_list_def)

lemma after_list_0: "after_list 0 idx evs c = Inl OutOfFuel"
  by (simp add: after_list_def)

lemma after_list_Suc:
  "after_list (Suc n) idx evs c =
     bindE (arr_get (tmrList c) idx) (\<lambda>l.
     if head l = 0 then Inr (c\<lparr>periodsFromStart := periodsFromStart c + 1\<rparr>, evs)
     else bindE (deref (objs c) (head l)) (\<lambda>hdr.
       if cycle hdr > 0 then bindE (dec_cycles (loop_fuel c) (objs c) (head l)) (\<lambda>h.
         Inr (c\<lparr>objs := h, periodsFromStart := periodsFromStart c + 1\<rparr>, evs))
       else bindE (unlink_head idx c) (\<lambda>(c1, a, f, q).
         after_free n idx a (evs @ (if f \<noteq> 0 then [(f, q, a)] else [])) c1)))"
  by (simp add: after_list_def [abs_def] after_free_def expire_head_steps bindE_assoc case_prod_unfold bindE_if
      cong: if_cong)

lemma map_move_cases:
  "map_move f g x = Go y \<longleftrightarrow> (\<exists>z. x = Go z \<and> y = f z)" "map_move f g x = Lock y \<longleftrightarrow> (\<exists>z. x = Lock z \<and> y = f z)"
  "map_move f g x = Unlock y \<longleftrightarrow> (\<exists>z. x = Unlock z \<and> y = f z)" "map_move f g x = Done w \<longleftrightarrow> (\<exists>z. x = Done z \<and> w = g z)"
  by (cases x; auto)+

text \<open>From a point that keeps the mutex, a step and the rest of the operation are the operation.\<close>

definition continue :: "('p \<Rightarrow> 's \<Rightarrow> ('s \<times> 'r) res) \<Rightarrow> 'p \<Rightarrow> 's \<Rightarrow> 's \<times> ('p, 'r) move \<Rightarrow> ('s \<times> 'r) res" where
  "continue finish p s = (\<lambda>(s', x). case x of
      Go p' \<Rightarrow> finish p' s' | Done r \<Rightarrow> Inr (s', r) | Lock p' \<Rightarrow> finish p s | Unlock p' \<Rightarrow> finish p s)"

lemma list_finish_body:
  "sect_whole (InList p) \<Longrightarrow> list_finish p c = bindE (list_body relock p c) (continue list_finish p c)"
  by (cases "(relock, p, c)" rule: list_body.cases)
     (auto simp: process_after after_list_0 after_list_Suc after_free_def continue_def
        bindE_assoc bindE_if case_prod_unfold cong: if_cong split: option.split)

lemma reset_finish_body:
  "reset_finish p c = bindE (reset_body p c) (\<lambda>(c', x).
     case x of Inl p' \<Rightarrow> reset_finish p' c' | Inr a \<Rightarrow> Inr (c', a))"
  by (cases "(p, c)" rule: reset_body.cases)
     (simp_all add: arm_obj_steps bindE_assoc bindE_if case_prod_unfold cong: if_cong)

lemma sect_finish_body:
  "sect_whole p \<Longrightarrow> sect_finish p c = bindE (sect_body relock p c) (continue sect_finish p c)"
proof (cases p)
  case (InList lp)
  assume "sect_whole p"
  then have eq: "list_finish lp c = bindE (list_body relock lp c) (continue list_finish lp c)"
    unfolding InList by (rule list_finish_body)
  show ?thesis
  proof (cases "list_body relock lp c")
    case (Inl e)
    then show ?thesis using eq InList by simp
  next
    case (Inr y)
    obtain c' x where y: "y = (c', x)" by (cases y)
    have "list_finish lp c = continue list_finish lp c (c', x)" using eq unfolding Inr y bindE_simps .
    then show ?thesis using Inr y InList by (cases x) (simp_all add: continue_def)
  qed
next
  case (InReset t rp)
  then show ?thesis
    by (simp add: reset_finish_body [of rp c]) (simp add: bindE_def continue_def split: sum.split prod.split)
qed

lemma sect_body_moves:
  "sect_body relock (InList p) c = Inr (c', Go w) \<longleftrightarrow> (\<exists>p'. list_body relock p c = Inr (c', Go p') \<and> w = InList p')"
  "sect_body relock (InList p) c = Inr (c', Lock w) \<longleftrightarrow> (\<exists>p'. list_body relock p c = Inr (c', Lock p') \<and> w = InList p')"
  "sect_body relock (InList p) c = Inr (c', Unlock w) \<longleftrightarrow> (\<exists>p'. list_body relock p c = Inr (c', Unlock p') \<and> w = InList p')"
  "sect_body relock (InList p) c = Inr (c', Done e) \<longleftrightarrow> (\<exists>evs. list_body relock p c = Inr (c', Done evs) \<and> e = Alarm evs)"
  "sect_body relock (InReset t r) c = Inr (c', Go w) \<longleftrightarrow> (\<exists>r'. reset_body r c = Inr (c', Inl r') \<and> w = InReset t r')"
  "sect_body relock (InReset t r) c = Inr (c', Done e) \<longleftrightarrow> (\<exists>a. reset_body r c = Inr (c', Inr a) \<and> e = Armed t a)"
  "sect_body relock (InReset t r) c \<noteq> Inr (c', Lock w)" "sect_body relock (InReset t r) c \<noteq> Inr (c', Unlock w)"
  by (auto simp: bindE_def map_move_cases split: sum.split_asm sum.split)

lemma sect_whole_body:
  assumes "sect_whole p"
  shows "sect_body relock p c = Inr (c', Go p') \<Longrightarrow> sect_whole p'"
    and "sect_body relock p c \<noteq> Inr (c', Unlock p')"
proof -
  have list: "list_body relock lp c = Inr (c', Go lp') \<Longrightarrow> sect_whole (InList lp')"
    "list_body relock lp c \<noteq> Inr (c', Unlock lp')" if "sect_whole (InList lp)" for lp lp'
    using that by (cases "(relock, lp, c)" rule: list_body.cases;
        auto simp: bindE_eq_Inr_iff split: if_splits option.splits)+
  show "sect_body relock p c = Inr (c', Go p') \<Longrightarrow> sect_whole p'" "sect_body relock p c \<noteq> Inr (c', Unlock p')"
    using assms list by (cases p; auto simp: sect_body_moves simp del: sect_body.simps)+
qed

subsection \<open>The tick counter, which the alarm thread writes without the mutex\<close>

named_theorems put_ticks \<open>an operation on a controller with another tick counter\<close>

definition set_ticks :: "int \<Rightarrow> tmr_ctrl_t \<Rightarrow> tmr_ctrl_t" where
  "set_ticks k c = c\<lparr>ticks := k\<rparr>"

lemma set_ticks_sel [simp]:
  "signature (set_ticks k c) = signature c" "resolution (set_ticks k c) = resolution c"
  "numOfPeriods (set_ticks k c) = numOfPeriods c" "periodsFromStart (set_ticks k c) = periodsFromStart c"
  "tmrList (set_ticks k c) = tmrList c" "poolHandle (set_ticks k c) = poolHandle c"
  "numOfTmrs (set_ticks k c) = numOfTmrs c" "maxTicks (set_ticks k c) = maxTicks c"
  "objs (set_ticks k c) = objs c" "loop_fuel (set_ticks k c) = loop_fuel c"
  "ticks (set_ticks k c) = k" "set_ticks j (set_ticks k c) = set_ticks j c"
  by (simp_all add: set_ticks_def loop_fuel_def)

lemma set_ticks_upd [simp]:
  "(set_ticks k c)\<lparr>tmrList := ls\<rparr> = set_ticks k (c\<lparr>tmrList := ls\<rparr>)"
  "(set_ticks k c)\<lparr>objs := h\<rparr> = set_ticks k (c\<lparr>objs := h\<rparr>)"
  "(set_ticks k c)\<lparr>poolHandle := q\<rparr> = set_ticks k (c\<lparr>poolHandle := q\<rparr>)"
  "(set_ticks k c)\<lparr>numOfTmrs := m\<rparr> = set_ticks k (c\<lparr>numOfTmrs := m\<rparr>)"
  "(set_ticks k c)\<lparr>periodsFromStart := v\<rparr> = set_ticks k (c\<lparr>periodsFromStart := v\<rparr>)"
  by (simp_all add: set_ticks_def)

lemma put_unlink_head [put_ticks]:
  "unlink_head idx (set_ticks k c) = bindE (unlink_head idx c) (\<lambda>(c', v). Inr (set_ticks k c', v))"
  by (simp add: unlink_head_def bindE_assoc)

lemma put_free_head [put_ticks]:
  "free_head a (set_ticks k c) = bindE (free_head a c) (\<lambda>c'. Inr (set_ticks k c'))"
  by (simp add: free_head_def bindE_assoc case_prod_unfold)

lemma put_unlink_obj [put_ticks]:
  "unlink_obj (set_ticks k c) a = bindE (unlink_obj c a) (\<lambda>c'. Inr (set_ticks k c'))"
  by (simp add: unlink_obj_def bindE_assoc)

lemma put_reset_pObj [put_ticks]:
  "reset_pObj (set_ticks k c) t = bindE (reset_pObj c t) (\<lambda>(c', a). Inr (set_ticks k c', a))"
  by (simp add: reset_pObj_def put_ticks bindE_assoc bindE_if case_prod_unfold cong: if_cong)

lemma put_fill_obj [put_ticks]:
  "fill_obj cb param handle period pObj (set_ticks k c) =
     bindE (fill_obj cb param handle period pObj c) (\<lambda>(c', v). Inr (set_ticks k c', v))"
  by (simp add: fill_obj_def bindE_assoc)

lemma put_set_links [put_ticks]:
  "set_links pObj idx pN cN (set_ticks k c) =
     bindE (set_links pObj idx pN cN c) (\<lambda>c'. Inr (set_ticks k c'))"
  by (simp add: set_links_def bindE_assoc)

lemma put_arm_obj [put_ticks]:
  "arm_obj cb param handle period pObj (set_ticks k c) =
     bindE (arm_obj cb param handle period pObj c) (\<lambda>c'. Inr (set_ticks k c'))"
  by (simp add: arm_obj_steps put_ticks bindE_assoc case_prod_unfold)

lemma put_after_list [put_ticks]:
  "after_list n idx evs (set_ticks k c) =
     bindE (after_list n idx evs c) (\<lambda>(c', e). Inr (set_ticks k c', e))"
proof (induction n arbitrary: evs c)
  case (Suc n)
  then show ?case
    by (simp add: after_list_Suc after_free_def put_ticks bindE_assoc bindE_if case_prod_unfold cong: if_cong)
qed (simp add: after_list_0)

lemma put_after_free [put_ticks]:
  "after_free n idx a evs (set_ticks k c) =
     bindE (after_free n idx a evs c) (\<lambda>(c', e). Inr (set_ticks k c', e))"
  by (simp add: after_free_def put_ticks bindE_assoc)

lemma reset_finish_put [put_ticks]:
  "reset_finish p (set_ticks k c) = bindE (reset_finish p c) (\<lambda>(c', e). Inr (set_ticks k c', e))"
  by (cases p) (simp_all add: put_ticks bindE_assoc bindE_if case_prod_unfold cong: if_cong)

lemma list_finish_put [put_ticks]:
  "list_finish p (set_ticks k c) = bindE (list_finish p c) (\<lambda>(c', e). Inr (set_ticks k c', e))"
  by (cases p) (simp_all add: process_after put_ticks bindE_assoc case_prod_unfold)

lemma sect_finish_put:
  "sect_finish p (set_ticks k c) = bindE (sect_finish p c) (\<lambda>(c', e). Inr (set_ticks k c', e))"
  by (cases p) (simp_all add: put_ticks bindE_assoc case_prod_unfold)

subsection \<open>The laws of the interface\<close>

interpretation ctl: locked_object sect_start "sect_body relock" sect_whole sect_finish sect_op set_ticks
  for relock
proof
  show "sect_whole (sect_start q)" for q by (cases q) simp_all
  have eq: "sect_finish p s = continue sect_finish p s (s', x)"
    if "sect_whole p" "sect_body relock p s = Inr (s', x)" for p s s' x
    using sect_finish_body [OF that(1), of s relock] unfolding that(2) bindE_simps .
  show "sect_whole p' \<and> sect_finish p s = sect_finish p' s'"
    if "sect_whole p" "sect_body relock p s = Inr (s', Go p')" for p s s' p'
    using eq [OF that] sect_whole_body(1) [OF that] by (simp add: continue_def)
  show "sect_finish p s = Inr (s', r)" if "sect_whole p" "sect_body relock p s = Inr (s', Done r)" for p s s' r
    using eq [OF that] by (simp add: continue_def)
  show "sect_finish p s = Inl e" if "sect_whole p" "sect_body relock p s = Inl e" for p s e
    using sect_finish_body [OF that(1), of s relock] that(2) by simp
qed (simp_all add: sect_whole_body(2) sect_op_def sect_finish_put)

text \<open>Without a callback that waits for its own thread, every section ends.\<close>

fun list_rank :: "list_point \<Rightarrow> nat \<times> nat" where
  "list_rank ListBegin = (4, 0)"
| "list_rank (ListTop n idx evs) = (3, 3 * n)"
| "list_rank (ListCall n idx a f q evs) = (3, 3 * n + 2)"
| "list_rank (ListNested n idx a f q evs p) = (0, 0)"
| "list_rank (ListFree n idx a evs) = (3, 3 * n + 1)"
| "list_rank (ListDec n a evs) = (2, n)"
| "list_rank (ListEnd evs) = (1, 0)"

fun reset_rank :: "reset_point \<Rightarrow> nat \<times> nat" where
  "reset_rank (ResetBegin cb period param handle t) = (4, 0)"
| "reset_rank (ResetFill cb period param handle a) = (3, 0)"
| "reset_rank (ResetFind n idx a cN pN) = (2, n)"
| "reset_rank (ResetLink idx a pN cN) = (1, 0)"

fun point_rank :: "point \<Rightarrow> nat \<times> nat" where
  "point_rank (InList p) = list_rank p"
| "point_rank (InReset t p) = reset_rank p"

lemma list_body_rank:
  "sect_whole (InList p) \<Longrightarrow> list_body (\<lambda>_. None) p c = Inr (c', Go p') \<Longrightarrow>
     (list_rank p', list_rank p) \<in> less_than <*lex*> less_than"
  by (cases "(\<lambda>_::fire. None :: (addr \<times> int \<times> addr \<times> addr \<times> addr) option, p, c)" rule: list_body.cases)
     (auto simp: bindE_eq_Inr_iff split: if_splits)

lemma list_body_free: "sect_whole (InList p) \<Longrightarrow> list_body (\<lambda>_. None) p c \<noteq> Inr (c', Lock p')"
  by (cases "(\<lambda>_::fire. None :: (addr \<times> int \<times> addr \<times> addr \<times> addr) option, p, c)" rule: list_body.cases)
     (auto simp: bindE_eq_Inr_iff split: if_splits)

lemma reset_body_rank:
  "reset_body p c = Inr (c', Inl p') \<Longrightarrow> (reset_rank p', reset_rank p) \<in> less_than <*lex*> less_than"
  by (cases "(p, c)" rule: reset_body.cases) (auto simp: bindE_eq_Inr_iff split: if_splits)

lemma sect_body_rank:
  "sect_whole p \<Longrightarrow> sect_body (\<lambda>_. None) p c = Inr (c', Go p') \<Longrightarrow>
     (point_rank p', point_rank p) \<in> less_than <*lex*> less_than"
  by (cases p) (auto simp: sect_body_moves dest: list_body_rank reset_body_rank simp del: sect_body.simps)

interpretation ctl_end: finite_object sect_start "sect_body (\<lambda>_. None)" sect_whole sect_finish sect_op set_ticks point_rank
proof
  show "sect_body (\<lambda>_. None) p s \<noteq> Inr (s', Lock p')" if "sect_whole p" for p s s' p'
    using that list_body_free by (cases p) (auto simp: sect_body_moves simp del: sect_body.simps)
qed (rule sect_body_rank)

end
