(* ===== verification/TimerThreads.thy ===== *)
theory TimerThreads
  imports TimerSections
begin

section \<open>The alarm thread and its clients, in any interleaving\<close>

text \<open>
  The whole system around one controller: the alarm thread, which counts the tick, processes
  a slot when it is due and sets the counter back (\<open>timerLoopFunc\<close>), and any number of
  client threads that call \<open>tmrReset\<close>.  They interleave at the steps of \<open>TimerSections\<close>.
  The counter \<open>ticks\<close> is written without the mutex, and so is \<open>mseconds / resolution\<close> computed
  before it is taken.

  A state is the memory with the threads, whether the alarm thread is between its \<open>ticks++\<close>
  of a due period and its \<open>ticks = 0\<close>, and the handles that clients hold.  The events
  are those of \<open>TimerRuns\<close>: an operation happens when it gives the mutex back.  The theorem of
  this file: every interleaving is a run of the atomic operations, so all that \<open>TimerRuns\<close> and
  \<open>TimerProps\<close> say of runs holds of the threads.
\<close>

datatype tid = AlarmThread | Client nat

type_synonym sys = "(tid, section_call, point, tmr_ctrl_t) lock_sys \<times> bool \<times> addr set"

inductive sys_step :: "callbacks \<Rightarrow> sys \<Rightarrow> event option \<Rightarrow> sys \<Rightarrow> bool" for relock where
  tick: "th AlarmThread = Idle \<Longrightarrow> signature s \<noteq> 0 \<Longrightarrow> i32 (ticks s + 1) = Inr k \<Longrightarrow> k < maxTicks s \<Longrightarrow>
    sys_step relock ((s, ow, th), False, H) (Some (Alarm [])) ((set_ticks k s, ow, th), False, H)"
| due: "th AlarmThread = Idle \<Longrightarrow> signature s \<noteq> 0 \<Longrightarrow> i32 (ticks s + 1) = Inr k \<Longrightarrow> maxTicks s \<le> k \<Longrightarrow>
    sys_step relock ((s, ow, th), False, H) None
      ((set_ticks k s, ow, th(AlarmThread := Waiting ProcessList)), True, H)"
| restart: "th AlarmThread = Idle \<Longrightarrow>
    sys_step relock ((s, ow, th), True, H) None ((set_ticks 0 s, ow, th), False, H)"
| ask: "th (Client i) = Idle \<Longrightarrow> handle \<noteq> 0 \<Longrightarrow> t \<in> H \<Longrightarrow> int_ok ms \<Longrightarrow>
    c_div ms (resolution s) = Inr period \<Longrightarrow>
    sys_step relock ((s, ow, th), d, H) None
      ((s, ow, th(Client i := Waiting (ResetTmr cb period param handle t))), d, H)"
| locked: "lock_step sect_start (sect_body relock) m None m' \<Longrightarrow>
    sys_step relock (m, d, H) None (m', d, H)"
| processed: "lock_step sect_start (sect_body relock) m (Some (u, q, Alarm evs)) m' \<Longrightarrow>
    sys_step relock (m, d, H) (Some (Alarm evs)) (m', d, H)"
| armed: "lock_step sect_start (sect_body relock) m (Some (u, q, Armed t a)) m' \<Longrightarrow>
    sys_step relock (m, d, H) (Some (Armed t a)) (m', d, insert a H)"

inductive sys_run :: "callbacks \<Rightarrow> sys \<Rightarrow> event list \<Rightarrow> sys \<Rightarrow> bool" for relock where
  nil: "sys_run relock x [] x"
| quiet: "sys_step relock x None y \<Longrightarrow> sys_run relock y es z \<Longrightarrow> sys_run relock x es z"
| event: "sys_step relock x (Some e) y \<Longrightarrow> sys_run relock y es z \<Longrightarrow> sys_run relock x (e # es) z"

text \<open>The system in which every thread is outside.\<close>

definition at_rest :: "tmr_ctrl_t \<Rightarrow> addr set \<Rightarrow> sys" where
  "at_rest c H = ((c, None, \<lambda>_. Idle), False, H)"

subsection \<open>The sections and the operations\<close>

lemma sect_op_list: "sect_op ProcessList c = bindE (tmrProcessList c) (\<lambda>(c', evs). Inr (c', Alarm evs))"
  by (simp add: sect_op_def)

lemma sect_op_reset:
  "sect_op (ResetTmr cb period param handle t) c = bindE (reset_pObj c t) (\<lambda>(c1, pObj).
     if pObj = 0 then Inr (c1, Armed t 0)
     else bindE (arm_obj cb param handle period pObj c1) (\<lambda>c2. Inr (c2, Armed t pObj)))"
  by (simp add: sect_op_def bindE_assoc bindE_if case_prod_unfold cong: if_cong)

lemma tmrReset_section:
  assumes "handle \<noteq> 0" and "c_div ms (resolution c) = Inr period"
  shows "tmrReset cb ms param handle (Some t) c = Inr (c', Some a) \<longleftrightarrow>
    sect_op (ResetTmr cb period param handle t) c = Inr (c', Armed t a)"
  using assms by (auto simp: tmrReset_def sect_op_reset bindE_eq_Inr_iff split: if_splits)

lemma sect_op_event:
  "sect_op q c = Inr (c', Alarm evs) \<Longrightarrow> q = ProcessList"
  "sect_op q c = Inr (c', Armed t a) \<Longrightarrow> \<exists>cb period param handle. q = ResetTmr cb period param handle t"
  by (cases q; auto simp: sect_op_list sect_op_reset bindE_eq_Inr_iff split: if_splits)+

lemma set_ticks_triv [simp]: "set_ticks (ticks c) c = c"
  by (simp add: set_ticks_def)

lemma sect_op_ticks:
  assumes "sect_op q c = Inr (c', e)"
  shows "ticks c' = ticks c"
  using ctl.op_put [of q "ticks c" c] assms by (simp add: bindE_eq_Inr_iff) (metis set_ticks_sel(11))

text \<open>The fields that no section writes.\<close>

definition same_frame :: "tmr_ctrl_t \<Rightarrow> tmr_ctrl_t \<Rightarrow> bool" where
  "same_frame c c' \<longleftrightarrow> same_setup c c' \<and> ticks c' = ticks c"

lemma same_frameD:
  assumes "same_frame c c'"
  shows "signature c' = signature c" "resolution c' = resolution c" "maxTicks c' = maxTicks c"
    "ticks c' = ticks c"
  using assms by (simp_all add: same_frame_def same_setup_def)

lemma same_frame_set_ticks: "same_frame c s \<Longrightarrow> same_frame (set_ticks k c) (set_ticks k s)"
  by (simp add: same_frame_def same_setup_def)

lemma same_frame_refl [simp]: "same_frame c c"
  by (simp add: same_frame_def)

lemma same_frame_upd [simp]:
  "same_frame c (c'\<lparr>tmrList := ls\<rparr>) = same_frame c c'" "same_frame c (c'\<lparr>objs := h\<rparr>) = same_frame c c'"
  "same_frame c (c'\<lparr>poolHandle := q\<rparr>) = same_frame c c'" "same_frame c (c'\<lparr>numOfTmrs := m\<rparr>) = same_frame c c'"
  "same_frame c (c'\<lparr>periodsFromStart := v\<rparr>) = same_frame c c'"
  by (simp_all add: same_frame_def same_setup_def)

lemma groups_frame:
  "unlink_head idx c = Inr (c', v) \<Longrightarrow> same_frame c c'"
  "free_head a c = Inr c' \<Longrightarrow> same_frame c c'"
  "fill_obj cb param handle period pObj c = Inr (c', w) \<Longrightarrow> same_frame c c'"
  "set_links pObj idx pN cN c = Inr c' \<Longrightarrow> same_frame c c'"
  "unlink_obj c a = Inr c' \<Longrightarrow> same_frame c c'"
  by (auto simp: unlink_head_def free_head_def fill_obj_def set_links_def unlink_obj_def bindE_eq_Inr_iff)

lemma reset_pObj_frame: "reset_pObj c t = Inr (c', a) \<Longrightarrow> same_frame c c'"
  by (auto simp: reset_pObj_def bindE_eq_Inr_iff dest: groups_frame split: if_splits)

lemma reset_body_frame: "reset_body p c = Inr (c', x) \<Longrightarrow> same_frame c c'"
  by (cases "(p, c)" rule: reset_body.cases)
     (auto simp: bindE_eq_Inr_iff dest: groups_frame reset_pObj_frame split: if_splits)

lemma list_body_frame:
  assumes "list_body relock p c = Inr (c', x)"
  shows "same_frame c c'"
proof (cases "\<exists>n idx a f q evs rp. p = ListNested n idx a f q evs rp")
  case True
  then obtain n idx a f q evs rp where p: "p = ListNested n idx a f q evs rp" by blast
  with assms obtain c1 y where "reset_body rp c = Inr (c1, y)" by (auto simp: bindE_eq_Inr_iff)
  with assms reset_body_frame [OF this] show ?thesis by (cases y) (simp_all add: p)
next
  case False
  then show ?thesis
    using assms by (cases "(relock, p, c)" rule: list_body.cases)
      (auto simp: bindE_eq_Inr_iff dest: groups_frame split: if_splits option.split_asm)
qed

lemma sect_body_frame: "sect_body relock p c = Inr (c', x) \<Longrightarrow> same_frame c c'"
  by (cases p) (auto simp: bindE_eq_Inr_iff dest: list_body_frame reset_body_frame)

lemma lock_step_frame:
  "lock_step sect_start (sect_body relock) (s, ow, th) v (s', ow', th') \<Longrightarrow> same_frame s s'"
  by (erule lock_step.cases) (auto dest: sect_body_frame)

subsection \<open>The refinement map\<close>

text \<open>
  The controller of the atomic run that the alarm thread's place stands for: a counted tick
  has not happened yet until its slot is processed, and has set the counter back then.
\<close>

definition alarm_at :: "bool \<Rightarrow> (section_call, point) thread \<Rightarrow> tmr_ctrl_t \<Rightarrow> tmr_ctrl_t \<Rightarrow> bool" where
  "alarm_at d x c A \<longleftrightarrow>
     (if \<not> d then x = Idle \<and> A = c
      else if x = Idle then A = set_ticks 0 c
      else asked x = Some ProcessList \<and> A = set_ticks (ticks c - 1) c
        \<and> maxTicks c \<le> ticks c \<and> int_ok (ticks c))"

fun request_ok :: "tmr_ctrl_t \<Rightarrow> addr set \<Rightarrow> section_call \<Rightarrow> bool" where
  "request_ok A H ProcessList = False"
| "request_ok A H (ResetTmr cb period param handle t) \<longleftrightarrow>
     t \<in> H \<and> handle \<noteq> 0 \<and> (\<exists>ms. int_ok ms \<and> c_div ms (resolution A) = Inr period)"

definition requests_ok :: "tmr_ctrl_t \<Rightarrow> addr set \<Rightarrow> (tid \<Rightarrow> (section_call, point) thread) \<Rightarrow> bool" where
  "requests_ok A H th \<longleftrightarrow> (\<forall>i q. asked (th (Client i)) = Some q \<longrightarrow> request_ok A H q)"

fun sim_by :: "tmr_ctrl_t \<Rightarrow> sys \<Rightarrow> tmr_ctrl_t \<Rightarrow> bool" where
  "sim_by c ((s, ow, th), d, H) A \<longleftrightarrow> clients_ok (A, H) \<and> serial sect_whole sect_finish sect_op (s, ow, th) c
     \<and> same_frame c s \<and> alarm_at d (th AlarmThread) c A \<and> requests_ok A H th"

definition sim :: "sys \<Rightarrow> tmr_ctrl_t \<Rightarrow> bool" where
  "sim x A \<longleftrightarrow> (\<exists>c. sim_by c x A)"

lemma request_ok_mono: "request_ok A H q \<Longrightarrow> same_setup A A' \<Longrightarrow> H \<subseteq> H' \<Longrightarrow> request_ok A' H' q"
  by (cases q) (auto simp: same_setup_def)

lemma requests_ok_mono: "requests_ok A H th \<Longrightarrow> same_setup A A' \<Longrightarrow> H \<subseteq> H' \<Longrightarrow> requests_ok A' H' th"
  unfolding requests_ok_def using request_ok_mono by blast

lemma alarm_at_cases:
  assumes "alarm_at d x c A"
  obtains "\<not> d" "x = Idle" "A = c" | "d" "x = Idle" "A = set_ticks 0 c"
  | "d" "asked x = Some ProcessList" "A = set_ticks (ticks c - 1) c" "maxTicks c \<le> ticks c" "int_ok (ticks c)"
  using assms by (auto simp: alarm_at_def split: if_splits)

lemma alarm_at_ticks: "alarm_at d x c A \<Longrightarrow> A = set_ticks (ticks A) c"
  by (erule alarm_at_cases) simp_all

lemma set_ticks_same: "same_setup (set_ticks k c) c" "same_setup c (set_ticks k c)"
  by (simp_all add: same_setup_def)

text \<open>What the invariant of the atomic run says of the memory.\<close>

lemma inv_set_ticks:
  "ctrl_inv (set_ticks k c) = ctrl_inv c" "valid_handle (set_ticks k c) t = valid_handle c t"
  "timers (set_ticks k c) = timers c"
  by (simp_all add: set_ticks_def)

lemma sim_allowed:
  assumes "clients_ok (A, H)" and "alarm_at d (th AlarmThread) c A" and "requests_ok A H th"
  shows "allowed sect_op th c"
proof -
  have A: "A = set_ticks (ticks A) c" using alarm_at_ticks [OF assms(2)] .
  have "clients_ok (set_ticks (ticks A) c, H)" using assms(1) A by metis
  then have inv: "ctrl_inv c" "\<And>t. t \<in> H \<Longrightarrow> valid_handle c t"
    by (simp_all add: clients_ok_def live_def inv_set_ticks)
  have res: "resolution c = resolution A" using A by (metis set_ticks_sel(2))
  have "\<exists>v. sect_op q c = Inr v" if q: "asked (th u) = Some q" for u q
  proof (cases q)
    case ProcessList
    with ctrl_inv_step [OF inv(1)] show ?thesis by (auto simp: sect_op_list)
  next
    case (ResetTmr cb period param handle t)
    have "u \<noteq> AlarmThread" using assms(2) q ResetTmr by (auto elim: alarm_at_cases)
    then obtain i where "u = Client i" by (cases u) auto
    with assms(3) q ResetTmr obtain ms where r: "t \<in> H" "handle \<noteq> 0" "int_ok ms"
      "c_div ms (resolution c) = Inr period" by (fastforce simp: requests_ok_def res)
    from tmrReset_step [OF inv(1) inv(2) [OF r(1)] r(2,3), of cb param] obtain c' a where
      "tmrReset cb ms param handle (Some t) c = Inr (c', Some a)" by blast
    with tmrReset_section [where c = c, OF r(2,4)] show ?thesis by (auto simp: ResetTmr)
  qed
  then show ?thesis by (auto simp: allowed_def)
qed

lemma sim_at_rest: "clients_ok (c, H) \<Longrightarrow> sim (at_rest c H) c"
  by (auto simp: sim_def at_rest_def alarm_at_def requests_ok_def intro!: exI [of _ c])

subsection \<open>Every step is a step of the atomic run, or none\<close>

lemma alarm_at_asked:
  assumes "asked x = asked y" and "\<not> failed x" and "\<not> failed y"
  shows "alarm_at d x c A = alarm_at d y c A"
proof -
  have "x = Idle \<longleftrightarrow> y = Idle" using assms by (cases x; cases y) simp_all
  then show ?thesis using assms(1) by (simp add: alarm_at_def)
qed

lemma sim_locked:
  assumes st: "lock_step sect_start (sect_body relock) m None m'" and x: "sim (m, d, H) A"
  shows "sim (m', d, H) A"
proof -
  obtain s ow th s' ow' th' where m: "m = (s, ow, th)" "m' = (s', ow', th')" by (cases m; cases m') auto
  from x obtain c where c: "clients_ok (A, H)" "serial sect_whole sect_finish sect_op (s, ow, th) c" "same_frame c s"
    "alarm_at d (th AlarmThread) c A" "requests_ok A H th" by (auto simp: sim_def m)
  from ctl.serial_quiet [OF st, of c] c(2) sim_allowed [OF c(1,4,5)]
  have s': "serial sect_whole sect_finish sect_op (s', ow', th') c" "\<forall>t. asked (th' t) = asked (th t)"
    by (simp_all add: m del: serial.simps)
  have "\<not> failed (th AlarmThread)" "\<not> failed (th' AlarmThread)" using c(2) s'(1) by auto
  then have "alarm_at d (th' AlarmThread) c A"
    using c(4) s'(2) alarm_at_asked [of "th AlarmThread" "th' AlarmThread"] by simp
  moreover have "requests_ok A H th'" using c(5) s'(2) by (simp add: requests_ok_def)
  moreover have "same_frame c s'" using c(3) lock_step_frame [OF st [unfolded m]]
    by (simp add: same_frame_def same_setup_def)
  ultimately show ?thesis using c(1) s'(1) by (auto simp: sim_def m simp del: serial.simps)
qed

lemma sim_processed:
  assumes st: "lock_step sect_start (sect_body relock) m (Some (u, q, Alarm evs)) m'" and x: "sim (m, d, H) A"
  shows "\<exists>A'. timer_step (A, H) (Alarm evs) (A', H) \<and> sim (m', d, H) A'"
proof -
  obtain s ow th where m: "m = (s, ow, th)" by (cases m) auto
  from x obtain c where c: "clients_ok (A, H)" "serial sect_whole sect_finish sect_op (s, ow, th) c" "same_frame c s"
    "alarm_at d (th AlarmThread) c A" "requests_ok A H th" by (auto simp: sim_def m)
  from ctl.serial_done [OF st] c(2) obtain c' where c': "sect_op q c = Inr (c', Alarm evs)"
    "serial sect_whole sect_finish sect_op m' c'" "asked (th u) = Some q" "m' = (c', None, th(u := Idle))"
    by (auto simp: m simp del: serial.simps)
  have q: "q = ProcessList" using sect_op_event(1) [OF c'(1)] .
  then have u: "u = AlarmThread" using c(5) c'(3) by (cases u) (fastforce simp: requests_ok_def)+
  from c(4) c'(3) q u have a: "d" "A = set_ticks (ticks c - 1) c" "maxTicks c \<le> ticks c" "int_ok (ticks c)"
    by (auto elim: alarm_at_cases)
  have run: "tmrProcessList c = Inr (c', evs)" using c'(1) by (auto simp: q sect_op_list bindE_eq_Inr_iff)
  have "A\<lparr>ticks := ticks c\<rparr> = c" by (simp add: a(2) set_ticks_def)
  moreover have "signature A \<noteq> 0" using c(1) by (simp add: clients_ok_def live_def)
  ultimately have "tick_ctrl A = Inr (set_ticks 0 c', evs)"
    using a run by (simp add: tick_ctrl_def c_simps set_ticks_def)
  then have ts: "timer_step (A, H) (Alarm evs) (set_ticks 0 c', H)" by (rule timer_step.alarm)
  note ok = timer_step_ok [OF ts c(1)]
  have "requests_ok (set_ticks 0 c') H (th(u := Idle))"
    using requests_ok_mono [OF c(5), of "set_ticks 0 c'" H] ok by (simp add: requests_ok_def u)
  then have "sim (m', d, H) (set_ticks 0 c')"
    using ok c'(2) a(1) by (auto simp: sim_def c'(4) alarm_at_def u simp del: serial.simps)
  with ts show ?thesis by blast
qed

lemma sim_armed:
  assumes st: "lock_step sect_start (sect_body relock) m (Some (u, q, Armed t a)) m'" and x: "sim (m, d, H) A"
  shows "\<exists>A'. timer_step (A, H) (Armed t a) (A', insert a H) \<and> sim (m', d, insert a H) A'"
proof -
  obtain s ow th where m: "m = (s, ow, th)" by (cases m) auto
  from x obtain c where c: "clients_ok (A, H)" "serial sect_whole sect_finish sect_op (s, ow, th) c" "same_frame c s"
    "alarm_at d (th AlarmThread) c A" "requests_ok A H th" by (auto simp: sim_def m)
  from ctl.serial_done [OF st] c(2) obtain c' where c': "sect_op q c = Inr (c', Armed t a)"
    "serial sect_whole sect_finish sect_op m' c'" "asked (th u) = Some q" "m' = (c', None, th(u := Idle))"
    by (auto simp: m simp del: serial.simps)
  from sect_op_event(2) [OF c'(1)] obtain cb period param handle where
    q: "q = ResetTmr cb period param handle t" by blast
  then have "u \<noteq> AlarmThread" using c(4) c'(3) by (auto elim: alarm_at_cases)
  then obtain i where u: "u = Client i" by (cases u) auto
  from c(5) c'(3) obtain ms where r: "t \<in> H" "handle \<noteq> 0" "int_ok ms" "c_div ms (resolution A) = Inr period"
    by (fastforce simp: requests_ok_def u q)
  let ?A = "set_ticks (ticks A) c'"
  note A = alarm_at_ticks [OF c(4)]
  have "sect_op q A = Inr (?A, Armed t a)" by (subst A) (simp add: ctl.op_put c'(1))
  then have "tmrReset cb ms param handle (Some t) A = Inr (?A, Some a)"
    using tmrReset_section [where c = A, OF r(2,4)] by (simp add: q)
  from timer_step.reset [OF r(2,1,3) this] have ts: "timer_step (A, H) (Armed t a) (?A, insert a H)" .
  note ok = timer_step_ok [OF ts c(1)]
  have "maxTicks c' = maxTicks c" "ticks c' = ticks c"
    using ok A sect_op_ticks [OF c'(1)] by (simp_all add: same_setup_def) (metis set_ticks_sel(8))
  then have "alarm_at d (th AlarmThread) c' ?A"
    using c(4) set_ticks_triv [of c'] by (auto simp: alarm_at_def simp del: set_ticks_triv)
  moreover have "requests_ok ?A (insert a H) (th(u := Idle))"
    using requests_ok_mono [OF c(5), of ?A "insert a H"] ok by (auto simp: requests_ok_def u)
  ultimately have "sim (m', d, insert a H) ?A"
    using ok c'(2) by (auto simp: sim_def c'(4) u simp del: serial.simps)
  with ts show ?thesis by blast
qed

lemma sim_step:
  assumes "sys_step relock x v y" and "sim x A"
  shows "\<exists>A'. (case v of None \<Rightarrow> A' = A \<and> snd (snd y) = snd (snd x)
      | Some e \<Rightarrow> timer_step (A, snd (snd x)) e (A', snd (snd y))) \<and> sim y A'"
  using assms(1)
proof (cases rule: sys_step.cases)
  case (tick th s k ow H)
  with assms(2) have c: "clients_ok (A, H)" "serial sect_whole sect_finish sect_op (s, ow, th) A" "same_frame A s"
    "requests_ok A H th" by (auto simp: sim_def alarm_at_def)
  note f = same_frameD [OF c(3)]
  have "tick_ctrl A = Inr (set_ticks k A, [])" using tick f by (simp add: tick_ctrl_def set_ticks_def)
  then have ts: "timer_step (A, H) (Alarm []) (set_ticks k A, H)" by (rule timer_step.alarm)
  have "sim y (set_ticks k A)"
    using timer_step_ok [OF ts c(1)] ctl.serial_put [OF c(2), of k] same_frame_set_ticks [OF c(3), of k]
      requests_ok_mono [OF c(4) set_ticks_same(2), of H k] tick(4)
    by (auto simp: sim_def tick(3) alarm_at_def simp del: serial.simps)
  with ts tick show ?thesis by auto
next
  case (due th s k ow H)
  with assms(2) have c: "clients_ok (A, H)" "serial sect_whole sect_finish sect_op (s, ow, th) A" "same_frame A s"
    "requests_ok A H th" by (auto simp: sim_def alarm_at_def)
  have k: "int_ok k" "k = ticks A + 1" "maxTicks A \<le> k"
    using due same_frameD [OF c(3)] by (simp_all add: i32_eq_Inr)
  have "sim_by (set_ticks k A) y A"
    using ctl.serial_ask [where q = ProcessList, OF ctl.serial_put [OF c(2), of k] due(4)]
      same_frame_set_ticks [OF c(3), of k] c(1,4) k
    by (simp add: due(3) alarm_at_def requests_ok_def del: serial.simps)
  then show ?thesis using due by (auto simp: sim_def)
next
  case (restart th s ow H)
  with assms(2) obtain c where c: "clients_ok (A, H)" "serial sect_whole sect_finish sect_op (s, ow, th) c" "same_frame c s"
    "requests_ok A H th" "A = set_ticks 0 c" by (auto simp: sim_def alarm_at_def)
  have "sim_by A y A"
    using ctl.serial_put [OF c(2), of 0] same_frame_set_ticks [OF c(3), of 0] c(1,4) restart(4)
    by (simp add: restart(3) alarm_at_def c(5) [symmetric] del: serial.simps)
  then show ?thesis using restart by (auto simp: sim_def)
next
  case (ask th i handle t H ms s period ow d cb param)
  with assms(2) obtain c where c: "clients_ok (A, H)" "serial sect_whole sect_finish sect_op (s, ow, th) c" "same_frame c s"
    "alarm_at d (th AlarmThread) c A" "requests_ok A H th" by (auto simp: sim_def)
  have "resolution A = resolution s"
    using alarm_at_ticks [OF c(4)] same_frameD(2) [OF c(3)] by (metis set_ticks_sel(2))
  then have "sim_by c y A"
    using ctl.serial_ask [where q = "ResetTmr cb period param handle t", OF c(2) ask(4)] c ask
    by (auto simp: requests_ok_def simp del: serial.simps)
  then show ?thesis using ask by (auto simp: sim_def)
next
  case (locked m m' d H)
  with sim_locked [OF locked(4)] assms(2) show ?thesis by auto
next
  case (processed m u q evs m' d H)
  with sim_processed [OF processed(4)] assms(2) show ?thesis by auto
next
  case (armed m u q t a m' d H)
  with sim_armed [OF armed(4)] assms(2) show ?thesis by auto
qed

text \<open>Every interleaving is a run of the atomic operations.\<close>

lemma sim_run:
  assumes "sys_run relock x es y" and "sim x A"
  shows "\<exists>A'. timer_run (A, snd (snd x)) es (A', snd (snd y)) \<and> sim y A'"
  using assms
proof (induction arbitrary: A rule: sys_run.induct)
  case (nil x)
  then show ?case by auto
next
  case (quiet x y es z)
  from sim_step [OF quiet.hyps(1) quiet.prems] have "sim y A" "snd (snd y) = snd (snd x)" by auto
  with quiet.IH show ?case by metis
next
  case (event x e y es z)
  from sim_step [OF event.hyps(1) event.prems] obtain A' where
    "timer_step (A, snd (snd x)) e (A', snd (snd y))" "sim y A'" by auto
  with event.IH [of A'] show ?case by (auto intro: timer_run.cons)
qed

end
