(* ===== verification/TimerThreadProps.thy ===== *)
theory TimerThreadProps
  imports TimerThreads TimerDemo
begin

section \<open>What holds of the alarm thread and its clients\<close>

text \<open>
  The theorems over all interleavings: they are runs of the atomic operations, and each such
  run occurs; timers are called on time; every operation that has been asked for can be
  completed; and what a callback does that re-arms a timer of its own controller.
\<close>

subsection \<open>Runs\<close>

lemma sys_run_append:
  "sys_run relock x es y \<Longrightarrow> sys_run relock y fs z \<Longrightarrow> sys_run relock x (es @ fs) z"
  by (induction rule: sys_run.induct) (auto intro: sys_run.intros)

lemma sys_run_one: "sys_step relock x (Some e) y \<Longrightarrow> sys_run relock x [e] y"
  by (auto intro: sys_run.intros)

lemma sys_run_quiet: "sys_step relock x None y \<Longrightarrow> sys_run relock x [] y"
  by (auto intro: sys_run.intros)

lemma run_locked:
  assumes "(\<lambda>m m'. lock_step sect_start (sect_body relock) m None m')\<^sup>*\<^sup>* m m'"
  shows "sys_run relock (m, d, H) [] (m', d, H)"
  using assms
proof (induction rule: converse_rtranclp_induct)
  case (step m m1)
  from sys_step.locked [OF step.hyps(1)] step.IH show ?case by (rule sys_run.quiet)
qed (rule sys_run.nil)

definition grow :: "event \<Rightarrow> addr set \<Rightarrow> addr set" where
  "grow e H = (case e of Alarm evs \<Rightarrow> H | Armed t a \<Rightarrow> insert a H)"

lemma run_released:
  assumes "lock_step sect_start (sect_body relock) m (Some (u, q, e)) m'"
  shows "sys_run relock (m, d, H) [e] (m', d, grow e H)"
  using assms by (cases e) (auto simp: grow_def intro: sys_run_one sys_step.intros)

text \<open>A thread that has the mutex, or waits for a free one, completes its operation on its own.\<close>

lemma holder_runs:
  assumes "sect_finish p s = Inr (c', e)" and "sect_whole p" and "th t = Running q p"
  shows "sys_run (\<lambda>_. None) ((s, Some t, th), d, H) [e] ((c', None, th(t := Idle)), d, grow e H)"
proof -
  from ctl_end.holder_finishes [where th = th and t = t, OF assms] obtain m1 where
    "(\<lambda>m m'. lock_step sect_start (sect_body (\<lambda>_. None)) m None m')\<^sup>*\<^sup>* (s, Some t, th) m1"
    "lock_step sect_start (sect_body (\<lambda>_. None)) m1 (Some (t, q, e)) (c', None, th(t := Idle))" by blast
  from sys_run_append [OF run_locked [OF this(1)] run_released [OF this(2)]] show ?thesis by simp
qed

lemma waiting_runs:
  assumes "sect_op q s = Inr (c', e)" and "th t = Waiting q"
  shows "sys_run (\<lambda>_. None) ((s, None, th), d, H) [e] ((c', None, th(t := Idle)), d, grow e H)"
proof -
  have "sys_step (\<lambda>_. None) ((s, None, th), d, H) None ((s, Some t, th(t := Running q (sect_start q))), d, H)"
    by (intro sys_step.locked lock_step.acquire assms(2))
  moreover have "sys_run (\<lambda>_. None) ((s, Some t, th(t := Running q (sect_start q))), d, H) [e]
      ((c', None, (th(t := Running q (sect_start q)))(t := Idle)), d, grow e H)"
    by (rule holder_runs) (use assms(1) in \<open>simp_all add: sect_op_def ctl.whole_start\<close>)
  ultimately show ?thesis by (auto intro: sys_run.quiet)
qed

text \<open>An atomic step, made by threads one after the other.\<close>

lemma atomic_alarm:
  assumes l: "live c" and run: "tick_ctrl c = Inr (c', evs)"
  shows "sys_run (\<lambda>_. None) (at_rest c H) [Alarm evs] (at_rest c' H)"
proof -
  have k: "i32 (ticks c + 1) = Inr (ticks c + 1)" "signature c \<noteq> 0"
    using l by (simp_all add: live_def c_simps)
  show ?thesis
  proof (cases "ticks c + 1 < maxTicks c")
    case True
    then have "c' = set_ticks (ticks c + 1) c" "evs = []" using run k by (auto simp: tick_ctrl_def set_ticks_def)
    with True k show ?thesis by (auto simp: at_rest_def intro: sys_run_one sys_step.tick)
  next
    case False
    then obtain c1 where c1: "tmrProcessList (set_ticks (ticks c + 1) c) = Inr (c1, evs)" "c' = set_ticks 0 c1"
      using run k by (auto simp: tick_ctrl_def set_ticks_def bindE_eq_Inr_iff)
    let ?th = "(\<lambda>_. Idle)(AlarmThread := Waiting ProcessList)"
    have s1: "sys_step (\<lambda>_. None) (at_rest c H) None ((set_ticks (ticks c + 1) c, None, ?th), True, H)"
      unfolding at_rest_def by (rule sys_step.due) (use k False in simp_all)
    have s2: "sys_run (\<lambda>_. None) ((set_ticks (ticks c + 1) c, None, ?th), True, H) [Alarm evs]
        ((c1, None, ?th(AlarmThread := Idle)), True, grow (Alarm evs) H)"
      by (rule waiting_runs) (simp_all add: sect_op_list c1)
    have th: "?th(AlarmThread := Idle) = (\<lambda>_. Idle)" by auto
    have s3: "sys_step (\<lambda>_. None) ((c1, None, \<lambda>_. Idle), True, H) None (at_rest c' H)"
      unfolding at_rest_def c1(2) by (rule sys_step.restart) simp
    from sys_run_append [OF sys_run.quiet [OF s1 s2 [unfolded th]]] sys_run_quiet [OF s3]
    show ?thesis by (simp add: grow_def)
  qed
qed

lemma atomic_step:
  assumes ok: "clients_ok (c, H)" and st: "timer_step (c, H) e (c', H')"
  shows "sys_run (\<lambda>_. None) (at_rest c H) [e] (at_rest c' H')"
  using st
proof (cases rule: timer_step.cases)
  case (alarm evs)
  with atomic_alarm [of c] ok show ?thesis by (simp add: clients_ok_def)
next
  case (reset handle t ms cb param a)
  have "0 < resolution c" using ok by (auto simp: clients_ok_def live_def ctrl_inv_def dest: wheelD)
  with c_div_ok [OF this reset(5)] obtain period where p: "c_div ms (resolution c) = Inr period" by blast
  have op: "sect_op (ResetTmr cb period param handle t) c = Inr (c', Armed t a)"
    using reset tmrReset_section [where c = c, OF reset(3) p] by simp
  let ?th = "(\<lambda>_. Idle)(Client 0 := Waiting (ResetTmr cb period param handle t))"
  have s1: "sys_step (\<lambda>_. None) (at_rest c H) None ((c, None, ?th), False, H)"
    unfolding at_rest_def by (rule sys_step.ask) (use reset p in simp_all)
  have s2: "sys_run (\<lambda>_. None) ((c, None, ?th), False, H) [Armed t a]
      ((c', None, ?th(Client 0 := Idle)), False, grow (Armed t a) H)"
    using op by (rule waiting_runs) simp
  have th: "?th(Client 0 := Idle) = (\<lambda>_. Idle)" by auto
  from sys_run.quiet [OF s1 s2 [unfolded th]] show ?thesis
    by (simp add: at_rest_def [of c'] grow_def reset(1,2))
qed

lemma atomic_run:
  "timer_run x es y \<Longrightarrow> clients_ok x \<Longrightarrow>
     sys_run (\<lambda>_. None) (at_rest (fst x) (snd x)) es (at_rest (fst y) (snd y))"
proof (induction rule: timer_run.induct)
  case (cons x e y es z)
  have "sys_run (\<lambda>_. None) (at_rest (fst x) (snd x)) [e] (at_rest (fst y) (snd y))"
    by (rule atomic_step) (use cons in simp_all)
  from sys_run_append [OF this cons.IH] timer_step_ok [OF cons.hyps(1) cons.prems] show ?case by simp
qed (rule sys_run.nil)

subsection \<open>The calls that have been made\<close>

text \<open>A call that is recorded is one that returned: no callback that waits for its own thread.\<close>

fun list_calls :: "list_point \<Rightarrow> fire list" where
  "list_calls ListBegin = []"
| "list_calls (ListTop n idx evs) = evs"
| "list_calls (ListDec n a evs) = evs"
| "list_calls (ListCall n idx a f q evs) = evs"
| "list_calls (ListNested n idx a f q evs p) = evs"
| "list_calls (ListFree n idx a evs) = evs"
| "list_calls (ListEnd evs) = evs"

fun calls_of :: "point \<Rightarrow> fire list" where
  "calls_of (InList p) = list_calls p"
| "calls_of (InReset t p) = []"

definition returned :: "callbacks \<Rightarrow> fire list \<Rightarrow> bool" where
  "returned relock evs \<longleftrightarrow> (\<forall>e\<in>set evs. relock e = None)"

definition all_returned :: "callbacks \<Rightarrow> sys \<Rightarrow> bool" where
  "all_returned relock x \<longleftrightarrow> (\<forall>t q p. snd (snd (fst x)) t = Running q p \<longrightarrow> returned relock (calls_of p))"

lemma returned_simps [simp]:
  "returned relock []" "returned relock (evs @ [e]) \<longleftrightarrow> returned relock evs \<and> relock e = None"
  by (auto simp: returned_def)

lemma list_body_returned:
  assumes "sect_whole (InList p)" and "returned relock (list_calls p)"
  shows "list_body relock p c = Inr (c', Go p') \<Longrightarrow> returned relock (list_calls p')"
    and "list_body relock p c = Inr (c', Lock p') \<Longrightarrow> returned relock (list_calls p')"
    and "list_body relock p c = Inr (c', Done evs) \<Longrightarrow> returned relock evs"
  using assms
  by (cases "(relock, p, c)" rule: list_body.cases; auto simp: bindE_eq_Inr_iff split: if_splits option.split_asm)+

lemma sect_body_returned:
  assumes "sect_whole p" and "returned relock (calls_of p)"
  shows "sect_body relock p c = Inr (c', Go p') \<Longrightarrow> returned relock (calls_of p')"
    and "sect_body relock p c = Inr (c', Lock p') \<Longrightarrow> returned relock (calls_of p')"
    and "sect_body relock p c = Inr (c', Done (Alarm evs)) \<Longrightarrow> returned relock evs"
  using assms
  by (cases p; auto simp: sect_body_moves simp del: sect_body.simps dest: list_body_returned)+

lemma sect_start_returned: "returned relock (calls_of (sect_start q))"
  by (cases q) simp_all

lemma lock_step_returned:
  assumes st: "lock_step sect_start (sect_body relock) m v m'" and ret: "all_returned relock (m, d, H)"
    and ser: "serial sect_whole sect_finish sect_op m c"
  shows "all_returned relock (m', d', H')"
    and "v = Some (u, q, Alarm evs) \<Longrightarrow> returned relock evs"
proof -
  obtain s ow th where m: "m = (s, ow, th)" by (cases m)
  have whole: "sect_whole p" if "snd (snd m) t = Running q p" for t q p
    by (rule ctl.serial_inside(2) [OF ser [unfolded m]]) (use that m in simp)
  have ret': "returned relock (calls_of p)" if "snd (snd m) t = Running q p" for t q p
    using ret that by (simp add: all_returned_def)
  show "all_returned relock (m', d', H')"
    using st
  proof (cases rule: lock_step.cases)
    case (unlock th t q p s s' p' ow)
    with whole [of t q p] sect_whole_body(2) show ?thesis by simp
  next
    case (progress th t q p s s' p' ow)
    with whole [of t q p] ret' [of t q p] have "returned relock (calls_of p')" by (auto intro: sect_body_returned(1))
    with progress ret show ?thesis by (auto simp: all_returned_def)
  next
    case (lock th t q p s s' p')
    with whole [of t q p] ret' [of t q p] have "returned relock (calls_of p')" by (auto intro: sect_body_returned(2))
    with lock ret show ?thesis by (auto simp: all_returned_def)
  qed (use ret whole ret' in \<open>auto simp: all_returned_def sect_start_returned\<close>)
  show "returned relock evs" if "v = Some (u, q, Alarm evs)"
    using st
  proof (cases rule: lock_step.cases)
    case (release th t q' p s s' r ow)
    with that whole [of t q' p] ret' [of t q' p] sect_body_returned(3) show ?thesis by auto
  qed (use that in simp_all)
qed

lemma sys_step_returned:
  assumes st: "sys_step relock x v y" and ret: "all_returned relock x" and x: "sim x A"
  shows "all_returned relock y" and "v = Some (Alarm evs) \<Longrightarrow> returned relock evs"
proof -
  obtain c where ser: "serial sect_whole sect_finish sect_op (fst x) c"
    using x by (cases x) (auto simp: sim_def simp del: serial.simps)
  show "all_returned relock y"
    using st by (cases rule: sys_step.cases)
      (use ret ser in \<open>auto simp: all_returned_def split: if_splits dest: lock_step_returned(1) [unfolded all_returned_def] simp del: serial.simps\<close>)
  show "v = Some (Alarm evs) \<Longrightarrow> returned relock evs"
    using st by (cases rule: sys_step.cases) (use ret ser in \<open>auto dest: lock_step_returned(2) simp del: serial.simps\<close>)
qed

lemma sys_run_returned:
  "sys_run relock x es y \<Longrightarrow> all_returned relock x \<Longrightarrow> sim x A \<Longrightarrow> Alarm evs \<in> set es \<Longrightarrow> returned relock evs"
proof (induction arbitrary: A rule: sys_run.induct)
  case (quiet x y es z)
  from sim_step [OF quiet.hyps(1) quiet.prems(2)] have "sim y A" by auto
  with quiet sys_step_returned(1) [OF quiet.hyps(1) quiet.prems(1,2)] show ?case by blast
next
  case (event x e y es z)
  from sim_step [OF event.hyps(1) event.prems(2)] obtain A' where "sim y A'" by auto
  with event sys_step_returned [OF event.hyps(1) event.prems(1,2)] show ?case by auto
qed simp

lemma at_rest_returned [simp]: "all_returned relock (at_rest c H)"
  by (simp add: all_returned_def at_rest_def)

lemma nth_alarm:
  "n < alarms es \<Longrightarrow> \<exists>es1 evs es2. es = es1 @ Alarm evs # es2 \<and> alarms es1 = n"
proof (induction es arbitrary: n)
  case (Cons e es)
  show ?case
  proof (cases e)
    case (Alarm evs)
    show ?thesis
    proof (cases n)
      case 0
      then show ?thesis using Alarm by (intro exI [of _ "[]"] exI [of _ evs] exI [of _ es]) simp
    next
      case (Suc k)
      with Cons.prems Alarm have "k < alarms es" by simp
      from Cons.IH [OF this] obtain es1 evs' es2 where "es = es1 @ Alarm evs' # es2" "alarms es1 = k" by blast
      with Alarm Suc show ?thesis by (intro exI [of _ "e # es1"]) auto
    qed
  next
    case (Armed t a)
    with Cons.prems have "n < alarms es" by simp
    from Cons.IH [OF this] obtain es1 evs' es2 where "es = es1 @ Alarm evs' # es2" "alarms es1 = n" by blast
    with Armed show ?thesis by (intro exI [of _ "e # es1"]) auto
  qed
qed simp

lemma threads_run:
  assumes "sys_run relock (at_rest c H) es y" and "clients_ok (c, H)"
  obtains A where "timer_run (c, H) es (A, snd (snd y))" "sim y A"
  using sim_run [OF assms(1) sim_at_rest [OF assms(2)]] by (auto simp: at_rest_def)

text \<open>A timer that is in a list of calls to distinct timers is called once.\<close>

lemma only_call:
  fixes evs :: "fire list"
  assumes "{(f', q'). (f', q', a) \<in> set evs} = {(f, q)}" and "distinct (map (\<lambda>(f, q, a). a) evs)"
  shows "filter (\<lambda>(f', q', b). b = a) evs = [(f, q, a)]"
proof -
  have "(f, q, a) \<in> set evs" using assms(1) by blast
  then obtain us vs where e: "evs = us @ (f, q, a) # vs" by (meson split_list)
  have "filter (\<lambda>(f', q', b). b = a) ws = []" if "a \<notin> (\<lambda>(f, q, a). a) ` set ws" for ws :: "fire list"
    using that by (induction ws) auto
  then show ?thesis using assms(2) by (simp add: e)
qed

lemma threads_due_alarm:
  assumes run: "sys_run relock (at_rest c H) (es @ Alarm evs # fs) y" and ok: "clients_ok (c, H)"
    and t: "timers c a = Some (r, f, q)" "0 \<le> r" "f \<noteq> 0" "no_wrap c (r + 1)"
    and n: "int (alarms es) + 1 = due_alarm c r" and no: "\<forall>b. Armed a b \<notin> set es"
  shows "a \<notin> \<Union> (called ` set es) \<and> filter (\<lambda>(f', q', b). b = a) evs = [(f, q, a)]"
proof -
  from threads_run [OF run ok] obtain A where "timer_run (c, H) (es @ Alarm evs # fs) (A, snd (snd y))" .
  then obtain x z where x: "timer_run (c, H) es x" "timer_step x (Alarm evs) z"
    by (auto simp: timer_run_append)
  obtain c1 H1 where c1: "x = (c1, H1)" by (cases x)
  with x(2) obtain c2 where c2: "tick_ctrl c1 = Inr (c2, evs)" by (auto elim: alarmE)
  have "due_in (int (alarms es) + 1) f q a (fst (c, H))" using t n by (auto simp: due_in_def)
  from due_timer_fires [OF x(1) [unfolded c1] ok this t(3) no] c2 have
    "a \<notin> \<Union> (called ` set es)" "{(f', q'). (f', q', a) \<in> set evs} = {(f, q)}"
    "distinct (map (\<lambda>(f, q, a). a) evs)" by auto
  with only_call show ?thesis by blast
qed

lemma free_completes:
  assumes "sim ((s, None, th), d, K) A" and "asked (th t) = Some q"
  shows "\<exists>fs z. sys_run (\<lambda>_. None) ((s, None, th), d, K) fs z \<and> snd (snd (fst z)) t = Idle"
proof -
  from assms(1) have b: "clients_ok (A, K)" "serial sect_whole sect_finish sect_op (s, None, th) s"
    "alarm_at d (th AlarmThread) s A" "requests_ok A K th" by (auto simp: sim_def)
  from sim_allowed [OF b(1,3,4)] assms(2) obtain c' e where "sect_op q s = Inr (c', e)"
    by (fastforce simp: allowed_def)
  moreover have "th t = Waiting q" using b(2) assms(2) by (cases "th t") (auto dest: spec [of _ t])
  ultimately show ?thesis using waiting_runs [of q s c' e th t d K] by fastforce
qed

lemma holder_completes:
  assumes "sim ((s, Some u, th), d, K) A"
  shows "\<exists>c' e. sys_run (\<lambda>_. None) ((s, Some u, th), d, K) [e] ((c', None, th(u := Idle)), d, grow e K)"
proof -
  from assms obtain b where b: "clients_ok (A, K)" "serial sect_whole sect_finish sect_op (s, Some u, th) b"
    "alarm_at d (th AlarmThread) b A" "requests_ok A K th" by (auto simp: sim_def)
  from b(2) obtain q p where p: "th u = Running q p" "sect_whole p" "sect_finish p s = sect_op q b" by auto
  have "asked (th u) = Some q" by (simp add: p(1))
  with sim_allowed [OF b(1,3,4)] p(3) obtain c' e where "sect_finish p s = Inr (c', e)"
    by (fastforce simp: allowed_def)
  from holder_runs [where d = d and H = K and t = u and th = th, OF this p(2,1)] show ?thesis by blast
qed

text \<open>A thread that waits for the mutex it holds stays where it is, and so does everything else.\<close>

definition stuck :: "tmr_ctrl_t \<Rightarrow> point \<Rightarrow> sys \<Rightarrow> bool" where
  "stuck s p x \<longleftrightarrow> (\<exists>th d H. x = ((s, Some AlarmThread, th), d, H)
     \<and> th AlarmThread = Running ProcessList p \<and> (\<forall>i. \<not> inside (th (Client i))))"

lemma stuck_step:
  assumes "sys_step relock x v y" and "stuck s p x" and "sect_body relock p s = Inr (s', Lock p')"
  shows "v = None \<and> stuck s p y"
proof -
  from assms(2) obtain th d H where x: "x = ((s, Some AlarmThread, th), d, H)"
    "th AlarmThread = Running ProcessList p" "\<forall>i. \<not> inside (th (Client i))" by (auto simp: stuck_def)
  have only: "t = AlarmThread" if "th t = Running q r" for t q r
    using that x(3) by (cases t) (metis inside.simps(1))+
  have mutex: "v = None \<and> stuck s p (m', d, H')"
    if "lock_step sect_start (sect_body relock) (s, Some AlarmThread, th) v m'" for v m' H'
    using that
  proof (cases rule: lock_step.cases)
    case (progress t q r s' p')
    with only [of t q r] x(2) assms(3) show ?thesis by auto
  next
    case (unlock t q r s' p')
    with only [of t q r] x(2) assms(3) show ?thesis by auto
  next
    case (release t q r s' e)
    with only [of t q r] x(2) assms(3) show ?thesis by auto
  next
    case (fault t q r e)
    with only [of t q r] x(2) assms(3) show ?thesis by auto
  qed
  from assms(1) show ?thesis
  proof (cases rule: sys_step.cases)
    case (ask th' i handle t H ms s period ow d cb param)
    with x show ?thesis by (auto simp: stuck_def)
  next
    case (locked m m' d' H')
    with mutex [of None m' H'] x(1) show ?thesis by auto
  next
    case (processed m u q evs m' d' H')
    with mutex [of "Some (u, q, Alarm evs)" m' H'] x(1) show ?thesis by auto
  next
    case (armed m u q t a m' d' H')
    with mutex [of "Some (u, q, Armed t a)" m' "insert a H'"] x(1) show ?thesis by auto
  qed (use x in auto)
qed

lemma stuck_run:
  "sys_run relock x es y \<Longrightarrow> stuck s p x \<Longrightarrow> sect_body relock p s = Inr (s', Lock p') \<Longrightarrow> es = [] \<and> stuck s p y"
proof (induction rule: sys_run.induct)
  case (quiet x y es z)
  with stuck_step [OF quiet.hyps(1)] show ?case by blast
next
  case (event x e y es z)
  with stuck_step [OF event.hyps(1)] show ?case by blast
qed simp

subsection \<open>An alarm that finds its slot empty, with any callbacks\<close>

lemma empty_alarm:
  assumes k: "signature c \<noteq> 0" "i32 (ticks c + 1) = Inr k" "maxTicks c \<le> k"
    and idx: "u_mod (periodsFromStart c) (numOfPeriods c) = Inr idx"
    and l: "arr_get (tmrList c) idx = Inr l" "head l = 0" and n: "loop_fuel c = Suc n"
  shows "sys_run relock (at_rest c H) [Alarm []]
    (at_rest (set_ticks 0 (c\<lparr>periodsFromStart := periodsFromStart c + 1\<rparr>)) H)"
proof -
  let ?w = "\<lambda>x. (\<lambda>_. Idle)(AlarmThread := x)" and ?c = "set_ticks k c"
  note lk = sys_step.locked [OF lock_step.progress]
  have "sys_step relock (at_rest c H) None ((?c, None, ?w (Waiting ProcessList)), True, H)"
    unfolding at_rest_def by (rule sys_step.due) (use k in simp_all)
  moreover have "sys_step relock ((?c, None, ?w (Waiting ProcessList)), True, H) None
      ((?c, Some AlarmThread, ?w (Running ProcessList (InList ListBegin))), True, H)"
    using lock_step.acquire [of "?w (Waiting ProcessList)" AlarmThread ProcessList sect_start "sect_body relock" ?c]
    by (intro sys_step.locked) simp
  moreover have "sys_step relock ((?c, Some AlarmThread, ?w (Running ProcessList (InList ListBegin))), True, H) None
      ((?c, Some AlarmThread, ?w (Running ProcessList (InList (ListTop (Suc n) idx [])))), True, H)"
    using lk [of "?w (Running ProcessList (InList ListBegin))" AlarmThread ProcessList "InList ListBegin" relock ?c] idx n by simp
  moreover have "sys_step relock ((?c, Some AlarmThread, ?w (Running ProcessList (InList (ListTop (Suc n) idx [])))), True, H) None
      ((?c, Some AlarmThread, ?w (Running ProcessList (InList (ListEnd [])))), True, H)"
    using lk [of "?w (Running ProcessList (InList (ListTop (Suc n) idx [])))" AlarmThread ProcessList
        "InList (ListTop (Suc n) idx [])" relock ?c] l by simp
  moreover have "sys_step relock ((?c, Some AlarmThread, ?w (Running ProcessList (InList (ListEnd [])))), True, H) (Some (Alarm []))
      ((?c\<lparr>periodsFromStart := periodsFromStart c + 1\<rparr>, None, \<lambda>_. Idle), True, H)"
    using sys_step.processed [OF lock_step.release [of "?w (Running ProcessList (InList (ListEnd [])))" AlarmThread
        ProcessList "InList (ListEnd [])" "sect_body relock" ?c]] by (simp add: fun_upd_idem)
  moreover have "sys_step relock ((?c\<lparr>periodsFromStart := periodsFromStart c + 1\<rparr>, None, \<lambda>_. Idle), True, H) None
      (at_rest (set_ticks 0 (c\<lparr>periodsFromStart := periodsFromStart c + 1\<rparr>)) H)"
    using sys_step.restart [of "\<lambda>_. Idle" relock "?c\<lparr>periodsFromStart := periodsFromStart c + 1\<rparr>" None H]
    by (simp add: at_rest_def)
  ultimately show ?thesis by (meson sys_run.intros)
qed

subsection \<open>The concrete controller with its threads\<close>

lemma demo_threads_run:
  "sys_run (\<lambda>_. None) (at_rest demo_armed {4096, 0}) [Alarm [], Alarm []]
     (at_rest (demo_armed\<lparr>periodsFromStart := 2\<rparr>) {4096, 0})"
  using atomic_run [OF demo_armed_run demo_armed_clients] by simp

definition demo_waiting :: "tid \<Rightarrow> (section_call, point) thread" where
  "demo_waiting = (\<lambda>_. Idle)(AlarmThread := Waiting ProcessList)"

lemma demo_due_step:
  "sys_step relock (at_rest (demo_armed\<lparr>periodsFromStart := 2\<rparr>) {4096, 0}) None
     ((set_ticks 1 (demo_armed\<lparr>periodsFromStart := 2\<rparr>), None,
       demo_waiting), True, {4096, 0})"
  unfolding at_rest_def demo_waiting_def
  by (rule sys_step.due) (simp_all add: demo_armed_def demo_ctrl_def zero_ctrl_def i32_ok int_ok_def)

lemma demo_due: "due_alarm demo_armed 2 = 3"
  by (simp add: due_alarm_def to_period_def demo_armed_def demo_ctrl_def zero_ctrl_def)

lemma demo_empty_alarm:
  assumes "k = 0 \<or> k = 1"
  shows "sys_run relock (at_rest (demo_armed\<lparr>periodsFromStart := k\<rparr>) H) [Alarm []]
    (at_rest (demo_armed\<lparr>periodsFromStart := k + 1\<rparr>) H)"
proof -
  let ?c = "demo_armed\<lparr>periodsFromStart := k\<rparr>"
  have "sys_run relock (at_rest ?c H) [Alarm []]
      (at_rest (set_ticks 0 (?c\<lparr>periodsFromStart := periodsFromStart ?c + 1\<rparr>)) H)"
    by (rule empty_alarm [where k = 1 and idx = "uint k" and l = "\<lparr>head = 0, count = 0\<rparr>" and n = 3])
       (use assms in \<open>auto simp: demo_armed_def demo_ctrl_def zero_ctrl_def i32_ok int_ok_def c_simps
          loop_fuel_def pool_take_def demo_pool_def\<close>)
  then show ?thesis by (simp add: set_ticks_def demo_armed_def demo_ctrl_def zero_ctrl_def)
qed

lemma demo_empty_alarms:
  "sys_run relock (at_rest demo_armed H) [Alarm [], Alarm []] (at_rest (demo_armed\<lparr>periodsFromStart := 2\<rparr>) H)"
proof -
  have "demo_armed\<lparr>periodsFromStart := 0\<rparr> = demo_armed"
    by (simp add: demo_armed_def demo_ctrl_def zero_ctrl_def)
  then show ?thesis
    using sys_run_append [of relock _ "[Alarm []]"] demo_empty_alarm [of 0 relock H]
      demo_empty_alarm [of 1 relock H] by fastforce
qed

subsection \<open>Properties of the threads\<close>

text \<open>
  C5: any interleaving of the alarm thread and of client threads inside tmrProcessList and tmrReset,
  at the granularity of single loop iterations, is a run of the atomic operations with the same
  calls and handles: no thread fails, at most one is inside, the invariant of the controller is
  kept, and whenever the mutex is free the memory is, up to the tick counter, the controller that
  the atomic run leads to.
\<close>
theorem threads_linearizable:
  assumes "sys_run relock (at_rest c H) es ((s, ow, th), d, H')" and "clients_ok (c, H)"
  shows "(\<exists>A. timer_run (c, H) es (A, H') \<and> clients_ok (A, H')
      \<and> (case ow of None \<Rightarrow> set_ticks (ticks A) s = A | Some u \<Rightarrow> inside (th u)))
    \<and> (\<forall>t. \<not> failed (th t)) \<and> (\<forall>t u. \<not> (t \<noteq> u \<and> inside (th t) \<and> inside (th u)))"
proof -
  from threads_run [OF assms] obtain A where r: "timer_run (c, H) es (A, H')" and
    "sim ((s, ow, th), d, H') A" by auto
  then obtain b where b: "clients_ok (A, H')" "serial sect_whole sect_finish sect_op (s, ow, th) b"
    "alarm_at d (th AlarmThread) b A" by (auto simp: sim_def)
  have "case ow of None \<Rightarrow> set_ticks (ticks A) s = A | Some u \<Rightarrow> inside (th u)"
    using b(2) alarm_at_ticks [OF b(3)] by (cases ow) auto
  with r b(1,2) show ?thesis by auto
qed

theorem threads_linearizable_witness:
  "(\<exists>A. timer_run (demo_armed, {4096, 0}) [Alarm [], Alarm []] (A, {4096, 0}) \<and> clients_ok (A, {4096, 0})
      \<and> (case None of None \<Rightarrow> set_ticks (ticks A) (set_ticks 1 (demo_armed\<lparr>periodsFromStart := 2\<rparr>)) = A
          | Some u \<Rightarrow> inside (demo_waiting u)))
    \<and> (\<forall>t. \<not> failed (demo_waiting t))
    \<and> (\<forall>t u. \<not> (t \<noteq> u \<and> inside (demo_waiting t) \<and> inside (demo_waiting u)))"
proof (rule threads_linearizable [where ow = None and th = demo_waiting and d = True, OF _ demo_armed_clients])
  show "sys_run (\<lambda>_. None) (at_rest demo_armed {4096, 0}) [Alarm [], Alarm []]
    ((set_ticks 1 (demo_armed\<lparr>periodsFromStart := 2\<rparr>), None, demo_waiting), True, {4096, 0})"
    using sys_run_append [OF demo_threads_run demo_due_step [THEN sys_run_quiet]] by simp
qed

text \<open>
  C6: the threads call a timer on time.  In any interleaving, an armed timer with r periods to go
  that no tmrReset names is called by none of the first due_alarm - 1 alarms, and of the calls that
  alarm number due_alarm makes, if it is completed, exactly one is for this timer: that of its
  function with its argument.
\<close>
theorem threads_call_on_time:
  assumes "sys_run relock (at_rest c H) (es @ [Alarm evs]) y" and "clients_ok (c, H)"
    and "timers c a = Some (r, f, q)" "0 \<le> r" "f \<noteq> 0" "no_wrap c (r + 1)"
    and "int (alarms es) + 1 = due_alarm c r" and "\<forall>b. Armed a b \<notin> set es"
  shows "a \<notin> \<Union> (called ` set es) \<and> filter (\<lambda>(f', q', b). b = a) evs = [(f, q, a)]"
  using threads_due_alarm [OF assms(1-8)] .

theorem threads_call_on_time_witness:
  "\<exists>evs y. sys_run (\<lambda>_. None) (at_rest demo_armed {4096, 0}) ([Alarm [], Alarm []] @ [Alarm evs]) y
    \<and> 4096 \<notin> \<Union> (called ` set [Alarm [], Alarm []]) \<and> filter (\<lambda>(f', q', b). b = 4096) evs = [(77, 5, 4096)]"
proof -
  let ?c = "demo_armed\<lparr>periodsFromStart := 2\<rparr>"
  have l: "live ?c" using timer_run_ok [OF demo_armed_run demo_armed_clients] by (simp add: clients_ok_def)
  from tick_ok [OF this] obtain c' evs where "tick_ctrl ?c = Inr (c', evs)" by blast
  from sys_run_append [OF demo_threads_run atomic_alarm [OF l this]]
  have run: "sys_run (\<lambda>_. None) (at_rest demo_armed {4096, 0}) ([Alarm [], Alarm []] @ [Alarm evs]) (at_rest c' {4096, 0})" .
  have "4096 \<notin> \<Union> (called ` set [Alarm [], Alarm []]) \<and> filter (\<lambda>(f', q', b). b = 4096) evs = [(77, 5, 4096)]"
    by (rule threads_call_on_time [OF run demo_armed_clients, of _ 2])
       (simp_all add: demo_armed_timers demo_due no_wrap_def,
        simp_all add: demo_armed_def demo_ctrl_def zero_ctrl_def)
  with run show ?thesis by blast
qed

text \<open>
  C7: no operation is kept waiting for ever by the others.  While no callback re-arms a timer of
  its own controller, whatever interleaving has happened, every thread that has asked for an
  operation or is in the middle of it can complete it: the holder of the mutex gives it back by
  steps of its own, and the waiting thread then gets it.
\<close>
theorem every_request_completes:
  assumes "sys_run (\<lambda>_. None) (at_rest c H) es y" and "clients_ok (c, H)"
    and "asked (snd (snd (fst y)) t) = Some q"
  shows "\<exists>fs z. sys_run (\<lambda>_. None) y fs z \<and> snd (snd (fst z)) t = Idle"
proof -
  obtain s ow th d K where y: "y = ((s, ow, th), d, K)" by (cases y) auto
  from threads_run [OF assms(1,2)] obtain A where A: "sim y A" by blast
  show ?thesis
  proof (cases ow)
    case None
    with free_completes [of s th d K A t q] A assms(3) show ?thesis by (simp add: y)
  next
    case (Some u)
    with holder_completes [of s u th d K A] A obtain c' e where
      run: "sys_run (\<lambda>_. None) y [e] ((c', None, th(u := Idle)), d, grow e K)" by (auto simp: y)
    show ?thesis
    proof (cases "t = u")
      case True
      with run show ?thesis by fastforce
    next
      case False
      from sim_run [OF run A] obtain A' where A': "sim ((c', None, th(u := Idle)), d, grow e K) A'" by auto
      from False assms(3) have "asked ((th(u := Idle)) t) = Some q" by (simp add: y)
      from free_completes [OF A' this] obtain fs z where
        "sys_run (\<lambda>_. None) ((c', None, th(u := Idle)), d, grow e K) fs z" "snd (snd (fst z)) t = Idle" by blast
      with sys_run_append [OF run] show ?thesis by blast
    qed
  qed
qed

theorem every_request_completes_witness:
  "\<exists>fs z. sys_run (\<lambda>_. None) ((set_ticks 1 (demo_armed\<lparr>periodsFromStart := 2\<rparr>), None,
      demo_waiting), True, {4096, 0}) fs z
    \<and> snd (snd (fst z)) AlarmThread = Idle"
proof (rule every_request_completes [OF _ demo_armed_clients])
  show "sys_run (\<lambda>_. None) (at_rest demo_armed {4096, 0}) [Alarm [], Alarm []]
    ((set_ticks 1 (demo_armed\<lparr>periodsFromStart := 2\<rparr>), None,
      demo_waiting), True, {4096, 0})"
    using sys_run_append [OF demo_threads_run demo_due_step [THEN sys_run_quiet]] by simp
qed (simp add: demo_waiting_def)

text \<open>
  C8: a callback that calls tmrReset on its own controller, as that of a periodic timer would, stops
  the alarm thread.  tmrProcessList calls it without having given the mutex back, so the lock of
  tmrReset finds its own thread as the holder: whatever the other threads do, the alarm at which
  such a timer is due is never completed.
\<close>
theorem rearming_callback_stops_alarms:
  assumes run: "sys_run relock (at_rest c H) es y" and ok: "clients_ok (c, H)"
    and t: "timers c a = Some (r, f, q)" "0 \<le> r" "f \<noteq> 0" "no_wrap c (r + 1)"
    and no: "\<forall>b. Armed a b \<notin> set es" and f: "relock (f, q, a) \<noteq> None"
  shows "int (alarms es) < due_alarm c r"
proof (rule ccontr)
  assume n: "\<not> int (alarms es) < due_alarm c r"
  have "0 < due_alarm c r" using due_alarm_pos [of c r] ok t(2) by (simp add: clients_ok_def live_def)
  then have k: "int (nat (due_alarm c r - 1)) + 1 = due_alarm c r" by simp
  with n have "nat (due_alarm c r - 1) < alarms es" by linarith
  from nth_alarm [OF this] obtain es1 evs es2 where
    es: "es = es1 @ Alarm evs # es2" "alarms es1 = nat (due_alarm c r - 1)" by blast
  with no have "\<forall>b. Armed a b \<notin> set es1" by auto
  with threads_due_alarm [OF run [unfolded es] ok t] k es(2)
  have "filter (\<lambda>(f', q', b). b = a) evs = [(f, q, a)]" by simp
  then have "(f, q, a) \<in> set (filter (\<lambda>(f', q', b). b = a) evs)" by simp
  then have "(f, q, a) \<in> set evs" by simp
  moreover have "returned relock evs"
    using sys_run_returned [OF run at_rest_returned sim_at_rest [OF ok]] es(1) by simp
  ultimately show False using f by (auto simp: returned_def)
qed

theorem rearming_callback_stops_alarms_witness:
  "int (alarms [Alarm [], Alarm []]) < due_alarm demo_armed 2"
proof (rule rearming_callback_stops_alarms [where a = 4096 and f = 77 and q = 5, OF _ demo_armed_clients])
  show "sys_run [(77, 5, 4096) \<mapsto> (77, 2, 5, 1000, 4096)] (at_rest demo_armed {4096, 0}) [Alarm [], Alarm []]
      (at_rest (demo_armed\<lparr>periodsFromStart := 2\<rparr>) {4096, 0})"
    by (rule demo_empty_alarms)
qed (simp_all add: demo_armed_timers no_wrap_def, simp add: demo_armed_def demo_ctrl_def zero_ctrl_def)

text \<open>
  And with it everything else: from the moment the alarm thread is in that callback, no operation
  of any thread is completed and the memory of the controller does not change.
\<close>
theorem rearming_callback_stops_all:
  assumes run: "sys_run relock (at_rest c H) es y" and ok: "clients_ok (c, H)"
    and th: "snd (snd (fst y)) AlarmThread = Running ProcessList (InList (ListCall n idx a f q evs))"
    and f: "f \<noteq> 0" "relock (f, q, a) \<noteq> None" and later: "sys_run relock y fs z"
  shows "fs = [] \<and> fst (fst z) = fst (fst y) \<and> fst (snd (fst z)) = Some AlarmThread"
proof -
  obtain s ow ths d K where y: "y = ((s, ow, ths), d, K)" by (cases y) auto
  from threads_run [OF run ok] obtain A where "sim y A" by blast
  then obtain b where b: "serial sect_whole sect_finish sect_op (s, ow, ths) b" by (auto simp: sim_def y)
  have at: "ths AlarmThread = Running ProcessList (InList (ListCall n idx a f q evs))" using th y by simp
  have "ow = Some AlarmThread" by (rule ctl.serial_inside(1) [OF b at])
  moreover have "\<forall>i. \<not> inside (ths (Client i))" using b calculation by auto
  ultimately have "stuck s (InList (ListCall n idx a f q evs)) y" using at by (auto simp: stuck_def y)
  moreover from f obtain rp where "sect_body relock (InList (ListCall n idx a f q evs)) s
      = Inr (s, Lock (InList (ListNested n idx a f q evs rp)))" by auto
  ultimately have "fs = [] \<and> stuck s (InList (ListCall n idx a f q evs)) z"
    using stuck_run [OF later, of s _ s] by blast
  then show ?thesis by (auto simp: stuck_def y)
qed

text \<open>
  The interleavings of the threads and the sequences of atomic operations show a client the same:
  the calls, the handles given out and their order, in every case.
\<close>
theorem threads_equal_atomic_runs:
  assumes ok: "clients_ok (c, H)"
  shows "(\<exists>y. sys_run (\<lambda>_. None) (at_rest c H) es y \<and> snd (snd y) = H') = (\<exists>A. timer_run (c, H) es (A, H'))"
proof
  assume "\<exists>y. sys_run (\<lambda>_. None) (at_rest c H) es y \<and> snd (snd y) = H'"
  then obtain y where "sys_run (\<lambda>_. None) (at_rest c H) es y" "snd (snd y) = H'" by blast
  with threads_run [OF this(1) ok] show "\<exists>A. timer_run (c, H) es (A, H')" by blast
next
  assume "\<exists>A. timer_run (c, H) es (A, H')"
  then obtain A where "timer_run (c, H) es (A, H')" by blast
  from atomic_run [OF this ok] show "\<exists>y. sys_run (\<lambda>_. None) (at_rest c H) es y \<and> snd (snd y) = H'"
    by (auto simp: at_rest_def)
qed

theorem threads_equal_atomic_runs_witness:
  "(\<exists>y. sys_run (\<lambda>_. None) (at_rest demo_ctrl {0}) [Armed 0 4096] y \<and> snd (snd y) = {4096, 0})
    = (\<exists>A. timer_run (demo_ctrl, {0}) [Armed 0 4096] (A, {4096, 0}))"
  by (rule threads_equal_atomic_runs [OF demo_clients])

end
