(* ===== verification/TimerTypes.thy ===== *)
theory TimerTypes
  imports ModuleProps
begin

section \<open>The integer fields of the controller keep their types\<close>

text \<open>
  The model keeps the \<open>int\<close> and \<open>short\<close> fields of the structs as integers and writes out the
  checks where the code computes with them; the two counters \<open>count\<close> and \<open>numOfTmrs\<close> are
  counted up and down without one.  \<open>ctrl_typed\<close> says that every field holds a value of
  its C type and that the counters are what they count; it holds along every run.
\<close>

definition obj_typed :: "tmr_obj_t \<Rightarrow> bool" where
  "obj_typed ob \<longleftrightarrow> - 32768 \<le> cycle ob \<and> cycle ob < 32768 \<and> int_ok (index ob)"

definition pool_typed :: "pool_t \<Rightarrow> bool" where
  "pool_typed p \<longleftrightarrow> int_ok (numOfFree p) \<and> int_ok (first p) \<and> int_ok (numOfBlock p) \<and> int_ok (blockSize p)
     \<and> (\<forall>i\<in>set (freeList p). int_ok i)"

definition ctrl_typed :: "tmr_ctrl_t \<Rightarrow> bool" where
  "ctrl_typed c \<longleftrightarrow> int_ok (resolution c) \<and> int_ok (numOfPeriods c) \<and> int_ok (maxTicks c)
     \<and> int_ok (ticks c) \<and> int_ok (numOfTmrs c) \<and> int_ok (maxNumOfTmrs c)
     \<and> (\<forall>l\<in>set (tmrList c). int_ok (count l))
     \<and> (\<exists>p. poolHandle c = Some p \<and> pool_typed p
          \<and> (\<forall>a\<in>allocated p. \<exists>ob. objs c a = Some ob \<and> obj_typed ob))"

text \<open>
  Two kinds of fields that the well-formedness of a controller does not speak of: the cells of
  the free list outside the free queue, and \<open>maxNumOfTmrs\<close>.  No operation can bring a value
  of another type into them, whatever state it starts from.
\<close>

definition cells_typed :: "tmr_ctrl_t \<Rightarrow> bool" where
  "cells_typed c \<longleftrightarrow> int_ok (maxNumOfTmrs c)
     \<and> (\<forall>p. poolHandle c = Some p \<longrightarrow> (\<forall>i\<in>set (freeList p). int_ok i))"

lemma to_i32_int_ok [simp]: "int_ok (to_i32 x)"
  using signed_take_bit_int_greater_eq_minus_exp [of 31 x] signed_take_bit_int_less_exp [of 31 x]
  by (simp add: to_i32_def int_ok_def)

lemma memPoolMalloc_cells:
  assumes "memPoolMalloc z ph h = Inr (a, q, h')"
  shows "\<exists>p p'. ph = Some p \<and> q = Some p' \<and> freeList p' = freeList p"
  using assms by (cases ph) (auto simp: memPoolMalloc.simps bindE_eq_Inr_iff Let_def split: if_splits)

lemma memPoolFree_cells:
  assumes "memPoolFree z ph h a = Inr (q, h')" and "q = Some p'"
  shows "\<exists>p. ph = Some p \<and> (\<forall>i\<in>set (freeList p'). i \<in> set (freeList p) \<or> int_ok i)"
proof (cases ph)
  case (Some p)
  have "i = to_i32 d \<or> i \<in> set xs" if "arr_set xs k (to_i32 d) = Inr ys" "i \<in> set ys" for xs ys k d i
    using that set_update_subset_insert [of xs "nat k" "to_i32 d"] by (auto simp: arr_set_def split: if_splits)
  with Some assms show ?thesis
    by (fastforce simp: memPoolFree.simps bindE_eq_Inr_iff split: if_splits)
qed (use assms in simp)

lemma cells_typed_frame:
  "cells_typed c \<Longrightarrow> maxNumOfTmrs c' = maxNumOfTmrs c \<Longrightarrow> poolHandle c' = poolHandle c \<Longrightarrow> cells_typed c'"
  by (simp add: cells_typed_def)

lemma cells_typed_ticks [simp]: "cells_typed (c\<lparr>ticks := t\<rparr>) = cells_typed c"
  by (simp add: cells_typed_def)

lemma expire_head_cells:
  assumes "expire_head idx c = Inr (c', evs)" and "cells_typed c"
  shows "cells_typed c'"
proof -
  from assms(1) obtain h x q h' where f: "memPoolFree zero_obj (poolHandle c) h x = Inr (q, h')"
    and c': "poolHandle c' = q" "maxNumOfTmrs c' = maxNumOfTmrs c"
    by (auto simp: expire_head_def bindE_eq_Inr_iff)
  show ?thesis
    unfolding cells_typed_def c' using memPoolFree_cells [OF f] assms(2) by (fastforce simp: cells_typed_def)
qed

lemma expire_loop_cells: "expire_loop n idx c = Inr (c', evs) \<Longrightarrow> cells_typed c \<Longrightarrow> cells_typed c'"
proof (induction n arbitrary: c c' evs)
  case (Suc n)
  then show ?case
    by (auto simp: bindE_eq_Inr_iff split: if_splits elim: cells_typed_frame
        dest: expire_head_cells)
qed simp

lemma tick_ctrl_cells:
  assumes "tick_ctrl c = Inr (c', evs)" and "cells_typed c"
  shows "cells_typed c'"
proof -
  have "cells_typed d'" if "tmrProcessList d = Inr (d', es)" "cells_typed d" for d d' es
    using that by (auto simp: tmrProcessList_def bindE_eq_Inr_iff dest: expire_loop_cells
        intro: cells_typed_frame)
  from this [of "c\<lparr>ticks := ticks c + 1\<rparr>"] assms show ?thesis
    by (auto simp: tick_ctrl_def bindE_eq_Inr_iff i32_eq_Inr split: if_splits elim: cells_typed_frame)
qed

lemma reset_pObj_cells:
  assumes "reset_pObj c t = Inr (c', a)" and "cells_typed c"
  shows "cells_typed c'"
proof -
  have unlinked: "cells_typed d" if "unlink_obj c t = Inr d" for d
    using that assms(2) by (auto simp: unlink_obj_def bindE_eq_Inr_iff intro: cells_typed_frame)
  have taken: "cells_typed (c\<lparr>poolHandle := q, objs := h\<rparr>)"
    if "memPoolMalloc zero_obj (poolHandle c) (objs c) = Inr (b, q, h)" for b q h
    using memPoolMalloc_cells [OF that] assms(2) by (auto simp: cells_typed_def)
  show ?thesis
    using assms(1) unlinked taken by (auto simp: reset_pObj_def bindE_eq_Inr_iff split: if_splits)
qed

lemma arm_obj_cells: "arm_obj cb param handle period a c = Inr c' \<Longrightarrow> cells_typed c \<Longrightarrow> cells_typed c'"
  by (auto simp: arm_obj_def link_obj_def bindE_eq_Inr_iff intro: cells_typed_frame)

lemma tmrReset_cells: "tmrReset cb ms param handle t c = Inr (c', a) \<Longrightarrow> cells_typed c \<Longrightarrow> cells_typed c'"
  by (auto simp: tmrReset_def bindE_eq_Inr_iff split: if_splits option.splits
      dest: reset_pObj_cells arm_obj_cells)

lemma timer_run_cells: "timer_run s es s' \<Longrightarrow> cells_typed (fst s) \<Longrightarrow> cells_typed (fst s')"
  by (induction rule: timer_run.induct)
    (auto elim!: timer_step.cases dest: tick_ctrl_cells tmrReset_cells)

lemma tmrInit_cells:
  assumes "tmrInit base env maxNum r l lbl cs = Inr (handle, c # cs')" and "handle \<noteq> 0"
    and "int_ok maxNum"
  shows "cells_typed c"
proof -
  from assms(1,2) obtain p h c0 where p: "memPoolInit (pool_env env) (maxNum + 10) sizeof_tmr_obj (objs (hd cs)) = Inr (Some p, h)"
    and "setup_ctrl base env r l c0 = Inr c" "poolHandle c0 = Some p" "maxNumOfTmrs c0 = maxNum"
    by (cases cs) (auto simp: tmrInit_def bindE_eq_Inr_iff i32_eq_Inr arr_get_def arr_set_def Let_def split: if_splits)
  then have c: "poolHandle c = Some p" "maxNumOfTmrs c = maxNum"
    by (auto simp: setup_ctrl_def bindE_eq_Inr_iff Let_def split: if_splits)
  note pi = memPoolInit_cases [OF p]
  have "int_ok i" if "i \<in> set [0..maxNum + 10 - 1]" for i
    using that pi by (auto simp: int_ok_def sizeof_tmr_obj_def)
  with pi c assms(3) show ?thesis by (auto simp: cells_typed_def)
qed

lemma pool_inv_typed:
  assumes "pool_inv p h" and "\<forall>i\<in>set (freeList p). int_ok i"
  shows "pool_typed p"
proof -
  note inv = pool_invD [OF assms(1)] and n = numOfBlock_bound [OF assms(1)] blockSize_bound [OF assms(1)]
  have "int_ok (numOfFree p)" "int_ok (first p)" "int_ok (numOfBlock p)" "int_ok (blockSize p)"
    by (rule int_okI; use inv n in linarith)+
  with assms(2) show ?thesis by (simp add: pool_typed_def)
qed

text \<open>The counts of the lists add up to the number of timers.\<close>

lemma wheel_counts:
  assumes w: "wheel {} c p L"
  shows "sum_list (map count (tmrList c)) = numOfTmrs c"
    and "l \<in> set (tmrList c) \<Longrightarrow> 0 \<le> count l \<and> count l \<le> numOfTmrs c"
proof -
  let ?N = "nat (numOfPeriods c)"
  note len = wheelD(7) [OF w]
  have cnt: "count (tmrList c ! i) = int (card (set (L i)))" if "i < ?N" for i
    using slot_okD(2,4) [OF wheelD(8) [OF w that]] by (simp add: distinct_card)
  have "sum_list (map count (tmrList c)) = (\<Sum>i<?N. int (card (set (L i))))"
    by (simp add: sum_list_sum_nth len cnt atLeast0LessThan)
  also have "\<dots> = int (card (\<Union>i<?N. set (L i)))"
    using wheel_slots_disjoint [OF w] by (subst card_UN_disjoint) fastforce+
  also have "\<dots> = numOfTmrs c" using wheelD(9,11) [OF w] by simp
  finally show "sum_list (map count (tmrList c)) = numOfTmrs c" .
  show "0 \<le> count l \<and> count l \<le> numOfTmrs c" if "l \<in> set (tmrList c)"
  proof -
    from that len obtain i where i: "i < ?N" "l = tmrList c ! i" by (auto simp: in_set_conv_nth)
    have "set (L i) \<subseteq> allocated p" using wheelD(9) [OF w] i(1) by blast
    then have "card (set (L i)) \<le> card (allocated p)" by (rule card_mono [rotated]) simp
    with cnt [OF i(1)] i(2) wheelD(11) [OF w] show ?thesis by simp
  qed
qed

lemma live_typed:
  assumes "live c" and "cells_typed c"
  shows "ctrl_typed c" and "sum_list (map count (tmrList c)) = numOfTmrs c"
proof -
  from assms(1) obtain p L where w: "wheel {} c p L" by (auto simp: live_def ctrl_inv_def)
  note c = wheel_counts [OF w]
  show "sum_list (map count (tmrList c)) = numOfTmrs c" by (rule c(1))
  have "numOfTmrs c \<le> numOfBlock p"
    using card_allocated [OF wheelD(2) [OF w]] pool_invD(7) [OF wheelD(2) [OF w]] wheelD(11) [OF w] by simp
  then have n: "0 \<le> numOfTmrs c" "numOfTmrs c < 2147483648"
    using numOfBlock_bound [OF wheelD(2) [OF w]] pool_invD(1) [OF wheelD(2) [OF w]] wheelD(11) [OF w] by simp_all
  have "\<exists>ob. objs c a = Some ob \<and> obj_typed ob" if "a \<in> allocated p" for a
  proof -
    from wheel_member [OF w that] obtain i where i: "i < nat (numOfPeriods c)" "a \<in> set (L i)" by blast
    from wheel_slot_index [OF w i] obtain ob where ob: "objs c a = Some ob" "index ob = int i"
      "- 32768 \<le> cycle ob" "cycle ob < 32768" by blast
    have "int_ok (int i)" by (rule int_okI) (use i(1) int_okD [OF wheelD(4) [OF w]] in linarith)+
    with ob show ?thesis by (simp add: obj_typed_def)
  qed
  moreover have "int_ok (count l)" if "l \<in> set (tmrList c)" for l
    by (rule int_okI) (use c(2) [OF that] n in linarith)+
  moreover have "int_ok (numOfTmrs c)" by (rule int_okI) (use n in linarith)+
  moreover have "int_ok (ticks c)" using assms(1) by (auto simp: live_def int_ok_def)
  moreover have "pool_typed p"
    using pool_inv_typed [OF wheelD(2) [OF w]] assms(2) wheelD(1) [OF w] by (simp add: cells_typed_def)
  ultimately show "ctrl_typed c"
    using assms wheelD [OF w] by (simp add: ctrl_typed_def live_def cells_typed_def)
qed

text \<open>
  C11: the fields keep their types.  From tmrInit on, after any sequence of alarms and tmrReset
  calls, every int and short field of the controller, of its lists, of its pool, every cell of the pool's
  free list, and every int and short field of an armed timer holds a value of its type, and numOfTmrs is the sum of the counts of the lists: the
  counters, which the code changes without any check, never overflow.
\<close>
theorem controller_fields_typed:
  assumes "base \<noteq> 0" and "cs \<noteq> []" and "- 9 < maxNum" "64 * (maxNum + 10) < 2147483648"
    and "struct_ok (pool_env env)" "0 < pool_mem (pool_env env)" "list_ok (pool_env env)"
      "slots_ok env" "0 \<le> rnd env" "rnd env < 2147483647"
    and "int_ok r" "int_ok l"
    and "tmrInit base env maxNum r l lbl cs = Inr (handle, c # cs')" and "timer_run (c, {0}) es (c1, H1)"
  shows "ctrl_typed c1 \<and> sum_list (map count (tmrList c1)) = numOfTmrs c1"
proof -
  from tmrInit_live [OF assms(1-12), of lbl] assms(13) have "live c" by auto
  then have "clients_ok (c, {0})" by (simp add: clients_ok_def valid_handle_def)
  from timer_run_ok [OF assms(14) this] have l: "live c1" by (simp add: clients_ok_def)
  have "int_ok maxNum" using assms(3,4) by (simp add: int_ok_def)
  from tmrInit_cells [OF assms(13) _ this] tmrInit_live [OF assms(1-12), of lbl] assms(1,13)
  have "cells_typed c" by auto
  from timer_run_cells [OF assms(14)] this have "cells_typed c1" by simp
  from live_typed [OF l this] show ?thesis by blast
qed

theorem controller_fields_typed_witness:
  "\<exists>c c1 a. tmrInit 1000 demo_init_env 5 100 1000 ''http'' [zero_ctrl Map.empty] = Inr (1000, [c])
    \<and> timer_run (c, {0}) [Armed 0 a] (c1, {a, 0})
    \<and> ctrl_typed c1 \<and> sum_list (map count (tmrList c1)) = numOfTmrs c1"
proof -
  have pre: "(1000::int) \<noteq> 0" "[zero_ctrl Map.empty] \<noteq> []" "- 9 < (5::int)" "64 * ((5::int) + 10) < 2147483648"
    "struct_ok (pool_env demo_init_env)" "0 < pool_mem (pool_env demo_init_env)" "list_ok (pool_env demo_init_env)"
    "slots_ok demo_init_env" "0 \<le> rnd demo_init_env" "rnd demo_init_env < 2147483647" "int_ok 100" "int_ok 1000"
    by (simp_all add: demo_init_env_def int_ok_def)
  from tmrInit_live [OF pre, of "''http''"] obtain c where
    c: "tmrInit 1000 demo_init_env 5 100 1000 ''http'' [zero_ctrl Map.empty] = Inr (1000, [c])" "live c" by auto
  then have "clients_ok (c, {0})" by (simp add: clients_ok_def valid_handle_def)
  from step_enabled(2) [OF this, of 0 1000 100 77 5] obtain c1 a where
    "timer_step (c, {0}) (Armed 0 a) (c1, {a, 0})" by (auto simp: int_ok_def)
  then have run: "timer_run (c, {0}) [Armed 0 a] (c1, {a, 0})" by simp
  from controller_fields_typed [OF pre c(1) run] c(1) run show ?thesis by blast
qed

end
