(* ===== verification/PoolThreads.thy ===== *)
theory PoolThreads
  imports PoolSpec "HOL-Library.Disjoint_Sets"
begin

section \<open>The memory pool used by several threads (\<open>ttimer/tdengine_old.c\<close>)\<close>

text \<open>
  The pool has a mutex of its own.  \<open>memPoolFree\<close> holds it throughout; \<open>memPoolMalloc\<close> gives
  it back before it clears the block, so that other threads may run between the two.  Here
  the two parts are separate steps, and threads take, clear, write and give back blocks in
  any order.  A thread gives back and writes only blocks that it holds.
\<close>

text \<open>The part of \<open>memPoolMalloc\<close> under the mutex, and the \<open>memset\<close> after it.\<close>

definition malloc_locked :: "pool_t \<Rightarrow> (addr \<times> pool_t) res" where
  "malloc_locked p =
     (if numOfFree p \<le> 0 then Inr (0, p)
      else
        bindE (arr_get (freeList p) (first p)) (\<lambda>i.
        bindE (i32 (blockSize p * i)) (\<lambda>off.
        bindE (i32 (first p + 1)) (\<lambda>f1.
        bindE (c_mod f1 (numOfBlock p)) (\<lambda>f.
          Inr (pool p + off, p\<lparr>first := f, numOfFree := numOfFree p - 1\<rparr>))))))"

definition malloc_clear :: "'b \<Rightarrow> addr \<Rightarrow> 'b heap \<Rightarrow> 'b heap res" where
  "malloc_clear zero pos h = (if pos \<noteq> 0 then modify h pos (\<lambda>_. zero) else Inr h)"

lemma memPoolMalloc_steps:
  "memPoolMalloc zero (Some p) h = bindE (malloc_locked p) (\<lambda>(pos, p').
     bindE (malloc_clear zero pos h) (\<lambda>h'. Inr (pos, Some p', h')))"
  by (simp add: memPoolMalloc.simps(2) malloc_locked_def malloc_clear_def bindE_assoc bindE_if Let_def
      cong: if_cong)

text \<open>
  A state: the pool, the store, the blocks each thread holds, and the block it has taken
  but not yet cleared.
\<close>

type_synonym ('t, 'b) pool_sys = "pool_t \<times> 'b heap \<times> ('t \<Rightarrow> addr set) \<times> ('t \<Rightarrow> addr option)"

datatype 'b pool_act = Take | Clear | Use addr 'b | Give addr

fun pool_turn :: "'b \<Rightarrow> 't \<times> 'b pool_act \<Rightarrow> ('t, 'b) pool_sys \<Rightarrow> ('t, 'b) pool_sys res" where
  "pool_turn zero (t, Take) (p, h, held, pend) =
     (if pend t \<noteq> None then Inr (p, h, held, pend)
      else bindE (malloc_locked p) (\<lambda>(a, p').
        Inr (if a = 0 then (p', h, held, pend)
             else (p', h, held(t := insert a (held t)), pend(t := Some a)))))"
| "pool_turn zero (t, Clear) (p, h, held, pend) =
     (case pend t of None \<Rightarrow> Inr (p, h, held, pend)
      | Some a \<Rightarrow> bindE (malloc_clear zero a h) (\<lambda>h'. Inr (p, h', held, pend(t := None))))"
| "pool_turn zero (t, Use a v) (p, h, held, pend) =
     (if pend t = None \<and> a \<in> held t
      then bindE (modify h a (\<lambda>_. v)) (\<lambda>h'. Inr (p, h', held, pend))
      else Inr (p, h, held, pend))"
| "pool_turn zero (t, Give a) (p, h, held, pend) =
     (if pend t = None \<and> a \<in> held t
      then bindE (memPoolFree zero (Some p) h a) (\<lambda>(q, h').
             Inr (case q of None \<Rightarrow> p | Some p' \<Rightarrow> p', h', held(t := held t - {a}), pend))
      else Inr (p, h, held, pend))"

fun pool_turns :: "'b \<Rightarrow> ('t \<times> 'b pool_act) list \<Rightarrow> ('t, 'b) pool_sys \<Rightarrow> ('t, 'b) pool_sys res" where
  "pool_turns zero [] s = Inr s"
| "pool_turns zero (x # xs) s = bindE (pool_turn zero x s) (pool_turns zero xs)"

text \<open>The blocks in use are those that some thread holds, each held by one.\<close>

fun held_ok :: "('t, 'b) pool_sys \<Rightarrow> bool" where
  "held_ok (p, h, held, pend) \<longleftrightarrow> pool_inv p h \<and> (\<Union>t. held t) = allocated p
     \<and> disjoint_family held \<and> (\<forall>t a. pend t = Some a \<longrightarrow> a \<in> held t)"

text \<open>What a turn leaves alone: the blocks of the thread \<open>u\<close>, and what is in them.\<close>

fun untouched :: "'t \<Rightarrow> ('t, 'b) pool_sys \<Rightarrow> ('t, 'b) pool_sys \<Rightarrow> bool" where
  "untouched u (p, h, held, pend) (p', h', held', pend') \<longleftrightarrow>
     held' u = held u \<and> pend' u = pend u \<and> h' |` held u = h |` held u"

lemma untouched_refl [simp]: "untouched u s s"
  by (cases s) simp

lemma untouched_trans: "untouched u a b \<Longrightarrow> untouched u b c \<Longrightarrow> untouched u a c"
  by (cases a; cases b; cases c) simp

lemma untouched_store:
  assumes "disjoint_family held" and "a \<in> held t" and "u \<noteq> t" and "held' u = held u" and "pend' u = pend u"
  shows "untouched u (p, h, held, pend) (p', h(a \<mapsto> v), held', pend')"
proof -
  have "a \<notin> held u" using assms by (auto simp: disjoint_family_on_def)
  then have "h(a \<mapsto> v) |` held u = h |` held u" by (auto simp: restrict_map_def fun_eq_iff)
  with assms(4,5) show ?thesis by simp
qed

lemma held_block:
  assumes "held_ok (p, h, held, pend)" and "a \<in> held t"
  shows "a \<in> allocated p" "a \<noteq> 0" "\<exists>ob. h a = Some ob"
proof -
  show al: "a \<in> allocated p" using assms by auto
  then have "a \<in> block_addrs p" using allocated_subset [of p] by blast
  with assms(1) show "a \<noteq> 0" "\<exists>ob. h a = Some ob"
    using block_addrs_nonzero [of p h a] pool_invD(12) [of p h] by auto
qed

lemma held_ok_store:
  assumes "held_ok (p, h, held, pend)" and "\<And>u. pend' u = pend u \<or> pend' u = None"
  shows "held_ok (p, h(a \<mapsto> v), held, pend')"
proof -
  have "pool_inv p (h(a \<mapsto> v))" using assms(1) by (auto intro: pool_inv_heap)
  with assms show ?thesis by (auto) (metis option.distinct(1))
qed

lemma malloc_locked_some:
  assumes "pool_inv p h" and "0 < numOfFree p"
  shows "malloc_locked p = Inr (hd (free_addrs p), pool_take p)"
  using memPoolMalloc_some [OF assms, of undefined]
  by (auto simp: memPoolMalloc_steps bindE_eq_Inr_iff)

lemma take_ok:
  assumes "held_ok (p, h, held, pend)"
  shows "\<exists>s'. pool_turn zero (t, Take) (p, h, held, pend) = Inr s' \<and> held_ok s'
    \<and> (\<forall>u. u \<noteq> t \<longrightarrow> untouched u (p, h, held, pend) s')"
proof (cases "pend t = None \<and> 0 < numOfFree p")
  case True
  from assms have inv: "pool_inv p h" by simp
  let ?a = "hd (free_addrs p)"
  note al = allocated_take [OF inv conjunct2 [OF True]]
  have "disjoint_family (held(t := insert ?a (held t)))"
    using assms al(2) by (auto simp: disjoint_family_on_def)
  moreover have "(\<Union>u. (held(t := insert ?a (held t))) u) = allocated (pool_take p)"
    using assms al(1) by (auto split: if_splits)
  moreover have "?a \<noteq> 0" using block_addrs_nonzero [OF inv al(3)] .
  ultimately show ?thesis
    using True assms malloc_locked_some [OF inv] pool_inv_take [OF inv] by simp
next
  case False
  with assms show ?thesis by (auto simp: malloc_locked_def)
qed

lemma clear_ok:
  assumes "held_ok (p, h, held, pend)"
  shows "\<exists>s'. pool_turn zero (t, Clear) (p, h, held, pend) = Inr s' \<and> held_ok s'
    \<and> (\<forall>u. u \<noteq> t \<longrightarrow> untouched u (p, h, held, pend) s')"
proof (cases "pend t")
  case (Some a)
  with assms have a: "a \<in> held t" "disjoint_family held" by auto
  note b = held_block [OF assms a(1)]
  have "held_ok (p, h(a \<mapsto> zero), held, pend(t := None))" by (rule held_ok_store [OF assms]) simp
  moreover have "untouched u (p, h, held, pend) (p, h(a \<mapsto> zero), held, pend(t := None))" if "u \<noteq> t" for u
    by (rule untouched_store [OF a(2,1) that]) (use that in simp_all)
  ultimately show ?thesis using Some b
    by (auto simp: malloc_clear_def modify_def c_simps simp del: held_ok.simps untouched.simps)
qed (use assms in simp)

lemma use_ok:
  assumes "held_ok (p, h, held, pend)"
  shows "\<exists>s'. pool_turn zero (t, Use a v) (p, h, held, pend) = Inr s' \<and> held_ok s'
    \<and> (\<forall>u. u \<noteq> t \<longrightarrow> untouched u (p, h, held, pend) s')"
proof (cases "pend t = None \<and> a \<in> held t")
  case True
  note b = held_block [OF assms conjunct2 [OF True]]
  have "held_ok (p, h(a \<mapsto> v), held, pend)" by (rule held_ok_store [OF assms]) simp
  moreover have "untouched u (p, h, held, pend) (p, h(a \<mapsto> v), held, pend)" if "u \<noteq> t" for u
    using assms True that by (intro untouched_store [of held a t]) simp_all
  ultimately show ?thesis using True b
    by (auto simp: modify_def c_simps simp del: held_ok.simps untouched.simps)
next
  case False
  with assms show ?thesis by (simp add: if_not_P [OF False] del: held_ok.simps)
qed

lemma give_ok:
  assumes "held_ok (p, h, held, pend)"
  shows "\<exists>s'. pool_turn zero (t, Give a) (p, h, held, pend) = Inr s' \<and> held_ok s'
    \<and> (\<forall>u. u \<noteq> t \<longrightarrow> untouched u (p, h, held, pend) s')"
proof (cases "pend t = None \<and> a \<in> held t")
  case True
  from assms have inv: "pool_inv p h" and dis: "disjoint_family held" by simp_all
  from pool_release_step [OF inv held_block(1) [OF assms conjunct2 [OF True]], of zero] obtain q where
    q: "memPoolFree zero (Some p) h a = Inr (Some q, h(a \<mapsto> zero))" "pool_inv q (h(a \<mapsto> zero))"
      "allocated q = allocated p - {a}" by (auto simp: pool_release_def)
  let ?held = "held(t := held t - {a})"
  have out: "a \<notin> held u" if "u \<noteq> t" for u using dis True that by (auto simp: disjoint_family_on_def)
  have "?held u = held u - {a}" for u using out [of u] by simp
  then have "(\<Union>u. ?held u) = (\<Union>u. held u) - {a}" "disjoint_family ?held"
    using dis by (simp_all only: disjoint_family_on_def) blast+
  then have ok: "held_ok (q, h(a \<mapsto> zero), ?held, pend)" using assms q(2,3) True out by auto
  have "untouched u (p, h, held, pend) (q, h(a \<mapsto> zero), ?held, pend)" if "u \<noteq> t" for u
    by (rule untouched_store [OF dis conjunct2 [OF True] that]) (use that in simp_all)
  with True q(1) ok show ?thesis by (auto simp del: held_ok.simps untouched.simps)
next
  case False
  with assms show ?thesis by (simp add: if_not_P [OF False] del: held_ok.simps)
qed

lemma turn_ok:
  assumes "held_ok s"
  shows "\<exists>s'. pool_turn zero (t, act) s = Inr s' \<and> held_ok s' \<and> (\<forall>u. u \<noteq> t \<longrightarrow> untouched u s s')"
proof -
  obtain p h held pend where s: "s = (p, h, held, pend)" by (cases s) auto
  note ok = assms [unfolded s]
  show ?thesis unfolding s
    using take_ok [OF ok] clear_ok [OF ok] use_ok [OF ok] give_ok [OF ok] by (cases act) blast+
qed

lemma turns_ok:
  assumes "held_ok s"
  shows "\<exists>s'. pool_turns zero xs s = Inr s' \<and> held_ok s' \<and> (u \<notin> fst ` set xs \<longrightarrow> untouched u s s')"
  using assms
proof (induction xs arbitrary: s)
  case (Cons x xs)
  obtain t act where x: "x = (t, act)" by (cases x)
  from turn_ok [OF Cons.prems, of zero t act] obtain s1 where
    s1: "pool_turn zero x s = Inr s1" "held_ok s1" "u \<noteq> t \<longrightarrow> untouched u s s1" by (auto simp: x)
  from Cons.IH [OF s1(2)] obtain s' where s': "pool_turns zero xs s1 = Inr s'" "held_ok s'"
    "u \<notin> fst ` set xs \<longrightarrow> untouched u s1 s'" by blast
  have "u \<notin> fst ` set (x # xs) \<longrightarrow> untouched u s s'"
    using s1(3) s'(3) untouched_trans [of u s s1 s'] by (simp add: x)
  with s1(1) s'(1,2) show ?case by simp
qed simp

subsection \<open>Properties of the pool under threads\<close>

text \<open>
  C10: threads that share the pool do not disturb each other.  In any interleaving of their calls
  of memPoolMalloc (whose memset runs after the unlock), of memPoolFree on blocks they hold, and of
  writes to blocks they hold, nothing is undefined, no block is held by two threads, and what
  the others do leaves a thread's blocks and their contents alone.
\<close>
theorem pool_threads_isolated:
  assumes "memPoolInit env num bsize h = Inr (Some p, h0)" and "0 < pool_mem env" and "t \<notin> fst ` set ys"
  shows "\<exists>s s'. pool_turns zero xs (p, h0, \<lambda>_. {}, \<lambda>_. None) = Inr s \<and> held_ok s
    \<and> pool_turns zero ys s = Inr s' \<and> held_ok s' \<and> untouched t s s'"
proof -
  from memPoolInit_some [of num bsize env h] memPoolInit_cases [OF assms(1)] assms(1,2)
  have "pool_inv p h0" "allocated p = {}" by auto
  then have "held_ok (p, h0, \<lambda>_. {}, \<lambda>_. None)" by (simp add: disjoint_family_on_def)
  from turns_ok [OF this, of zero xs] obtain s where s:
    "pool_turns zero xs (p, h0, \<lambda>_. {}, \<lambda>_. None) = Inr s" "held_ok s" by blast
  from turns_ok [OF s(2), of zero ys t] assms(3) s show ?thesis by blast
qed

theorem pool_threads_isolated_witness:
  "\<exists>s s'. pool_turns 0 [(1::nat, Take), (2, Take), (2, Clear), (1, Clear), (2, Use 4160 9)]
      (demo_pool, demo_heap, \<lambda>_. {}, \<lambda>_. None) = Inr s \<and> held_ok s
    \<and> pool_turns 0 [(1, Give 4096), (3, Take), (1, Give 4160), (3, Clear)] s = Inr s' \<and> held_ok s'
    \<and> untouched 2 s s'"
  by (rule pool_threads_isolated [OF demo_init]) (simp_all add: demo_env_def)

end
