(* ===== verification/Atomics.thy ===== *)
theory Atomics
  imports CBase
begin

section \<open>The atomic operations (\<open>ttimer/os.h\<close>)\<close>

text \<open>
  The macros of \<open>os.h\<close> name gcc's sequentially consistent builtins, one family of five
  widths (8, 16, 32, 64 bits and a pointer) each.  A family is one definition, for words of
  every width: from the value in memory and the operand to the pair of the value returned and
  the value left in memory.  \<open>fetch_op\<close> returns the value before, \<open>op_fetch\<close> the one after.
  The compare-and-swap is used on the signed \<open>lockedBy\<close> too and takes values of any type.
\<close>

definition atomic_load :: "'a::len word \<Rightarrow> 'a word \<times> 'a word" where
  "atomic_load v = (v, v)"

definition atomic_store :: "'a::len word \<Rightarrow> 'a word \<Rightarrow> unit \<times> 'a word" where
  "atomic_store v x = ((), x)"

definition atomic_exchange :: "'a::len word \<Rightarrow> 'a word \<Rightarrow> 'a word \<times> 'a word" where
  "atomic_exchange v x = (v, x)"

definition atomic_val_compare_exchange :: "'v \<Rightarrow> 'v \<Rightarrow> 'v \<Rightarrow> 'v \<times> 'v" where
  "atomic_val_compare_exchange v old new = (v, if v = old then new else v)"

definition atomic_add_fetch :: "'a::len word \<Rightarrow> 'a word \<Rightarrow> 'a word \<times> 'a word" where
  "atomic_add_fetch v x = (let r = v + x in (r, r))"

definition atomic_fetch_add :: "'a::len word \<Rightarrow> 'a word \<Rightarrow> 'a word \<times> 'a word" where
  "atomic_fetch_add v x = (v, v + x)"

definition atomic_sub_fetch :: "'a::len word \<Rightarrow> 'a word \<Rightarrow> 'a word \<times> 'a word" where
  "atomic_sub_fetch v x = (let r = v - x in (r, r))"

definition atomic_fetch_sub :: "'a::len word \<Rightarrow> 'a word \<Rightarrow> 'a word \<times> 'a word" where
  "atomic_fetch_sub v x = (v, v - x)"

definition atomic_and_fetch :: "'a::len word \<Rightarrow> 'a word \<Rightarrow> 'a word \<times> 'a word" where
  "atomic_and_fetch v x = (let r = and v x in (r, r))"

definition atomic_fetch_and :: "'a::len word \<Rightarrow> 'a word \<Rightarrow> 'a word \<times> 'a word" where
  "atomic_fetch_and v x = (v, and v x)"

definition atomic_or_fetch :: "'a::len word \<Rightarrow> 'a word \<Rightarrow> 'a word \<times> 'a word" where
  "atomic_or_fetch v x = (let r = or v x in (r, r))"

definition atomic_fetch_or :: "'a::len word \<Rightarrow> 'a word \<Rightarrow> 'a word \<times> 'a word" where
  "atomic_fetch_or v x = (v, or v x)"

definition atomic_xor_fetch :: "'a::len word \<Rightarrow> 'a word \<Rightarrow> 'a word \<times> 'a word" where
  "atomic_xor_fetch v x = (let r = xor v x in (r, r))"

definition atomic_fetch_xor :: "'a::len word \<Rightarrow> 'a word \<Rightarrow> 'a word \<times> 'a word" where
  "atomic_fetch_xor v x = (v, xor v x)"

lemmas atomic_defs =
  atomic_load_def atomic_store_def atomic_exchange_def atomic_val_compare_exchange_def
  atomic_add_fetch_def atomic_fetch_add_def atomic_sub_fetch_def atomic_fetch_sub_def
  atomic_and_fetch_def atomic_fetch_and_def atomic_or_fetch_def atomic_fetch_or_def
  atomic_xor_fetch_def atomic_fetch_xor_def

subsection \<open>Read-modify-write operations as one contract\<close>

text \<open>
  A read-modify-write operation \<open>f\<close> comes as the pair \<open>op_fetch\<close>, \<open>fetch_op\<close>; the client sees
  one operation on memory, with the value before or the value after.  A loop of
  compare-and-swaps implements it: with no interference its first round succeeds, and a round
  that another thread spoils leaves the memory alone.
\<close>

locale atomic_rmw =
  fixes f :: "'a::len word \<Rightarrow> 'a word \<Rightarrow> 'a word"
    and op_fetch fetch_op :: "'a word \<Rightarrow> 'a word \<Rightarrow> 'a word \<times> 'a word"
  assumes op_fetch: "op_fetch v x = (f v x, f v x)"
    and fetch_op: "fetch_op v x = (v, f v x)"
begin

lemma same_memory: "snd (op_fetch v x) = snd (fetch_op v x)"
  by (simp add: op_fetch fetch_op)

lemma after_from_before: "fst (op_fetch v x) = f (fst (fetch_op v x)) x"
  by (simp add: op_fetch fetch_op)

lemma cas_success: "atomic_val_compare_exchange v v (f v x) = fetch_op v x"
  by (simp add: fetch_op atomic_val_compare_exchange_def)

lemma cas_spoiled: "v \<noteq> seen \<Longrightarrow> atomic_val_compare_exchange v seen (f seen x) = (v, v)"
  by (simp add: atomic_val_compare_exchange_def)

end

interpretation rmw_add: atomic_rmw "(+)" atomic_add_fetch atomic_fetch_add
  by unfold_locales (simp_all add: atomic_defs Let_def)

interpretation rmw_sub: atomic_rmw "(-)" atomic_sub_fetch atomic_fetch_sub
  by unfold_locales (simp_all add: atomic_defs Let_def)

interpretation rmw_and: atomic_rmw "and" atomic_and_fetch atomic_fetch_and
  by unfold_locales (simp_all add: atomic_defs Let_def)

interpretation rmw_or: atomic_rmw "or" atomic_or_fetch atomic_fetch_or
  by unfold_locales (simp_all add: atomic_defs Let_def)

interpretation rmw_xor: atomic_rmw "xor" atomic_xor_fetch atomic_fetch_xor
  by unfold_locales (simp_all add: atomic_defs Let_def)

end
