(* ===== verification/TaosTimer.thy ===== *)
theory TaosTimer
  imports DList Atomics
begin

section \<open>The second timer module: data, ids, reference counts, locks (\<open>ttimer/timer.c\<close>)\<close>

text \<open>
  The data of \<open>ttimer/timer.c\<close> (a later, unfinished design): timers found by their key in a
  hash map of spin-locked lists, and kept in three time wheels.  The integers have the width
  of the source: 64-bit ids and times, 32-bit sizes, 16-bit slots, 8-bit wheel numbers and
  reference counts, all unsigned but the times.  Fields that the code never touches
  (\<open>reserved1\<close>, \<open>reserved2\<close>, the label union of a controller) are left out.

  The module's global variables are the fields of \<open>taos_t\<close>; the timer objects live in the
  store \<open>objs\<close>.  The file has no code that allocates the slots of the map and the wheels, so
  their contents are a parameter: the initial state of a run is any \<open>taos_t\<close>.
\<close>

record timer_obj =
  timer_id :: "64 word"
  ctrl :: addr
  mnext :: addr
  prevw :: addr
  nextw :: addr
  slot :: "16 word"
  wheel :: "8 word"
  state :: "8 word"
  refCount :: "8 word"
  expireAt :: "64 word"
  fp :: addr
  param :: addr

record timer_list_t =
  lockedBy :: int
  timers :: addr

record timer_map_t =
  map_size :: "32 word"
  map_count :: "32 word"
  map_slots :: "timer_list_t list"

record time_wheel_t =
  nextScanAt :: "64 word"
  wresolution :: "32 word"
  wsize :: "16 word"
  windex :: "16 word"
  wslots :: "addr list"

record taos_t =
  nextTimerId :: "64 word"
  wheels :: "time_wheel_t list"
  timerMap :: timer_map_t
  objs :: "timer_obj heap"

text \<open>The resolutions and sizes of the three wheels, as the file initialises them.\<close>

definition wheels_init :: "time_wheel_t list" where
  "wheels_init =
    [\<lparr>nextScanAt = 0, wresolution = 5, wsize = 4096, windex = 0, wslots = []\<rparr>,
     \<lparr>nextScanAt = 0, wresolution = 1000, wsize = 1024, windex = 0, wslots = []\<rparr>,
     \<lparr>nextScanAt = 0, wresolution = 60000, wsize = 1024, windex = 0, wslots = []\<rparr>]"

subsection \<open>Ids and reference counts\<close>

text \<open>The id counter is 64 bits wide and skips 0 when it wraps; two rounds are always enough.\<close>

fun getNextTimerId :: "nat \<Rightarrow> 64 word \<Rightarrow> (64 word \<times> 64 word) res" where
  "getNextTimerId 0 n = Inl OutOfFuel"
| "getNextTimerId (Suc k) n =
     (case atomic_add_fetch n 1 of (key, n') \<Rightarrow>
        if key = 0 then getNextTimerId k n' else Inr (key, n'))"

definition timerAddRef :: "timer_obj heap \<Rightarrow> addr \<Rightarrow> timer_obj heap res" where
  "timerAddRef h t = modify h t (\<lambda>ob. ob\<lparr>refCount := snd (atomic_add_fetch (refCount ob) 1)\<rparr>)"

definition timerDecRef :: "timer_obj heap \<Rightarrow> addr \<Rightarrow> timer_obj heap res" where
  "timerDecRef h t =
     bindE (deref h t) (\<lambda>ob.
       case atomic_sub_fetch (refCount ob) 1 of (r, v) \<Rightarrow>
         if r = 0 then Inr (h(t := None)) else Inr (h(t \<mapsto> ob\<lparr>refCount := v\<rparr>)))"

subsection \<open>The lock of a list\<close>

text \<open>
  The spin loop, run by one thread alone: a lock that is taken stays taken, and the loop then
  uses up its fuel (or overflows its counter).  The interleaving of threads is the subject of
  the theory \<open>SpinLock\<close>.  \<open>sched_yield\<close> has no effect on the state.
\<close>

fun lockTimerList :: "nat \<Rightarrow> int \<Rightarrow> int \<Rightarrow> timer_list_t \<Rightarrow> timer_list_t res" where
  "lockTimerList 0 tid i l = Inl OutOfFuel"
| "lockTimerList (Suc k) tid i l =
     (case atomic_val_compare_exchange (lockedBy l) 0 tid of (old, v) \<Rightarrow>
        if old \<noteq> 0 then bindE (i32 (i + 1)) (\<lambda>i'. lockTimerList k tid i' (l\<lparr>lockedBy := v\<rparr>))
        else Inr (l\<lparr>lockedBy := v\<rparr>))"

definition unlockTimerList :: "int \<Rightarrow> timer_list_t \<Rightarrow> timer_list_t res" where
  "unlockTimerList tid l =
     (case atomic_val_compare_exchange (lockedBy l) tid 0 of (old, v) \<Rightarrow>
        if old \<noteq> tid then Inl AssertFailed else Inr (l\<lparr>lockedBy := v\<rparr>))"

subsection \<open>Time\<close>

text \<open>The milliseconds of a \<open>struct timeval\<close>; the sum is computed in \<open>uint64_t\<close>.\<close>

definition taosGetTimestampMs :: "int \<Rightarrow> int \<Rightarrow> 64 word" where
  "taosGetTimestampMs tv_sec tv_usec = word_of_int (tv_sec * 1000) + word_of_int tv_usec div 1000"

subsection \<open>Laws of the small operations\<close>

lemma getNextTimerId_fresh:
  "\<exists>key. getNextTimerId 2 n = Inr (key, key) \<and> key \<noteq> 0 \<and> key = (if n + 1 = 0 then 1 else n + 1)"
  by (simp add: numeral_2_eq_2 atomic_defs Let_def)

lemma timerAddRef_ok [c_simps]:
  "h t = Some ob \<Longrightarrow> t \<noteq> 0 \<Longrightarrow> timerAddRef h t = Inr (h(t \<mapsto> ob\<lparr>refCount := refCount ob + 1\<rparr>))"
  by (simp add: timerAddRef_def atomic_defs Let_def c_simps)

lemma timerDecRef_ok:
  "h t = Some ob \<Longrightarrow> t \<noteq> 0 \<Longrightarrow> timerDecRef h t =
     Inr (h(t := if refCount ob = 1 then None else Some (ob\<lparr>refCount := refCount ob - 1\<rparr>)))"
  by (simp add: timerDecRef_def atomic_defs Let_def c_simps)

lemma lock_free [c_simps]:
  "lockedBy l = 0 \<Longrightarrow> 0 < n \<Longrightarrow> lockTimerList n tid i l = Inr (l\<lparr>lockedBy := tid\<rparr>)"
  by (cases n) (simp_all add: atomic_val_compare_exchange_def)

lemma unlock_own [c_simps]: "lockedBy l = tid \<Longrightarrow> unlockTimerList tid l = Inr (l\<lparr>lockedBy := 0\<rparr>)"
  by (simp add: unlockTimerList_def atomic_val_compare_exchange_def)

lemma unlock_foreign: "lockedBy l \<noteq> tid \<Longrightarrow> unlockTimerList tid l = Inl AssertFailed"
  by (simp add: unlockTimerList_def atomic_val_compare_exchange_def)

lemma taosGetTimestampMs_exact:
  assumes "0 \<le> s" and "0 \<le> us" and "us < 1000000" and "s * 1000 + 1000 < 2 ^ 64"
  shows "uint (taosGetTimestampMs s us) = s * 1000 + us div 1000"
proof -
  have b: "0 \<le> us div 1000" "us div 1000 < 1000" using assms(2,3) by linarith+
  have "uint (word_of_int us :: 64 word) = us" using assms(2,3) by (simp add: uint_word_of_int)
  then have "uint (word_of_int us div 1000 :: 64 word) = us div 1000" by (simp add: uint_div)
  moreover have "uint (word_of_int (s * 1000) :: 64 word) = s * 1000"
    unfolding uint_word_of_int using assms(1,4) by (intro mod_pos_pos_trivial) simp_all
  moreover have "(s * 1000 + us div 1000) mod 2 ^ 64 = s * 1000 + us div 1000"
    using assms(1) b assms(4) by (intro mod_pos_pos_trivial) linarith+
  ultimately show ?thesis unfolding taosGetTimestampMs_def uint_word_ariths by simp
qed

subsection \<open>The ids of a run\<close>

text \<open>
  The increments of the counter are atomic, so the calls of all threads take effect one after
  the other: \<open>next_ids k m\<close> are the ids that \<open>m\<close> calls return, in that order.
\<close>

fun next_ids :: "nat \<Rightarrow> nat \<Rightarrow> 64 word \<Rightarrow> 64 word list res" where
  "next_ids k 0 n = Inr []"
| "next_ids k (Suc m) n =
     bindE (getNextTimerId k n) (\<lambda>(key, n'). bindE (next_ids k m n') (\<lambda>ids. Inr (key # ids)))"

text \<open>The i-th id, counted from 0: the ids go round through 1 .. 2^64 - 1.\<close>

definition id_cycle :: nat where
  "id_cycle = 2 ^ 64 - 1"

definition nth_id :: "nat \<Rightarrow> nat \<Rightarrow> nat" where
  "nth_id p i = 1 + (p + i) mod id_cycle"

lemma id_cycle_pos: "0 < id_cycle"
  by (simp add: id_cycle_def)

lemma nth_id_inj: "i < j \<Longrightarrow> j - i < id_cycle \<Longrightarrow> nth_id p i \<noteq> nth_id p j"
proof
  assume ij: "i < j" "j - i < id_cycle" and "nth_id p i = nth_id p j"
  then have "(p + j) mod id_cycle = (p + i) mod id_cycle" by (simp add: nth_id_def)
  then have "id_cycle dvd (p + j) - (p + i)" using ij(1) by (intro mod_eq_dvd_iff_nat [THEN iffD1]) simp_all
  then have "id_cycle \<le> j - i" using ij(1) by (intro dvd_imp_le) simp_all
  then show False using ij(2) by simp
qed

lemma nth_id_step: "nth_id (nth_id p 0) i = nth_id p (Suc i)"
proof -
  have "nth_id (nth_id p 0) i = 1 + (p mod id_cycle + Suc i) mod id_cycle" by (simp add: nth_id_def)
  then show ?thesis unfolding nth_id_def mod_add_left_eq .
qed

lemma unat_nth_id: "unat (word_of_nat (nth_id p i) :: 64 word) = nth_id p i"
proof -
  have "(p + i) mod id_cycle < id_cycle" using id_cycle_pos by simp
  then have "nth_id p i < 2 ^ 64" by (simp add: nth_id_def id_cycle_def)
  then show ?thesis by (simp add: unat_of_nat)
qed

lemma getNextTimerId_word:
  assumes "1 < k"
  shows "getNextTimerId k n = Inr (word_of_nat (nth_id (unat n) 0), word_of_nat (nth_id (unat n) 0))"
proof -
  have k: "k = Suc (Suc (k - 2))" using assms by simp
  show ?thesis
  proof (cases "n + 1 = 0")
    case True
    then have "n = - 1" by (simp add: eq_neg_iff_add_eq_0)
    then have "unat n = id_cycle" by (simp add: unsigned_minus_1_eq_mask mask_eq_exp_minus_1 id_cycle_def)
    then have "nth_id (unat n) 0 = 1" by (simp add: nth_id_def)
    then show ?thesis using True by (subst k) (simp add: atomic_defs Let_def)
  next
    case False
    then have "unat (n + 1) = Suc (unat n)" using unatSuc [of n] by (simp add: add.commute)
    moreover have "unat (n + 1) < 2 ^ LENGTH(64)" by (rule unsigned_less)
    ultimately have "unat n < id_cycle" by (simp add: id_cycle_def)
    then have "nth_id (unat n) 0 = Suc (unat n)" by (simp add: nth_id_def)
    then have "word_of_nat (nth_id (unat n) 0) = n + 1" by (simp add: add.commute)
    then show ?thesis using False by (subst k) (simp add: atomic_defs Let_def)
  qed
qed

lemma next_ids_word:
  "1 < k \<Longrightarrow> next_ids k m n = Inr (map (\<lambda>i. word_of_nat (nth_id (unat n) i)) [0..<m])"
proof (induction m arbitrary: n)
  case (Suc m)
  let ?n = "word_of_nat (nth_id (unat n) 0) :: 64 word"
  have "[0..<Suc m] = 0 # map Suc [0..<m]" by (simp only: upt_conv_Cons map_Suc_upt zero_less_Suc)
  moreover have "next_ids k m ?n = Inr (map (\<lambda>i. word_of_nat (nth_id (unat n) (Suc i))) [0..<m])"
    unfolding Suc.IH [OF Suc.prems] unat_nth_id nth_id_step ..
  ultimately show ?case using Suc.prems by (simp add: getNextTimerId_word comp_def del: upt_Suc)
qed simp

text \<open>
  C20: getNextTimerId returns after at most two rounds of its loop, never 0, and the ids it hands
  out are unique: however the calls of the threads interleave, no two of any 2^64 - 1 successive
  ones return the same id.
\<close>
theorem timer_ids_unique:
  assumes "1 < k" and "m \<le> id_cycle"
  shows "\<exists>ids. next_ids k m n = Inr ids \<and> length ids = m \<and> distinct ids \<and> 0 \<notin> set ids"
proof -
  let ?f = "\<lambda>i. word_of_nat (nth_id (unat n) i) :: 64 word"
  have "?f i \<noteq> ?f j" if "i < j" "j < m" for i j
  proof
    assume "?f i = ?f j"
    then have "unat (?f i) = unat (?f j)" by (rule arg_cong)
    then have "nth_id (unat n) i = nth_id (unat n) j" unfolding unat_nth_id .
    then show False using nth_id_inj [OF that(1)] that assms(2) by auto
  qed
  then have "inj_on ?f {0..<m}" by (intro linorder_inj_onI) auto
  moreover have "?f i \<noteq> 0" for i
  proof
    assume "?f i = 0"
    then have "unat (?f i) = 0" by (simp only: unat_0)
    then show False unfolding unat_nth_id by (simp add: nth_id_def)
  qed
  ultimately have "distinct (map ?f [0..<m])" "0 \<notin> set (map ?f [0..<m])" unfolding distinct_map by auto
  then show ?thesis unfolding next_ids_word [OF assms(1)] by (intro exI [of _ "map ?f [0..<m]"]) simp
qed

theorem timer_ids_unique_witness:
  "\<exists>ids. next_ids 2 5 (- 3) = Inr ids \<and> length ids = 5 \<and> distinct ids \<and> 0 \<notin> set ids"
  by (rule timer_ids_unique) (simp_all add: id_cycle_def)

end
