(* ===== verification/TaosMap.thy ===== *)
theory TaosMap
  imports TaosTimer
begin

section \<open>The map from ids to timers (\<open>ttimer/timer.c\<close>)\<close>

text \<open>
  \<open>addTimer\<close>, \<open>findTimer\<close> and \<open>removeTimer\<close>: a hash map with chaining through \<open>mnext\<close>, a
  new timer at the front of its chain.  The fuel \<open>n\<close> bounds the spinning on the list's lock
  and the walk along the chain; it is enough when it exceeds the length of the chain.
  Each operation changes its list only between the lock and the unlock, so it is one step.
\<close>

definition map_index :: "timer_map_t \<Rightarrow> 64 word \<Rightarrow> int res" where
  "map_index m key =
     (if map_size m = 0 then Inl DivByZero
      else Inr (uint (ucast (key mod ucast (map_size m)) :: 32 word)))"

text \<open>The common frame of the three operations: find the list, lock it, work on it, unlock it.\<close>

definition with_list ::
  "nat \<Rightarrow> int \<Rightarrow> 64 word \<Rightarrow> taos_t
     \<Rightarrow> (timer_obj heap \<Rightarrow> timer_list_t \<Rightarrow> (timer_obj heap \<times> timer_list_t \<times> 'r) res) \<Rightarrow> (taos_t \<times> 'r) res" where
  "with_list n tid key s body =
     bindE (map_index (timerMap s) key) (\<lambda>idx.
     bindE (arr_get (map_slots (timerMap s)) idx) (\<lambda>l.
     bindE (lockTimerList n tid 0 l) (\<lambda>l1.
     bindE (body (objs s) l1) (\<lambda>(h, l2, r).
     bindE (unlockTimerList tid l2) (\<lambda>l3.
     bindE (arr_set (map_slots (timerMap s)) idx l3) (\<lambda>sl.
       Inr (s\<lparr>objs := h, timerMap := (timerMap s)\<lparr>map_slots := sl\<rparr>\<rparr>, r)))))))"

definition addTimer :: "nat \<Rightarrow> int \<Rightarrow> addr \<Rightarrow> taos_t \<Rightarrow> taos_t res" where
  "addTimer n tid t s =
     bindE (timerAddRef (objs s) t) (\<lambda>h1.
     bindE (modify h1 t (\<lambda>ob. ob\<lparr>wheel := word_of_nat (length (wheels s))\<rparr>)) (\<lambda>h2.
     bindE (deref h2 t) (\<lambda>ob.
     bindE (with_list n tid (timer_id ob) (s\<lparr>objs := h2\<rparr>) (\<lambda>h l.
       bindE (modify h t (\<lambda>ob. ob\<lparr>mnext := timers l\<rparr>)) (\<lambda>h'. Inr (h', l\<lparr>timers := t\<rparr>, ()))))
     (\<lambda>(s', _). Inr s'))))"

fun find_loop :: "nat \<Rightarrow> timer_obj heap \<Rightarrow> addr \<Rightarrow> 64 word \<Rightarrow> (timer_obj heap \<times> addr) res" where
  "find_loop 0 h t key = Inl OutOfFuel"
| "find_loop (Suc k) h t key =
     (if t = 0 then Inr (h, 0)
      else bindE (deref h t) (\<lambda>ob.
        if timer_id ob = key then bindE (timerAddRef h t) (\<lambda>h'. Inr (h', t))
        else find_loop k h (mnext ob) key))"

definition findTimer :: "nat \<Rightarrow> int \<Rightarrow> 64 word \<Rightarrow> taos_t \<Rightarrow> (taos_t \<times> addr) res" where
  "findTimer n tid key s =
     (if 0 < key
      then with_list n tid key s (\<lambda>h l. bindE (find_loop n h (timers l) key) (\<lambda>(h', t). Inr (h', l, t)))
      else Inr (s, 0))"

fun remove_loop ::
  "nat \<Rightarrow> timer_obj heap \<Rightarrow> timer_list_t \<Rightarrow> addr \<Rightarrow> addr \<Rightarrow> 64 word \<Rightarrow> (timer_obj heap \<times> timer_list_t) res" where
  "remove_loop 0 h l prev p key = Inl OutOfFuel"
| "remove_loop (Suc k) h l prev p key =
     (if p = 0 then Inr (h, l)
      else bindE (deref h p) (\<lambda>ob.
        if timer_id ob = key then
          (if prev = 0
           then bindE (timerDecRef h p) (\<lambda>h'. Inr (h', l\<lparr>timers := mnext ob\<rparr>))
           else bindE (modify h prev (\<lambda>pb. pb\<lparr>mnext := mnext ob\<rparr>)) (\<lambda>h1.
                bindE (timerDecRef h1 p) (\<lambda>h'. Inr (h', l))))
        else remove_loop k h l p (mnext ob) key))"

definition removeTimer :: "nat \<Rightarrow> int \<Rightarrow> 64 word \<Rightarrow> taos_t \<Rightarrow> taos_t res" where
  "removeTimer n tid key s =
     bindE (with_list n tid key s (\<lambda>h l.
       bindE (remove_loop n h l 0 (timers l) key) (\<lambda>(h', l'). Inr (h', l', ()))))
     (\<lambda>(s', _). Inr s')"

subsection \<open>Chains\<close>

fun chain :: "timer_obj heap \<Rightarrow> addr list \<Rightarrow> addr \<Rightarrow> bool" where
  "chain h [] q = True"
| "chain h (a # xs) q =
     ((case h a of None \<Rightarrow> False | Some ob \<Rightarrow> mnext ob = hdp xs q) \<and> chain h xs q)"

lemma chain_append: "chain h (xs @ ys) q \<longleftrightarrow> chain h xs (hdp ys q) \<and> chain h ys q"
  by (induction xs) (auto split: option.split)

lemma chain_frame:
  "(\<And>a. a \<in> set xs \<Longrightarrow> map_option mnext (h' a) = map_option mnext (h a)) \<Longrightarrow>
   chain h' xs q = chain h xs q"
proof (induction xs)
  case (Cons a xs)
  from Cons.prems [of a] have "map_option mnext (h' a) = map_option mnext (h a)" by simp
  with Cons show ?case by (cases "h a"; cases "h' a") auto
qed simp

lemma chain_upd_notin: "x \<notin> set xs \<Longrightarrow> chain (h(x := v)) xs q = chain h xs q"
  by (rule chain_frame) auto

lemma chain_in_dom: "chain h xs q \<Longrightarrow> set xs \<subseteq> dom h"
  by (induction xs) (auto split: option.splits)

text \<open>The timer that a chain holds under an id.\<close>

definition id_at :: "timer_obj heap \<Rightarrow> addr \<Rightarrow> 64 word option" where
  "id_at h a = map_option timer_id (h a)"

definition lookup :: "timer_obj heap \<Rightarrow> addr list \<Rightarrow> 64 word \<Rightarrow> addr option" where
  "lookup h xs key = find (\<lambda>a. id_at h a = Some key) xs"

lemma find_loop_ok:
  assumes "chain h xs 0" and "0 \<notin> set xs" and "length xs < n"
  shows "find_loop n h (hdp xs 0) key = Inr (case lookup h xs key of None \<Rightarrow> (h, 0)
    | Some a \<Rightarrow> (h(a := map_option (\<lambda>ob. ob\<lparr>refCount := refCount ob + 1\<rparr>) (h a)), a))"
  using assms
proof (induction xs arbitrary: n)
  case Nil
  then obtain k where "n = Suc k" by (cases n) auto
  then show ?case by (simp add: lookup_def)
next
  case (Cons a xs)
  then obtain k where k: "n = Suc k" by (cases n) auto
  from Cons.prems obtain ob where ob: "h a = Some ob" "mnext ob = hdp xs 0" "a \<noteq> 0"
    by (auto split: option.splits)
  show ?case
  proof (cases "timer_id ob = key")
    case True
    then show ?thesis using ob k by (simp add: lookup_def id_at_def c_simps)
  next
    case False
    with ob k Cons.IH [of k] Cons.prems show ?thesis
      by (simp add: lookup_def id_at_def c_simps)
  qed
qed

text \<open>Removal takes the first timer with the id out of the chain and gives its reference back.\<close>

definition drop_ref :: "timer_obj heap \<Rightarrow> addr \<Rightarrow> timer_obj heap" where
  "drop_ref h a = (case h a of None \<Rightarrow> h
     | Some ob \<Rightarrow> h(a := if refCount ob = 1 then None else Some (ob\<lparr>refCount := refCount ob - 1\<rparr>)))"

lemma drop_ref_other [simp]: "b \<noteq> a \<Longrightarrow> drop_ref h a b = h b"
  by (simp add: drop_ref_def split: option.split)

lemma timerDecRef_drop [c_simps]:
  "h a = Some ob \<Longrightarrow> a \<noteq> 0 \<Longrightarrow> timerDecRef h a = Inr (drop_ref h a)"
  by (simp add: drop_ref_def timerDecRef_ok)

lemma remove_loop_none:
  assumes "chain h xs 0" and "0 \<notin> set xs" and "length xs < n" and "lookup h xs key = None"
  shows "remove_loop n h l prev (hdp xs 0) key = Inr (h, l)"
  using assms
proof (induction xs arbitrary: n prev)
  case Nil
  then obtain k where "n = Suc k" by (cases n) auto
  then show ?case by simp
next
  case (Cons a xs)
  then obtain k where k: "n = Suc k" by (cases n) auto
  from Cons.prems obtain ob where ob: "h a = Some ob" "mnext ob = hdp xs 0" "a \<noteq> 0"
    by (auto split: option.splits)
  with Cons.prems(4) have "timer_id ob \<noteq> key" "lookup h xs key = None"
    by (auto simp: lookup_def id_at_def split: if_splits)
  with ob k Cons.IH [of k a] Cons.prems show ?case by (simp add: c_simps)
qed

lemma lookup_split:
  assumes "lookup h xs key = Some a"
  obtains us vs where "xs = us @ a # vs" "id_at h a = Some key" "\<forall>u\<in>set us. id_at h u \<noteq> Some key"
  using assms unfolding lookup_def find_Some_iff
  by (metis (no_types, lifting) id_take_nth_drop in_set_conv_nth length_take min.absorb4 nth_take)

lemma remove_loop_some:
  assumes "chain h (us @ a # vs) 0" and "0 \<notin> set (us @ a # vs)" and "length (us @ a # vs) < n"
    and "id_at h a = Some key" and "\<forall>u\<in>set us. id_at h u \<noteq> Some key"
    and "prev = 0 \<or> prev \<in> dom h \<and> prev \<notin> set (us @ a # vs)" and "distinct (us @ a # vs)"
  shows "remove_loop n h l prev (hdp (us @ a # vs) 0) key =
    (let q = lastp us prev in
     if q = 0 then Inr (drop_ref h a, l\<lparr>timers := hdp vs 0\<rparr>)
     else Inr (drop_ref (upd_nn h q (mnext_update (\<lambda>_. hdp vs 0))) a, l))"
  using assms
proof (induction us arbitrary: n prev)
  case Nil
  then obtain k where k: "n = Suc k" by (cases n) auto
  from Nil.prems obtain ob where ob: "h a = Some ob" "mnext ob = hdp vs 0" "a \<noteq> 0" "timer_id ob = key"
    by (auto simp: id_at_def split: option.splits)
  show ?case
  proof (cases "prev = 0")
    case True
    with ob k show ?thesis by (simp add: c_simps)
  next
    case False
    with Nil.prems(6) obtain pb where pb: "h prev = Some pb" "prev \<noteq> a" by auto
    with False ob k show ?thesis
      by (simp add: c_simps upd_nn_same)
  qed
next
  case (Cons u us)
  then obtain k where k: "n = Suc k" by (cases n) auto
  from Cons.prems obtain ob where ob: "h u = Some ob" "mnext ob = hdp (us @ a # vs) 0" "u \<noteq> 0"
    by (auto split: option.splits)
  with Cons.prems(5) have "timer_id ob \<noteq> key" by (simp add: id_at_def)
  moreover have "u \<in> dom h" using ob by blast
  moreover have "remove_loop k h l u (hdp (us @ a # vs) 0) key =
    (let q = lastp us u in
     if q = 0 then Inr (drop_ref h a, l\<lparr>timers := hdp vs 0\<rparr>)
     else Inr (drop_ref (upd_nn h q (mnext_update (\<lambda>_. hdp vs 0))) a, l))"
    using Cons.prems k \<open>u \<in> dom h\<close> by (intro Cons.IH) auto
  ultimately show ?case using ob k by (simp add: c_simps)
qed

subsection \<open>The invariant of the map\<close>

definition slot_of :: "timer_map_t \<Rightarrow> 64 word \<Rightarrow> nat" where
  "slot_of m key = unat (ucast (key mod ucast (map_size m)) :: 32 word)"

definition list_ok :: "timer_obj heap \<Rightarrow> timer_map_t \<Rightarrow> nat \<Rightarrow> timer_list_t \<Rightarrow> addr list \<Rightarrow> bool" where
  "list_ok h m i l xs \<longleftrightarrow>
     lockedBy l = 0 \<and> timers l = hdp xs 0 \<and> chain h xs 0 \<and> distinct xs \<and> 0 \<notin> set xs
     \<and> inj_on (id_at h) (set xs) \<and> (\<forall>a\<in>set xs. \<exists>key. id_at h a = Some key \<and> key \<noteq> 0 \<and> slot_of m key = i)"

definition map_ok :: "taos_t \<Rightarrow> (nat \<Rightarrow> addr list) \<Rightarrow> bool" where
  "map_ok s L \<longleftrightarrow>
     map_size (timerMap s) \<noteq> 0 \<and> length (map_slots (timerMap s)) = unat (map_size (timerMap s))
     \<and> (\<forall>i < unat (map_size (timerMap s)).
          list_ok (objs s) (timerMap s) i (map_slots (timerMap s) ! i) (L i))"

text \<open>The abstract map: at most \<open>n - 1\<close> timers, each found under its id.\<close>

definition map_rel :: "nat \<Rightarrow> taos_t \<Rightarrow> (64 word \<rightharpoonup> addr) \<Rightarrow> bool" where
  "map_rel n s M \<longleftrightarrow> finite (dom M) \<and> card (dom M) < n
     \<and> (\<exists>L. map_ok s L \<and> (\<forall>key. M key = lookup (objs s) (L (slot_of (timerMap s) key)) key))"

lemma slot_of_bound:
  assumes "map_size m \<noteq> 0"
  shows "slot_of m key < unat (map_size m)" and "map_index m key = Inr (int (slot_of m key))"
proof -
  let ?sz = "ucast (map_size m) :: 64 word"
  have sz: "uint ?sz = uint (map_size m)" by (rule uint_up_ucast) (simp add: is_up)
  have pos: "0 < uint (map_size m)" using assms by (simp add: word_neq_0_conv word_less_def)
  have "uint (key mod ?sz) = uint key mod uint (map_size m)" by (simp add: uint_mod sz)
  then have u: "uint (key mod ?sz) < uint (map_size m)" using pos by simp
  have "uint (ucast (key mod ?sz) :: 32 word) \<le> uint (key mod ?sz)"
    by (simp add: unsigned_ucast_eq take_bit_eq_mod zmod_le_nonneg_dividend)
  with u have "uint (ucast (key mod ?sz) :: 32 word) < uint (map_size m)" by linarith
  then have "int (slot_of m key) < int (unat (map_size m))" by (simp add: slot_of_def)
  then show "slot_of m key < unat (map_size m)" by (simp only: of_nat_less_iff)
  show "map_index m key = Inr (int (slot_of m key))"
    using assms by (simp add: map_index_def slot_of_def)
qed

lemma list_okD:
  assumes "list_ok h m i l xs"
  shows "lockedBy l = 0" "timers l = hdp xs 0" "chain h xs 0" "distinct xs" "0 \<notin> set xs"
    "inj_on (id_at h) (set xs)"
    "a \<in> set xs \<Longrightarrow> \<exists>key. id_at h a = Some key \<and> key \<noteq> 0 \<and> slot_of m key = i"
  using assms by (simp_all add: list_ok_def)

lemma list_ok_frame:
  assumes "\<And>a. a \<in> set xs \<Longrightarrow> map_option (\<lambda>ob. (mnext ob, timer_id ob)) (h' a)
      = map_option (\<lambda>ob. (mnext ob, timer_id ob)) (h a)"
  shows "list_ok h' m i l xs = list_ok h m i l xs"
proof -
  have mn: "map_option mnext (h' a) = map_option mnext (h a)" and ids: "id_at h' a = id_at h a"
    if "a \<in> set xs" for a
    using assms [OF that] by (cases "h a"; cases "h' a"; simp add: id_at_def)+
  have "chain h' xs 0 = chain h xs 0" by (rule chain_frame) (rule mn)
  moreover have "inj_on (id_at h') (set xs) = inj_on (id_at h) (set xs)"
    by (rule inj_on_cong) (rule ids)
  ultimately show ?thesis unfolding list_ok_def using ids by simp
qed

lemma lookup_frame:
  assumes "\<And>a. a \<in> set xs \<Longrightarrow> id_at h' a = id_at h a"
  shows "lookup h' xs key = lookup h xs key"
  unfolding lookup_def using assms by (intro find_cong) auto

lemma lookup_mem: "lookup h xs key = Some a \<Longrightarrow> a \<in> set xs \<and> id_at h a = Some key"
  by (auto simp: lookup_def find_Some_iff)

lemma lookup_unique:
  assumes "inj_on (id_at h) (set xs)" and "a \<in> set xs" and "id_at h a = Some key"
  shows "lookup h xs key = Some a"
proof (cases "lookup h xs key")
  case None
  with assms(2,3) show ?thesis by (auto simp: lookup_def find_None_iff)
next
  case (Some b)
  with lookup_mem [OF Some] assms show ?thesis by (metis inj_onD)
qed

lemma lookup_none: "(\<And>a. a \<in> set xs \<Longrightarrow> id_at h a \<noteq> Some key) \<Longrightarrow> lookup h xs key = None"
  by (auto simp: lookup_def find_None_iff)

text \<open>The chains are short enough for the fuel, and every timer of a chain is found.\<close>

lemma map_member:
  assumes s: "map_ok s L" and M: "\<forall>key. M key = lookup (objs s) (L (slot_of (timerMap s) key)) key"
    and i: "i < unat (map_size (timerMap s))" and a: "a \<in> set (L i)"
  shows "\<exists>key. id_at (objs s) a = Some key \<and> slot_of (timerMap s) key = i \<and> M key = Some a"
proof -
  from s i have l: "list_ok (objs s) (timerMap s) i (map_slots (timerMap s) ! i) (L i)"
    by (simp add: map_ok_def)
  from list_okD(7) [OF l a] obtain key where "id_at (objs s) a = Some key" "slot_of (timerMap s) key = i"
    by blast
  with M lookup_unique [OF list_okD(6) [OF l] a] show ?thesis by auto
qed

lemma chain_length:
  assumes s: "map_ok s L" and M: "\<forall>key. M key = lookup (objs s) (L (slot_of (timerMap s) key)) key"
    and i: "i < unat (map_size (timerMap s))" and fin: "finite (dom M)"
  shows "length (L i) \<le> card (dom M)"
proof -
  from s i have l: "list_ok (objs s) (timerMap s) i (map_slots (timerMap s) ! i) (L i)"
    by (simp add: map_ok_def)
  have "set (L i) \<subseteq> (\<lambda>key. the (M key)) ` dom M"
  proof
    fix a
    assume "a \<in> set (L i)"
    from map_member [OF s M i this] obtain key where "M key = Some a" by blast
    then have "key \<in> dom M" "a = the (M key)" by auto
    then show "a \<in> (\<lambda>key. the (M key)) ` dom M" by blast
  qed
  then have "card (set (L i)) \<le> card (dom M)" using fin surj_card_le by blast
  then show ?thesis using list_okD(4) [OF l] by (simp add: distinct_card)
qed

subsection \<open>The three operations\<close>

lemma with_list_ok:
  fixes key :: "64 word"
  assumes s: "map_ok s L" and n: "0 < n"
  defines "i \<equiv> slot_of (timerMap s) key"
  assumes body: "body (objs s) ((map_slots (timerMap s) ! i)\<lparr>lockedBy := tid\<rparr>) = Inr (h, l, r)"
    and own: "lockedBy l = tid"
  shows "with_list n tid key s body = Inr (s\<lparr>objs := h, timerMap := (timerMap s)
    \<lparr>map_slots := (map_slots (timerMap s))[i := l\<lparr>lockedBy := 0\<rparr>]\<rparr>\<rparr>, r)"
proof -
  have sz: "map_size (timerMap s) \<noteq> 0" "length (map_slots (timerMap s)) = unat (map_size (timerMap s))"
    using s by (simp_all add: map_ok_def)
  note i = slot_of_bound [OF sz(1), of key, folded i_def]
  then have "lockedBy (map_slots (timerMap s) ! i) = 0" "i < length (map_slots (timerMap s))"
    using s by (simp_all add: map_ok_def list_ok_def)
  with n body own i(2) show ?thesis by (simp add: with_list_def c_simps)
qed

lemma slot_of_slots [simp]: "slot_of (m\<lparr>map_slots := sl\<rparr>) key = slot_of m key"
  by (simp add: slot_of_def)

lemma list_ok_slots [simp]: "list_ok h (m\<lparr>map_slots := sl\<rparr>) i l xs = list_ok h m i l xs"
  by (simp add: list_ok_def)

lemma unlock_again: "lockedBy l = 0 \<Longrightarrow> l\<lparr>lockedBy := t, lockedBy := 0\<rparr> = l"
  by simp

text \<open>A new map from an old one: one list and one entry change.\<close>

lemma map_rel_update:
  fixes key :: "64 word"
  assumes s: "map_ok s L" and M: "\<forall>key. M key = lookup (objs s) (L (slot_of (timerMap s) key)) key"
  defines "i \<equiv> slot_of (timerMap s) key"
  assumes l: "list_ok h (timerMap s) i l xs"
    and others: "\<And>j a. j < unat (map_size (timerMap s)) \<Longrightarrow> j \<noteq> i \<Longrightarrow> a \<in> set (L j) \<Longrightarrow>
        map_option (\<lambda>ob. (mnext ob, timer_id ob)) (h a) = map_option (\<lambda>ob. (mnext ob, timer_id ob)) (objs s a)"
    and M': "\<And>k. slot_of (timerMap s) k = i \<Longrightarrow> M' k = lookup h xs k"
      "\<And>k. slot_of (timerMap s) k \<noteq> i \<Longrightarrow> M' k = M k"
    and card: "finite (dom M')" "card (dom M') < n"
  shows "map_rel n (s\<lparr>objs := h, timerMap := (timerMap s)\<lparr>map_slots := (map_slots (timerMap s))[i := l]\<rparr>\<rparr>) M'"
proof -
  let ?m = "timerMap s"
  let ?s' = "s\<lparr>objs := h, timerMap := ?m\<lparr>map_slots := (map_slots ?m)[i := l]\<rparr>\<rparr>"
  have sz: "map_size ?m \<noteq> 0" "length (map_slots ?m) = unat (map_size ?m)" using s by (simp_all add: map_ok_def)
  have i: "i < unat (map_size ?m)" unfolding i_def using sz(1) by (rule slot_of_bound)
  have "list_ok h ?m j ((map_slots ?m)[i := l] ! j) ((L(i := xs)) j)" if j: "j < unat (map_size ?m)" for j
  proof (cases "j = i")
    case True
    then show ?thesis using l i sz(2) by simp
  next
    case False
    then have "list_ok h ?m j (map_slots ?m ! j) (L j) = list_ok (objs s) ?m j (map_slots ?m ! j) (L j)"
      using others [OF j] by (intro list_ok_frame) simp
    then show ?thesis using s j False by (simp add: map_ok_def)
  qed
  then have "map_ok ?s' (L(i := xs))" using sz by (simp add: map_ok_def)
  moreover have "M' k = lookup h ((L(i := xs)) (slot_of ?m k)) k" for k
  proof (cases "slot_of ?m k = i")
    case False
    have "slot_of ?m k < unat (map_size ?m)" using sz(1) by (rule slot_of_bound)
    then have "lookup h (L (slot_of ?m k)) k = lookup (objs s) (L (slot_of ?m k)) k"
      using others [of "slot_of ?m k"] False
      by (intro lookup_frame) (fastforce simp: id_at_def map_option_case split: option.splits)
    then show ?thesis using M'(2) [OF False] M False by simp
  qed (simp add: M'(1))
  ultimately show ?thesis using card by (auto simp: map_rel_def)
qed

lemma findTimer_rel:
  assumes rel: "map_rel n s M"
  shows "\<exists>s'. findTimer n tid key s = Inr (s', case M key of None \<Rightarrow> 0 | Some a \<Rightarrow> a) \<and> map_rel n s' M
    \<and> objs s' = (case M key of None \<Rightarrow> objs s
        | Some a \<Rightarrow> (objs s)(a := map_option (\<lambda>ob. ob\<lparr>refCount := refCount ob + 1\<rparr>) (objs s a)))"
proof -
  from rel obtain L where s: "map_ok s L" and
    M: "\<forall>key. M key = lookup (objs s) (L (slot_of (timerMap s) key)) key"
    and card: "finite (dom M)" "card (dom M) < n" by (auto simp: map_rel_def)
  let ?m = "timerMap s" and ?i = "slot_of (timerMap s) key"
  have sz: "map_size ?m \<noteq> 0" using s by (simp add: map_ok_def)
  have i: "?i < unat (map_size ?m)" using sz by (rule slot_of_bound)
  have l: "list_ok (objs s) ?m ?i (map_slots ?m ! ?i) (L ?i)" using s i by (simp add: map_ok_def)
  show ?thesis
  proof (cases "key = 0")
    case True
    have "M 0 = None"
      unfolding M [rule_format] by (rule lookup_none) (use list_okD(7) [OF l] True in force)
    then show ?thesis using True rel by (simp add: findTimer_def)
  next
    case False
    have len: "length (L ?i) < n" using chain_length [OF s M i card(1)] card(2) by simp
    define h where "h = (case M key of None \<Rightarrow> objs s
        | Some a \<Rightarrow> (objs s)(a := map_option (\<lambda>ob. ob\<lparr>refCount := refCount ob + 1\<rparr>) (objs s a)))"
    have fl: "find_loop n (objs s) (timers (map_slots ?m ! ?i)) key
        = Inr (h, case M key of None \<Rightarrow> 0 | Some a \<Rightarrow> a)"
      using find_loop_ok [OF list_okD(3,5) [OF l] len, of key] list_okD(2) [OF l] M
      by (simp add: h_def split: option.split)
    have same: "map_option (\<lambda>ob. (mnext ob, timer_id ob)) (h a)
        = map_option (\<lambda>ob. (mnext ob, timer_id ob)) (objs s a)" for a
      by (cases "M key") (auto simp: h_def option.map_comp o_def)
    have ids: "id_at h = id_at (objs s)"
    proof
      fix a
      show "id_at h a = id_at (objs s) a"
        using same [of a] by (cases "h a"; cases "objs s a"; simp add: id_at_def)
    qed
    have l': "list_ok h ?m ?i (map_slots ?m ! ?i) (L ?i)" using l same by (subst list_ok_frame [of _ _ "objs s"]) auto
    have run: "findTimer n tid key s = Inr (s\<lparr>objs := h, timerMap := ?m
        \<lparr>map_slots := (map_slots ?m)[?i := map_slots ?m ! ?i]\<rparr>\<rparr>, case M key of None \<Rightarrow> 0 | Some a \<Rightarrow> a)"
      using False with_list_ok [OF s, where n = n and key = key and tid = tid and h = h
          and body = "\<lambda>h l. bindE (find_loop n h (timers l) key) (\<lambda>(h', t). Inr (h', l, t))"
          and l = "(map_slots ?m ! ?i)\<lparr>lockedBy := tid\<rparr>" and r = "case M key of None \<Rightarrow> 0 | Some a \<Rightarrow> a"]
        fl list_okD(1) [OF l] card(2)
      by (simp add: findTimer_def word_neq_0_conv unlock_again)
    have "map_rel n (s\<lparr>objs := h, timerMap := ?m\<lparr>map_slots := (map_slots ?m)[?i := map_slots ?m ! ?i]\<rparr>\<rparr>) M"
      by (rule map_rel_update [OF s M l']) (use same M card in \<open>simp_all add: lookup_def ids\<close>)
    with run show ?thesis by (auto simp: h_def)
  qed
qed

text \<open>A timer put before the first of a chain that has no timer of its id.\<close>

lemma push_list_ok:
  assumes l: "list_ok h m i l xs" and t: "t \<noteq> 0" "t \<notin> set xs" "mnext ob = hdp xs 0"
    and key: "timer_id ob \<noteq> 0" "slot_of m (timer_id ob) = i" "lookup h xs (timer_id ob) = None"
  shows "list_ok (h(t \<mapsto> ob)) m i (l\<lparr>timers := t\<rparr>) (t # xs)"
proof -
  note ld = list_okD [OF l]
  have ids: "id_at (h(t \<mapsto> ob)) a = id_at h a" if "a \<in> set xs" for a using that t(2) by (auto simp: id_at_def)
  have it: "id_at (h(t \<mapsto> ob)) t = Some (timer_id ob)" by (simp add: id_at_def)
  have "chain (h(t \<mapsto> ob)) (t # xs) 0" using ld(3) t(2,3) by (simp add: chain_upd_notin)
  moreover have "Some (timer_id ob) \<notin> id_at h ` set xs" using lookup_unique [OF ld(6)] key(3) by force
  then have "id_at (h(t \<mapsto> ob)) t \<notin> id_at (h(t \<mapsto> ob)) ` set xs" using ids it by auto
  moreover have "inj_on (id_at (h(t \<mapsto> ob))) (set xs)" using ld(6) inj_on_cong ids by metis
  moreover have "\<exists>k. id_at (h(t \<mapsto> ob)) a = Some k \<and> k \<noteq> 0 \<and> slot_of m k = i" if "a \<in> set (t # xs)" for a
    using that it key(1,2) ids ld(7) [of a] by auto
  ultimately show ?thesis using ld(1,4,5) t(1,2) unfolding list_ok_def by auto
qed

lemma push_lookup:
  assumes "t \<notin> set xs"
  shows "lookup (h(t \<mapsto> ob)) (t # xs) k = (if k = timer_id ob then Some t else lookup h xs k)"
proof -
  have "lookup (h(t \<mapsto> ob)) xs k = lookup h xs k"
    using assms by (intro lookup_frame) (auto simp: id_at_def)
  then show ?thesis by (auto simp: lookup_def id_at_def)
qed

text \<open>Fields that are neither ids nor links do not matter to the map.\<close>

lemma map_ok_upd:
  assumes "map_ok s L" and "objs s t = Some ob" and "mnext ob2 = mnext ob" and "timer_id ob2 = timer_id ob"
  shows "map_ok (s\<lparr>objs := (objs s)(t \<mapsto> ob2)\<rparr>) L"
    and "lookup ((objs s)(t \<mapsto> ob2)) xs k = lookup (objs s) xs k"
proof -
  have "list_ok ((objs s)(t \<mapsto> ob2)) m j l (L j) = list_ok (objs s) m j l (L j)" for m j l
    by (rule list_ok_frame) (use assms(2-4) in simp)
  then show "map_ok (s\<lparr>objs := (objs s)(t \<mapsto> ob2)\<rparr>) L" using assms(1) by (simp add: map_ok_def)
  show "lookup ((objs s)(t \<mapsto> ob2)) xs k = lookup (objs s) xs k"
    by (rule lookup_frame) (use assms(2,4) in \<open>simp add: id_at_def\<close>)
qed

lemma addTimer_run:
  assumes s: "map_ok s L" and t: "t \<noteq> 0" "objs s t = Some ob" and n: "0 < n"
  defines "i \<equiv> slot_of (timerMap s) (timer_id ob)"
  shows "addTimer n tid t s = Inr (s\<lparr>objs := (objs s)(t \<mapsto> ob\<lparr>refCount := refCount ob + 1,
      wheel := word_of_nat (length (wheels s)), mnext := hdp (L i) 0\<rparr>), timerMap := (timerMap s)\<lparr>map_slots :=
      (map_slots (timerMap s))[i := (map_slots (timerMap s) ! i)\<lparr>timers := t\<rparr>]\<rparr>\<rparr>)"
proof -
  let ?m = "timerMap s" and ?l = "map_slots (timerMap s) ! i"
  define ob2 where "ob2 = ob\<lparr>refCount := refCount ob + 1, wheel := word_of_nat (length (wheels s))\<rparr>"
  define s2 where "s2 = s\<lparr>objs := (objs s)(t \<mapsto> ob2)\<rparr>"
  have s2: "map_ok s2 L" unfolding s2_def by (rule map_ok_upd(1) [OF s t(2)]) (simp_all add: ob2_def)
  have "i < unat (map_size ?m)" using s unfolding i_def by (intro slot_of_bound) (simp add: map_ok_def)
  then have l: "lockedBy ?l = 0" "timers ?l = hdp (L i) 0" using s by (simp_all add: map_ok_def list_ok_def)
  have m2: "timerMap s2 = ?m" "timer_id ob2 = timer_id ob" by (simp_all add: s2_def ob2_def)
  have 1: "bindE (timerAddRef (objs s) t) (\<lambda>h1.
      bindE (modify h1 t (\<lambda>ob. ob\<lparr>wheel := word_of_nat (length (wheels s))\<rparr>)) (\<lambda>h2. f h2))
    = f ((objs s)(t \<mapsto> ob2))" for f :: "_ \<Rightarrow> taos_t res"
    using t by (simp add: c_simps ob2_def)
  have 2: "deref ((objs s)(t \<mapsto> ob2)) t = Inr ob2" using t(1) by (simp add: c_simps)
  have "bindE (modify (objs s2) t (\<lambda>ob. ob\<lparr>mnext := timers (?l\<lparr>lockedBy := tid\<rparr>)\<rparr>))
      (\<lambda>h'. Inr (h', (?l\<lparr>lockedBy := tid\<rparr>)\<lparr>timers := t\<rparr>, ()))
    = Inr ((objs s)(t \<mapsto> ob2\<lparr>mnext := hdp (L i) 0\<rparr>), ?l\<lparr>lockedBy := tid, timers := t\<rparr>, ())"
    using t(1) l(2) by (simp add: s2_def c_simps)
  note w = with_list_ok [OF s2 n, unfolded m2, where key = "timer_id ob" and tid = tid and
    body = "\<lambda>h l. bindE (modify h t (\<lambda>ob. ob\<lparr>mnext := timers l\<rparr>)) (\<lambda>h'. Inr (h', l\<lparr>timers := t\<rparr>, ()))",
    folded i_def, OF this]
  have "?l\<lparr>lockedBy := tid, timers := t\<rparr>\<lparr>lockedBy := 0\<rparr> = ?l\<lparr>timers := t\<rparr>" using l(1) by simp
  with w show ?thesis unfolding addTimer_def 1 2 bindE_simps m2(2) s2_def [symmetric] by (simp add: s2_def ob2_def)
qed

lemma addTimer_rel:
  assumes rel: "map_rel n s M" and t: "t \<noteq> 0" "objs s t = Some ob" and key: "timer_id ob = key" "key \<noteq> 0"
    and new: "M key = None" and room: "Suc (card (dom M)) < n"
  shows "\<exists>s' q. addTimer n tid t s = Inr s' \<and> map_rel n s' (M(key \<mapsto> t))
    \<and> objs s' = (objs s)(t \<mapsto> ob\<lparr>refCount := refCount ob + 1, wheel := word_of_nat (length (wheels s)), mnext := q\<rparr>)"
proof -
  from rel obtain L where s: "map_ok s L" and
    M: "\<forall>key. M key = lookup (objs s) (L (slot_of (timerMap s) key)) key"
    and card: "finite (dom M)" "card (dom M) < n" by (auto simp: map_rel_def)
  let ?m = "timerMap s" and ?i = "slot_of (timerMap s) key"
  have i: "?i < unat (map_size ?m)" using s by (intro slot_of_bound) (simp add: map_ok_def)
  have l: "list_ok (objs s) ?m ?i (map_slots ?m ! ?i) (L ?i)" using s i by (simp add: map_ok_def)
  have out: "t \<notin> set (L j)" if "j < unat (map_size ?m)" for j
  proof
    assume "t \<in> set (L j)"
    from map_member [OF s M that this] t(2) key(1) new show False by (auto simp: id_at_def)
  qed
  define ob3 where "ob3 = ob\<lparr>refCount := refCount ob + 1, wheel := word_of_nat (length (wheels s)), mnext := hdp (L ?i) 0\<rparr>"
  have o3: "timer_id ob3 = key" "mnext ob3 = hdp (L ?i) 0" using key(1) by (simp_all add: ob3_def)
  let ?h = "(objs s)(t \<mapsto> ob3)"
  have l': "list_ok ?h ?m ?i ((map_slots ?m ! ?i)\<lparr>timers := t\<rparr>) (t # L ?i)"
    by (rule push_list_ok [OF l t(1) out [OF i] o3(2)]) (use key(2) new M o3(1) in simp_all)
  have dom: "finite (dom (M(key \<mapsto> t)))" "card (dom (M(key \<mapsto> t))) < n"
    using card(1) room new by (simp_all add: domIff card_insert_if)
  have "map_rel n (s\<lparr>objs := ?h, timerMap := ?m\<lparr>map_slots :=
      (map_slots ?m)[?i := (map_slots ?m ! ?i)\<lparr>timers := t\<rparr>]\<rparr>\<rparr>) (M(key \<mapsto> t))"
  proof (rule map_rel_update [OF s M l'])
    show "(M(key \<mapsto> t)) k = lookup ?h (t # L ?i) k" if "slot_of ?m k = ?i" for k
      unfolding push_lookup [OF out [OF i]] o3(1) using M that by simp
  qed (use out dom in auto)
  moreover have "addTimer n tid t s = Inr (s\<lparr>objs := ?h, timerMap := ?m\<lparr>map_slots :=
      (map_slots ?m)[?i := (map_slots ?m ! ?i)\<lparr>timers := t\<rparr>]\<rparr>\<rparr>)"
    using addTimer_run [OF s t, of n tid] room by (simp add: ob3_def key(1))
  ultimately show ?thesis by (intro exI conjI) (auto simp: ob3_def)
qed

end
