(* ===== verification/TaosMapSpec.thy ===== *)
theory TaosMapSpec
  imports TaosMap
begin

section \<open>The id map implements a finite map\<close>

text \<open>
  Removal, and the interface of the map as a locale: a client that adds, finds and removes
  timers by id sees a finite map, whatever the hash collisions.
\<close>

text \<open>All of a timer but its link in the chain.\<close>

definition bare :: "timer_obj \<Rightarrow> timer_obj" where
  "bare ob = ob\<lparr>mnext := 0\<rparr>"

lemma bare_ids: "map_option bare (h' a) = map_option bare (h a) \<Longrightarrow> id_at h' a = id_at h a"
proof -
  assume "map_option bare (h' a) = map_option bare (h a)"
  then have "map_option timer_id (map_option bare (h' a)) = map_option timer_id (map_option bare (h a))"
    by simp
  then show ?thesis by (simp add: id_at_def option.map_comp o_def bare_def)
qed

subsection \<open>Taking a timer out of its chain\<close>

text \<open>The heap and the list after \<open>removeTimer\<close> has unlinked the timer between \<open>us\<close> and \<open>vs\<close>.\<close>

definition cut_heap :: "timer_obj heap \<Rightarrow> addr list \<Rightarrow> addr \<Rightarrow> addr list \<Rightarrow> timer_obj heap" where
  "cut_heap h us a vs = drop_ref (upd_nn h (lastp us 0) (mnext_update (\<lambda>_. hdp vs 0))) a"

definition cut_list :: "timer_list_t \<Rightarrow> addr list \<Rightarrow> addr list \<Rightarrow> timer_list_t" where
  "cut_list l us vs = (if lastp us 0 = 0 then l\<lparr>timers := hdp vs 0\<rparr> else l)"

lemma cut_heap_bare: "b \<noteq> a \<Longrightarrow> map_option bare (cut_heap h us a vs b) = map_option bare (h b)"
  by (simp add: cut_heap_def upd_nn_field bare_def)

lemma cut_heap_ids: "b \<noteq> a \<Longrightarrow> id_at (cut_heap h us a vs) b = id_at h b"
  by (rule bare_ids) (rule cut_heap_bare)

lemma upd_last_other: "b \<notin> set us \<Longrightarrow> upd_nn h (lastp us 0) f b = h b"
proof -
  assume "b \<notin> set us"
  then have "b \<noteq> lastp us 0 \<or> lastp us 0 = 0" using lastp_cases [of us 0] by auto
  then show ?thesis by auto
qed

lemma cut_heap_frame: "b \<notin> set us \<Longrightarrow> b \<noteq> a \<Longrightarrow> cut_heap h us a vs b = h b"
  by (simp add: cut_heap_def upd_last_other)

lemma cut_heap_at: "a \<notin> set us \<Longrightarrow> cut_heap h us a vs a = drop_ref h a a"
  by (cases "h a") (simp_all add: cut_heap_def drop_ref_def upd_last_other)

lemma cut_heap_chain:
  assumes "chain h (us @ a # vs) 0" and "distinct (us @ a # vs)" and "0 \<notin> set (us @ a # vs)"
  shows "chain (cut_heap h us a vs) (us @ vs) 0"
proof -
  let ?h = "cut_heap h us a vs"
  have "map_option mnext (?h b) = map_option mnext (h b)" if "b \<in> set vs" for b
    using that assms(2) by (subst cut_heap_frame) auto
  then have "chain ?h vs 0 = chain h vs 0" by (rule chain_frame)
  then have tail: "chain ?h vs 0" using assms(1) by (simp add: chain_append)
  have "chain ?h us (hdp vs 0)"
  proof (cases us rule: rev_cases)
    case (snoc ws u)
    then obtain ub where ub: "h u = Some ub" using chain_in_dom [OF assms(1)] by auto
    have "u \<noteq> a" "u \<noteq> 0" using assms(2,3) snoc by auto
    then have "?h u = Some (ub\<lparr>mnext := hdp vs 0\<rparr>)" using ub snoc by (simp add: cut_heap_def upd_nn_same)
    moreover have "map_option mnext (?h b) = map_option mnext (h b)" if "b \<in> set ws" for b
    proof -
      have "b \<noteq> a" "b \<noteq> u" using that assms(2) snoc by auto
      then show ?thesis using snoc by (simp add: cut_heap_def)
    qed
    then have "chain ?h ws u = chain h ws u" by (rule chain_frame)
    ultimately show ?thesis using assms(1) snoc by (simp add: chain_append)
  qed simp
  with tail show ?thesis by (simp add: chain_append)
qed

lemma cut_list_ok:
  assumes l: "list_ok h m i l (us @ a # vs)"
  shows "list_ok (cut_heap h us a vs) m i (cut_list l us vs) (us @ vs)"
proof -
  let ?h = "cut_heap h us a vs"
  note ld = list_okD [OF l]
  have ids: "id_at ?h b = id_at h b" if "b \<in> set (us @ vs)" for b
    using that ld(4) by (intro cut_heap_ids) auto
  have "lastp us 0 = 0 \<longleftrightarrow> us = []" using ld(5) by (intro lastp_zero_iff) simp
  then have "timers (cut_list l us vs) = hdp (us @ vs) 0" using ld(2) by (cases us) (auto simp: cut_list_def)
  moreover have "inj_on (id_at h) (set (us @ vs))" by (rule inj_on_subset [OF ld(6)]) auto
  then have "inj_on (id_at ?h) (set (us @ vs))" using inj_on_cong [of "set (us @ vs)" "id_at ?h" "id_at h"] ids by simp
  moreover have "\<exists>k. id_at ?h b = Some k \<and> k \<noteq> 0 \<and> slot_of m k = i" if "b \<in> set (us @ vs)" for b
    using ld(7) [of b] ids [OF that] that by auto
  moreover have "distinct (us @ vs)" "0 \<notin> set (us @ vs)" "lockedBy (cut_list l us vs) = 0"
    using ld(1,4,5) by (auto simp: cut_list_def)
  ultimately show ?thesis using cut_heap_chain [OF ld(3-5)] unfolding list_ok_def by blast
qed

lemma cut_lookup:
  assumes l: "list_ok h m i l (us @ a # vs)" and key: "id_at h a = Some key"
  shows "lookup (cut_heap h us a vs) (us @ vs) k = (if k = key then None else lookup h (us @ a # vs) k)"
proof -
  note ld = list_okD [OF l]
  have ids: "id_at (cut_heap h us a vs) b = id_at h b" if "b \<in> set (us @ vs)" for b
    using that ld(4) by (intro cut_heap_ids) auto
  then have same: "lookup (cut_heap h us a vs) (us @ vs) k = lookup h (us @ vs) k" by (rule lookup_frame)
  show ?thesis
  proof (cases "k = key")
    case True
    have "id_at h b \<noteq> Some key" if "b \<in> set (us @ vs)" for b
    proof
      assume "id_at h b = Some key"
      then have "id_at h b = id_at h a" using key by simp
      then have "b = a" using that by (intro inj_onD [OF ld(6)]) auto
      then show False using that ld(4) by auto
    qed
    then show ?thesis using True same lookup_none [of "us @ vs" h key] by simp
  next
    case False
    then have "lookup h (us @ vs) k = lookup h (us @ a # vs) k"
      using key unfolding lookup_def by (induction us) auto
    then show ?thesis using same False by simp
  qed
qed

subsection \<open>Removal\<close>

lemma remove_loop_cut:
  assumes l: "list_ok h m i l (us @ a # vs)" and "length (us @ a # vs) < n"
    and "id_at h a = Some key" and "\<forall>u\<in>set us. id_at h u \<noteq> Some key"
  shows "\<exists>l'. remove_loop n h (l\<lparr>lockedBy := tid\<rparr>) 0 (hdp (us @ a # vs) 0) key = Inr (cut_heap h us a vs, l')
    \<and> lockedBy l' = tid \<and> l'\<lparr>lockedBy := 0\<rparr> = cut_list l us vs"
proof -
  note ld = list_okD [OF l]
  let ?l' = "if lastp us 0 = 0 then l\<lparr>lockedBy := tid, timers := hdp vs 0\<rparr> else l\<lparr>lockedBy := tid\<rparr>"
  have "remove_loop n h (l\<lparr>lockedBy := tid\<rparr>) 0 (hdp (us @ a # vs) 0) key = Inr (cut_heap h us a vs, ?l')"
    using remove_loop_some [OF ld(3,5) assms(2-4) _ ld(4), of 0]
    by (simp add: Let_def cut_heap_def split: if_splits)
  moreover have "x\<lparr>lockedBy := tid, timers := t, lockedBy := 0\<rparr> = x\<lparr>timers := t\<rparr>" if "lockedBy x = 0" for x :: timer_list_t and t
    using that by simp
  from this [OF ld(1)] unlock_again [OF ld(1)] have "?l'\<lparr>lockedBy := 0\<rparr> = cut_list l us vs"
    unfolding cut_list_def by presburger
  moreover have "lockedBy ?l' = tid" by simp
  ultimately show ?thesis by blast
qed

lemma removeTimer_run:
  fixes key :: "64 word"
  assumes s: "map_ok s L" and n: "0 < n"
  defines "i \<equiv> slot_of (timerMap s) key"
  assumes loop: "remove_loop n (objs s) ((map_slots (timerMap s) ! i)\<lparr>lockedBy := tid\<rparr>) 0 (hdp (L i) 0) key = Inr (h, l)"
    and own: "lockedBy l = tid"
  shows "removeTimer n tid key s = Inr (s\<lparr>objs := h, timerMap := (timerMap s)
    \<lparr>map_slots := (map_slots (timerMap s))[i := l\<lparr>lockedBy := 0\<rparr>]\<rparr>\<rparr>)"
proof -
  have "map_size (timerMap s) \<noteq> 0" using s by (simp add: map_ok_def)
  then have "i < unat (map_size (timerMap s))" unfolding i_def by (rule slot_of_bound)
  then have "timers (map_slots (timerMap s) ! i) = hdp (L i) 0" using s by (simp add: map_ok_def list_ok_def)
  then have "bindE (remove_loop n (objs s) ((map_slots (timerMap s) ! i)\<lparr>lockedBy := tid\<rparr>) 0
      (timers ((map_slots (timerMap s) ! i)\<lparr>lockedBy := tid\<rparr>)) key) (\<lambda>(h', l'). Inr (h', l', ())) = Inr (h, l, ())"
    using loop by simp
  from with_list_ok [OF s n, where key = key and tid = tid and body = "\<lambda>h l. bindE (remove_loop n h l 0 (timers l) key) (\<lambda>(h', l'). Inr (h', l', ()))",
      folded i_def, OF this own]
  show ?thesis by (simp add: removeTimer_def)
qed

lemma removeTimer_rel:
  assumes rel: "map_rel n s M"
  shows "\<exists>s'. removeTimer n tid key s = Inr s' \<and> map_rel n s' (M(key := None))
    \<and> (case M key of None \<Rightarrow> objs s' = objs s
        | Some a \<Rightarrow> objs s' a = drop_ref (objs s) a a
            \<and> (\<forall>b. b \<noteq> a \<longrightarrow> map_option bare (objs s' b) = map_option bare (objs s b)))"
proof -
  from rel obtain L where s: "map_ok s L" and
    M: "\<forall>key. M key = lookup (objs s) (L (slot_of (timerMap s) key)) key"
    and card: "finite (dom M)" "card (dom M) < n" by (auto simp: map_rel_def)
  let ?m = "timerMap s" and ?i = "slot_of (timerMap s) key"
  let ?l = "map_slots ?m ! ?i"
  have i: "?i < unat (map_size ?m)" using s by (intro slot_of_bound) (simp add: map_ok_def)
  have l: "list_ok (objs s) ?m ?i ?l (L ?i)" using s i by (simp add: map_ok_def)
  note ld = list_okD [OF l]
  have len: "length (L ?i) < n" and n: "0 < n" using chain_length [OF s M i card(1)] card(2) by simp_all
  have card': "finite (dom (M(key := None)))" "card (dom (M(key := None))) < n"
    using card card_Diff1_le [of "dom M" key] by (simp_all)
  show ?thesis
  proof (cases "M key")
    case None
    then have "lookup (objs s) (L ?i) key = None" using M by simp
    from removeTimer_run [OF s n remove_loop_none [OF ld(3,5) len this]]
    have run: "removeTimer n tid key s = Inr (s\<lparr>objs := objs s, timerMap := ?m\<lparr>map_slots :=
      (map_slots ?m)[?i := ?l]\<rparr>\<rparr>)" unfolding unlock_again [OF ld(1)] by simp
    have Mn: "M(key := None) = M" using None by auto
    have "map_rel n (s\<lparr>objs := objs s, timerMap := ?m\<lparr>map_slots := (map_slots ?m)[?i := ?l]\<rparr>\<rparr>) M"
      by (rule map_rel_update [OF s M l]) (use M card in auto)
    with run Mn None show ?thesis by (intro exI conjI) auto
  next
    case (Some a)
    then have "lookup (objs s) (L ?i) key = Some a" using M by simp
    from lookup_split [OF this] obtain us vs where L: "L ?i = us @ a # vs"
      "id_at (objs s) a = Some key" "\<forall>u\<in>set us. id_at (objs s) u \<noteq> Some key" .
    note l' = l [unfolded L(1)]
    let ?h = "cut_heap (objs s) us a vs"
    from remove_loop_cut [OF l' len [unfolded L(1)] L(2,3), of tid] removeTimer_run [where L = L and key = key and tid = tid, OF s n, unfolded L(1)]
    have run: "removeTimer n tid key s = Inr (s\<lparr>objs := ?h, timerMap := ?m\<lparr>map_slots :=
      (map_slots ?m)[?i := cut_list ?l us vs]\<rparr>\<rparr>)" by metis
    have "?h b = objs s b" if "j < unat (map_size ?m)" "j \<noteq> ?i" "b \<in> set (L j)" for j b
      using map_member [OF s M that(1,3)] ld(7) [of b] that(2) L(1) by (intro cut_heap_frame) auto
    then have "map_rel n (s\<lparr>objs := ?h, timerMap := ?m\<lparr>map_slots := (map_slots ?m)[?i := cut_list ?l us vs]\<rparr>\<rparr>) (M(key := None))"
      by (intro map_rel_update [OF s M cut_list_ok [OF l']])
         (use M L(1) card' in \<open>auto simp: cut_lookup [OF l' L(2)]\<close>)
    moreover have "?h a = drop_ref (objs s) a a" using list_okD(4) [OF l'] by (intro cut_heap_at) simp
    ultimately show ?thesis using run Some cut_heap_bare [of _ a "objs s" us vs] by (intro exI conjI) auto
  qed
qed

subsection \<open>The interface\<close>

datatype 'k map_op = Find 'k | Add addr | Del 'k

locale id_map =
  fixes rel :: "'s \<Rightarrow> ('k \<rightharpoonup> addr) \<Rightarrow> bool"
    and find_op :: "'k \<Rightarrow> 's \<Rightarrow> ('s \<times> addr) res"
    and add_op :: "addr \<Rightarrow> 's \<Rightarrow> 's res"
    and del_op :: "'k \<Rightarrow> 's \<Rightarrow> 's res"
    and key_of :: "'s \<Rightarrow> addr \<Rightarrow> 'k option"
    and cap :: nat
    and null_key :: 'k
  assumes find_law: "rel s M \<Longrightarrow>
      \<exists>s'. find_op k s = Inr (s', case M k of None \<Rightarrow> 0 | Some a \<Rightarrow> a) \<and> rel s' M \<and> key_of s' = key_of s"
    and add_law: "rel s M \<Longrightarrow> a \<noteq> 0 \<Longrightarrow> key_of s a = Some k \<Longrightarrow> k \<noteq> null_key \<Longrightarrow> M k = None \<Longrightarrow>
      Suc (card (dom M)) < cap \<Longrightarrow> \<exists>s'. add_op a s = Inr s' \<and> rel s' (M(k \<mapsto> a)) \<and> key_of s' = key_of s"
    and del_law: "rel s M \<Longrightarrow>
      \<exists>s'. del_op k s = Inr s' \<and> rel s' (M(k := None)) \<and> (\<forall>b. M k \<noteq> Some b \<longrightarrow> key_of s' b = key_of s b)"
begin

text \<open>A script of operations, and the addresses its look-ups return.\<close>

fun run :: "'k map_op list \<Rightarrow> 's \<Rightarrow> ('s \<times> addr list) res" where
  "run [] s = Inr (s, [])"
| "run (Find k # ops) s = bindE (find_op k s) (\<lambda>(s1, a). bindE (run ops s1) (\<lambda>(s2, as). Inr (s2, a # as)))"
| "run (Add a # ops) s = bindE (add_op a s) (run ops)"
| "run (Del k # ops) s = bindE (del_op k s) (run ops)"

end

text \<open>
  The same script on a finite map.  \<open>K\<close> gives the ids of the objects that may be added; an
  object that was removed may have been freed and is not added again.
\<close>

fun map_script ::
  "nat \<Rightarrow> 'k \<Rightarrow> 'k map_op list \<Rightarrow> ('k \<rightharpoonup> addr) \<Rightarrow> (addr \<rightharpoonup> 'k) \<Rightarrow> (('k \<rightharpoonup> addr) \<times> addr list) option" where
  "map_script cap nk [] M K = Some (M, [])"
| "map_script cap nk (Find k # ops) M K = (case map_script cap nk ops M K of None \<Rightarrow> None
     | Some (M', as) \<Rightarrow> Some (M', (case M k of None \<Rightarrow> 0 | Some a \<Rightarrow> a) # as))"
| "map_script cap nk (Add a # ops) M K = (case K a of None \<Rightarrow> None
     | Some k \<Rightarrow> if a \<noteq> 0 \<and> k \<noteq> nk \<and> M k = None \<and> Suc (card (dom M)) < cap
         then map_script cap nk ops (M(k \<mapsto> a)) K else None)"
| "map_script cap nk (Del k # ops) M K = map_script cap nk ops (M(k := None))
     (case M k of None \<Rightarrow> K | Some a \<Rightarrow> K(a := None))"

context id_map
begin

lemma run_refines:
  "rel s M \<Longrightarrow> K \<subseteq>\<^sub>m key_of s \<Longrightarrow> map_script cap null_key ops M K = Some (M', as) \<Longrightarrow>
     \<exists>s'. run ops s = Inr (s', as) \<and> rel s' M'"
proof (induction ops arbitrary: s M K as)
  case Nil
  then show ?case by simp
next
  case (Cons op ops)
  show ?case
  proof (cases op)
    case (Find k)
    from find_law [OF Cons.prems(1), of k] obtain s1 where
      f: "find_op k s = Inr (s1, case M k of None \<Rightarrow> 0 | Some a \<Rightarrow> a)" "rel s1 M" "key_of s1 = key_of s" by blast
    from Cons.prems(3) Find obtain as' where "map_script cap null_key ops M K = Some (M', as')"
      "as = (case M k of None \<Rightarrow> 0 | Some a \<Rightarrow> a) # as'" by (auto split: option.splits)
    with Cons.IH [OF f(2), of K as'] Cons.prems(2) f Find show ?thesis by auto
  next
    case (Add a)
    from Cons.prems(3) Add obtain k where k: "K a = Some k" "a \<noteq> 0" "k \<noteq> null_key" "M k = None"
      "Suc (card (dom M)) < cap" "map_script cap null_key ops (M(k \<mapsto> a)) K = Some (M', as)"
      by (auto split: option.splits if_splits)
    have "key_of s a = Some k" using Cons.prems(2) k(1) by (auto simp: map_le_def dom_def)
    from add_law [OF Cons.prems(1) k(2) this k(3-5)] obtain s1 where
      s1: "add_op a s = Inr s1" "rel s1 (M(k \<mapsto> a))" "key_of s1 = key_of s" by blast
    have "K \<subseteq>\<^sub>m key_of s1" using Cons.prems(2) s1(3) by simp
    from Cons.IH [OF s1(2) this k(6)] s1(1) Add show ?thesis by simp
  next
    case (Del k)
    from del_law [OF Cons.prems(1), of k] obtain s1 where d: "del_op k s = Inr s1"
      "rel s1 (M(k := None))" "\<forall>b. M k \<noteq> Some b \<longrightarrow> key_of s1 b = key_of s b" by blast
    let ?K = "case M k of None \<Rightarrow> K | Some a \<Rightarrow> K(a := None)"
    have Kle: "?K \<subseteq>\<^sub>m key_of s1"
      using Cons.prems(2) d(3) by (auto simp: map_le_def dom_def split: option.splits)
    have "map_script cap null_key ops (M(k := None)) ?K = Some (M', as)"
      using Cons.prems(3) Del by simp
    from Cons.IH [OF d(2) Kle this] d(1) Del show ?thesis by simp
  qed
qed

end

interpretation tm: id_map "map_rel n" "findTimer n tid" "addTimer n tid" "removeTimer n tid"
    "\<lambda>s. id_at (objs s)" n 0 for n :: nat and tid :: int
proof
  fix s M k
  assume rel: "map_rel n s M"
  from findTimer_rel [OF rel, of tid k] obtain s' where f:
    "findTimer n tid k s = Inr (s', case M k of None \<Rightarrow> 0 | Some a \<Rightarrow> a)" "map_rel n s' M"
    "objs s' = (case M k of None \<Rightarrow> objs s
        | Some a \<Rightarrow> (objs s)(a := map_option (\<lambda>ob. ob\<lparr>refCount := refCount ob + 1\<rparr>) (objs s a)))" by blast
  have "id_at (objs s') = id_at (objs s)"
    unfolding f(3) by (auto simp: id_at_def option.map_comp o_def fun_eq_iff split: option.split)
  with f show "\<exists>s'. findTimer n tid k s = Inr (s', case M k of None \<Rightarrow> 0 | Some a \<Rightarrow> a) \<and> map_rel n s' M
      \<and> id_at (objs s') = id_at (objs s)" by blast
next
  fix s M a and k :: "64 word"
  assume rel: "map_rel n s M" and a: "a \<noteq> 0" "id_at (objs s) a = Some k" and k: "k \<noteq> 0" "M k = None"
    and room: "Suc (card (dom M)) < n"
  from a(2) obtain ob where ob: "objs s a = Some ob" "timer_id ob = k" by (auto simp: id_at_def)
  from addTimer_rel [OF rel a(1) ob k room, of tid] obtain s' q where
    "addTimer n tid a s = Inr s'" "map_rel n s' (M(k \<mapsto> a))"
    "objs s' = (objs s)(a \<mapsto> ob\<lparr>refCount := refCount ob + 1, wheel := word_of_nat (length (wheels s)), mnext := q\<rparr>)"
    by blast
  moreover from this(3) ob have "id_at (objs s') = id_at (objs s)" by (simp add: id_at_def fun_eq_iff)
  ultimately show "\<exists>s'. addTimer n tid a s = Inr s' \<and> map_rel n s' (M(k \<mapsto> a)) \<and> id_at (objs s') = id_at (objs s)"
    by blast
next
  fix s M k
  assume rel: "map_rel n s M"
  from removeTimer_rel [OF rel, of tid k] obtain s' where d:
    "removeTimer n tid k s = Inr s'" "map_rel n s' (M(k := None))"
    "case M k of None \<Rightarrow> objs s' = objs s
        | Some a \<Rightarrow> objs s' a = drop_ref (objs s) a a
            \<and> (\<forall>b. b \<noteq> a \<longrightarrow> map_option bare (objs s' b) = map_option bare (objs s b))" by blast
  have "id_at (objs s') b = id_at (objs s) b" if "M k \<noteq> Some b" for b
    using d(3) that by (cases "M k") (auto intro: bare_ids)
  with d show "\<exists>s'. removeTimer n tid k s = Inr s' \<and> map_rel n s' (M(k := None))
      \<and> (\<forall>b. M k \<noteq> Some b \<longrightarrow> id_at (objs s') b = id_at (objs s) b)" by blast
qed

subsection \<open>A state to start from\<close>

text \<open>An empty map: every slot unlocked and empty.\<close>

lemma empty_map_rel:
  assumes "map_size (timerMap s) \<noteq> 0" and "0 < n"
    and "map_slots (timerMap s) = replicate (unat (map_size (timerMap s))) \<lparr>lockedBy = 0, timers = 0\<rparr>"
  shows "map_rel n s Map.empty"
proof -
  have "map_ok s (\<lambda>_. [])" using assms by (simp add: map_ok_def list_ok_def)
  then show ?thesis using assms(2) by (auto simp: map_rel_def lookup_def)
qed

definition fresh_timer :: "64 word \<Rightarrow> timer_obj" where
  "fresh_timer key = \<lparr>timer_id = key, ctrl = 0, mnext = 0, prevw = 0, nextw = 0, slot = 0, wheel = 3,
     state = 0, refCount = 0, expireAt = 0, fp = 77, param = 5\<rparr>"

text \<open>Two slots, three timers whose ids 1, 3 and 4 collide in the first two.\<close>

definition demo_taos :: taos_t where
  "demo_taos = \<lparr>nextTimerId = 4, wheels = wheels_init,
     timerMap = \<lparr>map_size = 2, map_count = 0, map_slots = replicate 2 \<lparr>lockedBy = 0, timers = 0\<rparr>\<rparr>,
     objs = [100 \<mapsto> fresh_timer 1, 200 \<mapsto> fresh_timer 3, 300 \<mapsto> fresh_timer 4]\<rparr>"

lemma demo_taos_rel: "0 < n \<Longrightarrow> map_rel n demo_taos Map.empty"
  by (rule empty_map_rel) (simp_all add: demo_taos_def)

end
