(* ===== verification/TaosWheel.thy ===== *)
theory TaosWheel
  imports TaosTimer
begin

section \<open>The time wheels (\<open>ttimer/timer.c\<close>)\<close>

text \<open>
  \<open>addToWheel\<close> and \<open>removeFromWheel\<close>: three wheels of different resolution, each an array of
  doubly linked lists.  A timer goes to the first wheel whose span exceeds its delay, and there
  to the slot of its expiry.  Both operations change the lists under the wheel's mutex.
  \<open>removeFromWheel\<close> looks at \<open>wheel\<close> once to find the mutex, and again when it has it:
  \<open>remove_locked k\<close> is what it does with the mutex of wheel \<open>k\<close>, and other threads may come before.
  \<open>now\<close> is the result of \<open>taosGetTimestampMs\<close>.
\<close>

definition wheel_span :: "time_wheel_t \<Rightarrow> 32 word" where
  "wheel_span w = wresolution w * ucast (wsize w)"

fun pick_wheel :: "32 word \<Rightarrow> nat \<Rightarrow> time_wheel_t list \<Rightarrow> nat option" where
  "pick_wheel delay i [] = None"
| "pick_wheel delay i (w # ws) = (if delay < wheel_span w then Some i else pick_wheel delay (Suc i) ws)"

definition select_wheel :: "32 word \<Rightarrow> time_wheel_t list \<Rightarrow> nat" where
  "select_wheel delay ws = (case pick_wheel delay 0 ws of Some i \<Rightarrow> i | None \<Rightarrow> length ws - 1)"

definition slot_distance :: "time_wheel_t \<Rightarrow> 64 word \<Rightarrow> 32 word res" where
  "slot_distance w expire =
     (if nextScanAt w <s expire
      then (let delay = ucast (expire - nextScanAt w) :: 32 word
            in if wresolution w = 0 then Inl DivByZero
               else Inr ((delay + wresolution w - 1) div wresolution w))
      else Inr 0)"

definition wheel_slot :: "time_wheel_t \<Rightarrow> 64 word \<Rightarrow> 16 word res" where
  "wheel_slot w expire =
     bindE (slot_distance w expire) (\<lambda>idx.
       if wsize w = 0 then Inl DivByZero
       else Inr (ucast ((ucast (windex w) + idx + 1) mod ucast (wsize w))))"

definition addToWheel :: "addr \<Rightarrow> 32 word \<Rightarrow> 64 word \<Rightarrow> taos_t \<Rightarrow> taos_t res" where
  "addToWheel t delay now s =
     bindE (timerAddRef (objs s) t) (\<lambda>h1.
     (let k = select_wheel delay (wheels s); expire = now + ucast delay
      in bindE (modify h1 t (\<lambda>ob. ob\<lparr>wheel := word_of_nat k, prevw := 0, expireAt := expire\<rparr>)) (\<lambda>h2.
         bindE (arr_get (wheels s) (int k)) (\<lambda>w.
         bindE (wheel_slot w expire) (\<lambda>j.
         bindE (arr_get (wslots w) (uint j)) (\<lambda>p.
         bindE (arr_set (wslots w) (uint j) t) (\<lambda>sl.
         bindE (modify h2 t (\<lambda>ob. ob\<lparr>slot := j, nextw := p\<rparr>)) (\<lambda>h3.
         bindE (modify_nn h3 p (\<lambda>ob. ob\<lparr>prevw := t\<rparr>)) (\<lambda>h4.
         bindE (arr_set (wheels s) (int k) (w\<lparr>wslots := sl\<rparr>)) (\<lambda>ws.
           Inr (s\<lparr>objs := h4, wheels := ws\<rparr>)))))))))))"

definition remove_locked :: "int \<Rightarrow> addr \<Rightarrow> taos_t \<Rightarrow> (taos_t \<times> bool) res" where
  "remove_locked k t s =
     bindE (deref (objs s) t) (\<lambda>ob.
     if wheel ob \<ge> word_of_nat (length (wheels s)) then Inr (s, False)
     else
       bindE (arr_get (wheels s) k) (\<lambda>w.
       bindE (modify_nn (objs s) (prevw ob) (\<lambda>nb. nb\<lparr>nextw := nextw ob\<rparr>)) (\<lambda>h1.
       bindE (modify_nn h1 (nextw ob) (\<lambda>nb. nb\<lparr>prevw := prevw ob\<rparr>)) (\<lambda>h2.
       bindE (arr_get (wslots w) (uint (slot ob))) (\<lambda>hd.
       bindE (if t = hd then arr_set (wslots w) (uint (slot ob)) (nextw ob) else Inr (wslots w)) (\<lambda>sl.
       bindE (arr_set (wheels s) k (w\<lparr>wslots := sl\<rparr>)) (\<lambda>ws.
       bindE (modify h2 t (\<lambda>ob. ob\<lparr>wheel := word_of_nat (length (wheels s)), nextw := 0, prevw := 0\<rparr>)) (\<lambda>h3.
       bindE (timerDecRef h3 t) (\<lambda>h4. Inr (s\<lparr>objs := h4, wheels := ws\<rparr>, True))))))))))"

definition removeFromWheel :: "addr \<Rightarrow> taos_t \<Rightarrow> (taos_t \<times> bool) res" where
  "removeFromWheel t s =
     bindE (deref (objs s) t) (\<lambda>ob.
     if wheel ob \<ge> word_of_nat (length (wheels s)) then Inr (s, False)
     else remove_locked (uint (wheel ob)) t s)"

interpretation wn: dnode nextw prevw "\<lambda>q. nextw_update (\<lambda>_. q)" "\<lambda>q. prevw_update (\<lambda>_. q)"
  by unfold_locales simp_all

subsection \<open>The choice of wheel and slot\<close>

lemma pick_wheel_Some:
  "pick_wheel delay i ws = Some k \<Longrightarrow> i \<le> k \<and> k < i + length ws \<and> delay < wheel_span (ws ! (k - i))
     \<and> (\<forall>m. i \<le> m \<and> m < k \<longrightarrow> wheel_span (ws ! (m - i)) \<le> delay)"
proof (induction ws arbitrary: i)
  case (Cons w ws)
  show ?case
  proof (cases "delay < wheel_span w")
    case True
    with Cons.prems show ?thesis by auto
  next
    case False
    with Cons.prems have "pick_wheel delay (Suc i) ws = Some k" by simp
    from Cons.IH [OF this] have IH: "Suc i \<le> k" "k < Suc i + length ws" "delay < wheel_span (ws ! (k - Suc i))"
      "\<forall>m. Suc i \<le> m \<and> m < k \<longrightarrow> wheel_span (ws ! (m - Suc i)) \<le> delay" by blast+
    have "wheel_span ((w # ws) ! (m - i)) \<le> delay" if "i \<le> m" "m < k" for m
    proof (cases "m = i")
      case True
      then show ?thesis using False by simp
    next
      case neq: False
      with that have "Suc i \<le> m" "m - i = Suc (m - Suc i)" by simp_all
      then show ?thesis using IH(4) that by simp
    qed
    moreover have "k - i = Suc (k - Suc i)" using IH(1) by simp
    ultimately show ?thesis using IH(1-3) by simp
  qed
qed simp

lemma pick_wheel_None: "pick_wheel delay i ws = None \<longleftrightarrow> (\<forall>w\<in>set ws. wheel_span w \<le> delay)"
  by (induction ws arbitrary: i) auto

lemma select_wheel_bound: "ws \<noteq> [] \<Longrightarrow> select_wheel delay ws < length ws"
  using pick_wheel_Some [of delay 0 ws] by (auto simp: select_wheel_def split: option.splits)

lemma wheel_slot_ok:
  assumes "wresolution w \<noteq> 0" and "wsize w \<noteq> 0"
  shows "\<exists>j. wheel_slot w expire = Inr j \<and> unat j < unat (wsize w)"
proof -
  have "\<exists>idx. slot_distance w expire = Inr idx" using assms(1) by (simp add: slot_distance_def Let_def)
  then obtain idx where idx: "slot_distance w expire = Inr idx" by blast
  let ?n = "ucast (wsize w) :: 32 word"
  let ?j = "(ucast (windex w) + idx + 1) mod ?n"
  have n: "uint ?n = uint (wsize w)" by (rule uint_up_ucast) (simp add: is_up)
  have pos: "0 < uint (wsize w)" using assms(2) by (simp add: word_neq_0_conv word_less_def)
  have "uint ?j < uint (wsize w)" using pos by (simp add: uint_mod n)
  moreover have "uint (ucast ?j :: 16 word) \<le> uint ?j"
    by (simp add: unsigned_ucast_eq take_bit_eq_mod zmod_le_nonneg_dividend)
  ultimately have "int (unat (ucast ?j :: 16 word)) < int (unat (wsize w))" by simp
  then have "unat (ucast ?j :: 16 word) < unat (wsize w)" by (simp only: of_nat_less_iff)
  then show ?thesis using assms(2) idx by (simp add: wheel_slot_def)
qed

subsection \<open>The invariant of the wheels\<close>

definition wlist_ok :: "timer_obj heap \<Rightarrow> nat \<Rightarrow> nat \<Rightarrow> addr \<Rightarrow> addr list \<Rightarrow> bool" where
  "wlist_ok h k j q xs \<longleftrightarrow>
     q = hdp xs 0 \<and> dls nextw prevw h 0 xs 0 \<and> distinct xs \<and> 0 \<notin> set xs
     \<and> (\<forall>a\<in>set xs. case h a of None \<Rightarrow> False | Some ob \<Rightarrow> unat (wheel ob) = k \<and> unat (slot ob) = j)"

definition wheels_ok :: "taos_t \<Rightarrow> (nat \<times> nat \<Rightarrow> addr list) \<Rightarrow> bool" where
  "wheels_ok s W \<longleftrightarrow> wheels s \<noteq> [] \<and> length (wheels s) < 256
     \<and> (\<forall>k < length (wheels s). wresolution (wheels s ! k) \<noteq> 0 \<and> wsize (wheels s ! k) \<noteq> 0
          \<and> length (wslots (wheels s ! k)) = unat (wsize (wheels s ! k))
          \<and> (\<forall>j < unat (wsize (wheels s ! k)). wlist_ok (objs s) k j (wslots (wheels s ! k) ! j) (W (k, j))))"

lemma wlist_okD:
  assumes "wlist_ok h k j q xs"
  shows "q = hdp xs 0" "dls nextw prevw h 0 xs 0" "distinct xs" "0 \<notin> set xs"
    "a \<in> set xs \<Longrightarrow> \<exists>ob. h a = Some ob \<and> unat (wheel ob) = k \<and> unat (slot ob) = j"
  using assms by (auto simp: wlist_ok_def split: option.splits)

lemma wheels_okD:
  assumes "wheels_ok s W"
  shows "wheels s \<noteq> []" "length (wheels s) < 256"
    "k < length (wheels s) \<Longrightarrow> wresolution (wheels s ! k) \<noteq> 0"
    "k < length (wheels s) \<Longrightarrow> wsize (wheels s ! k) \<noteq> 0"
    "k < length (wheels s) \<Longrightarrow> length (wslots (wheels s ! k)) = unat (wsize (wheels s ! k))"
    "k < length (wheels s) \<Longrightarrow> j < unat (wsize (wheels s ! k)) \<Longrightarrow>
       wlist_ok (objs s) k j (wslots (wheels s ! k) ! j) (W (k, j))"
  using assms by (simp_all add: wheels_ok_def)

lemma wlist_ok_frame:
  assumes "\<And>a. a \<in> set xs \<Longrightarrow> map_option (\<lambda>ob. (nextw ob, prevw ob, wheel ob, slot ob)) (h' a)
      = map_option (\<lambda>ob. (nextw ob, prevw ob, wheel ob, slot ob)) (h a)"
  shows "wlist_ok h' k j q xs = wlist_ok h k j q xs"
proof -
  have 1: "map_option (\<lambda>ob. (nextw ob, prevw ob)) (h' a) = map_option (\<lambda>ob. (nextw ob, prevw ob)) (h a)"
    and 2: "(case h' a of None \<Rightarrow> False | Some ob \<Rightarrow> unat (wheel ob) = k \<and> unat (slot ob) = j)
      = (case h a of None \<Rightarrow> False | Some ob \<Rightarrow> unat (wheel ob) = k \<and> unat (slot ob) = j)"
    if "a \<in> set xs" for a
    using assms [OF that] by (cases "h a"; cases "h' a"; simp)+
  have "dls nextw prevw h' 0 xs 0 = dls nextw prevw h 0 xs 0" by (rule dls_frame) (rule 1)
  then show ?thesis unfolding wlist_ok_def using 2 by simp
qed

lemma wheels_disjoint:
  assumes s: "wheels_ok s W" and kj: "k < length (wheels s)" "j < unat (wsize (wheels s ! k))"
    and kj': "k' < length (wheels s)" "j' < unat (wsize (wheels s ! k'))"
    and a: "a \<in> set (W (k, j))" "a \<in> set (W (k', j'))"
  shows "(k, j) = (k', j')"
  using wlist_okD(5) [OF wheels_okD(6) [OF s kj] a(1)] wlist_okD(5) [OF wheels_okD(6) [OF s kj'] a(2)]
  by auto

lemma wheels_update:
  assumes s: "wheels_ok s W" and k: "k < length (wheels s)" and j: "j < unat (wsize (wheels s ! k))"
    and l: "wlist_ok h k j q xs"
    and others: "\<And>k' j' a. k' < length (wheels s) \<Longrightarrow> j' < unat (wsize (wheels s ! k')) \<Longrightarrow>
        (k', j') \<noteq> (k, j) \<Longrightarrow> a \<in> set (W (k', j')) \<Longrightarrow> h a = objs s a"
  shows "wheels_ok (s\<lparr>objs := h, wheels := (wheels s)[k := (wheels s ! k)
      \<lparr>wslots := (wslots (wheels s ! k))[j := q]\<rparr>]\<rparr>) (W((k, j) := xs))"
proof -
  let ?w = "(wheels s ! k)\<lparr>wslots := (wslots (wheels s ! k))[j := q]\<rparr>"
  let ?s = "s\<lparr>objs := h, wheels := (wheels s)[k := ?w]\<rparr>"
  have lists: "wlist_ok h k' j' (if k' = k then (wslots (wheels s ! k))[j := q] ! j' else wslots (wheels s ! k') ! j')
      ((W((k, j) := xs)) (k', j'))"
    if kj: "k' < length (wheels s)" "j' < unat (wsize (wheels s ! k'))" for k' j'
  proof (cases "(k', j') = (k, j)")
    case True
    then show ?thesis using l j wheels_okD(5) [OF s k] by simp
  next
    case False
    have "wlist_ok h k' j' (wslots (wheels s ! k') ! j') (W (k', j'))
        = wlist_ok (objs s) k' j' (wslots (wheels s ! k') ! j') (W (k', j'))"
      using others [OF kj False] by (intro wlist_ok_frame) simp
    then show ?thesis using wheels_okD(6) [OF s kj] False by auto
  qed
  have nth: "wheels ?s ! k' = (if k' = k then ?w else wheels s ! k')" for k'
    using k by simp
  show ?thesis
    unfolding wheels_ok_def
  proof (intro conjI allI impI)
    fix k' j'
    assume k': "k' < length (wheels ?s)"
    then have kl: "k' < length (wheels s)" by simp
    show "wresolution (wheels ?s ! k') \<noteq> 0" "wsize (wheels ?s ! k') \<noteq> 0"
      "length (wslots (wheels ?s ! k')) = unat (wsize (wheels ?s ! k'))"
      unfolding nth using wheels_okD(3-5) [OF s kl] wheels_okD(3-5) [OF s k] by simp_all
    assume "j' < unat (wsize (wheels ?s ! k'))"
    then have "j' < unat (wsize (wheels s ! k'))" unfolding nth by (simp split: if_splits)
    from lists [OF kl this] show "wlist_ok (objs ?s) k' j' (wslots (wheels ?s ! k') ! j') ((W((k, j) := xs)) (k', j'))"
      unfolding nth by (simp split: if_splits)
  qed (use wheels_okD(1,2) [OF s] in simp_all)
qed

subsection \<open>The two operations\<close>

text \<open>Whether a timer is in some list.\<close>

definition in_wheels :: "taos_t \<Rightarrow> (nat \<times> nat \<Rightarrow> addr list) \<Rightarrow> addr \<Rightarrow> bool" where
  "in_wheels s W t \<longleftrightarrow> (\<exists>k < length (wheels s). \<exists>j < unat (wsize (wheels s ! k)). t \<in> set (W (k, j)))"

lemma unat_word8: "k < 256 \<Longrightarrow> unat (word_of_nat k :: 8 word) = k"
  by (simp add: unat_of_nat)

text \<open>A timer put before the first of a slot.\<close>

definition push_heap :: "timer_obj heap \<Rightarrow> addr \<Rightarrow> timer_obj \<Rightarrow> addr list \<Rightarrow> timer_obj heap" where
  "push_heap h t ob xs = upd_nn (h(t \<mapsto> ob)) (hdp xs 0) (prevw_update (\<lambda>_. t))"

lemma push_heap_at: "t \<notin> set xs \<Longrightarrow> push_heap h t ob xs t = Some ob"
  using hdp_out [of t xs] by (auto simp: push_heap_def)

lemma push_heap_other: "a \<notin> set (t # xs) \<Longrightarrow> push_heap h t ob xs a = h a"
  using hdp_out [of a xs] by (auto simp: push_heap_def)

lemma push_heap_field:
  assumes "a \<noteq> t" and "\<And>ob q. g (ob\<lparr>prevw := q\<rparr>) = g ob"
  shows "map_option g (push_heap h t ob xs a) = map_option g (h a)"
  using assms by (simp add: push_heap_def upd_nn_field)

lemma push_wlist:
  assumes l: "wlist_ok h k j q xs" and t: "t \<noteq> 0" "t \<notin> set xs"
    and ob: "prevw ob = 0" "nextw ob = hdp xs 0" "unat (wheel ob) = k" "unat (slot ob) = j"
  shows "wlist_ok (push_heap h t ob xs) k j t (t # xs)"
proof -
  note ld = wlist_okD [OF l]
  have "dls nextw prevw (h(t \<mapsto> ob)) 0 ([] @ xs) 0" using ld(2) t(2) by (simp add: dls_upd_notin)
  moreover have "distinct ([] @ t # xs)" "0 \<notin> set ([] @ t # xs)" using ld(3,4) t by simp_all
  ultimately have "dls nextw prevw (upd_nn (push_heap h t ob xs) (lastp [] 0) (nextw_update (\<lambda>_. t))) 0 ([] @ t # xs) 0"
    unfolding push_heap_def by (rule wn.dls_insert [where ob = ob]) (simp_all add: ob)
  then have "dls nextw prevw (push_heap h t ob xs) 0 (t # xs) 0" by simp
  moreover have "\<exists>oa. push_heap h t ob xs a = Some oa \<and> unat (wheel oa) = k \<and> unat (slot oa) = j"
    if "a \<in> set (t # xs)" for a
  proof (cases "a = t")
    case True
    then show ?thesis using push_heap_at [OF t(2)] ob(3,4) by simp
  next
    case False
    then have "map_option (\<lambda>ob. (wheel ob, slot ob)) (push_heap h t ob xs a) = map_option (\<lambda>ob. (wheel ob, slot ob)) (h a)"
      by (intro push_heap_field) simp_all
    with ld(5) [of a] that False show ?thesis by auto
  qed
  ultimately show ?thesis using ld(3,4) t unfolding wlist_ok_def by fastforce
qed

definition armed_obj :: "timer_obj \<Rightarrow> nat \<Rightarrow> 16 word \<Rightarrow> 64 word \<Rightarrow> addr \<Rightarrow> timer_obj" where
  "armed_obj ob k j expire p = ob\<lparr>refCount := refCount ob + 1, wheel := word_of_nat k, prevw := 0,
     expireAt := expire, slot := j, nextw := p\<rparr>"

lemma addToWheel_run:
  fixes delay :: "32 word"
  assumes s: "wheels_ok s W" and t: "t \<noteq> 0" "objs s t = Some ob"
  defines "k \<equiv> select_wheel delay (wheels s)"
  assumes j: "wheel_slot (wheels s ! k) (now + ucast delay) = Inr j" "unat j < unat (wsize (wheels s ! k))"
    and tx: "t \<notin> set (W (k, unat j))"
  defines "xs \<equiv> W (k, unat j)"
  shows "addToWheel t delay now s = Inr (s\<lparr>objs := push_heap (objs s) t (armed_obj ob k j (now + ucast delay) (hdp xs 0)) xs,
    wheels := (wheels s)[k := (wheels s ! k)\<lparr>wslots := (wslots (wheels s ! k))[unat j := t]\<rparr>]\<rparr>)"
proof -
  let ?w = "wheels s ! k"
  have k: "k < length (wheels s)" unfolding k_def using wheels_okD(1) [OF s] by (rule select_wheel_bound)
  note ld = wlist_okD [OF wheels_okD(6) [OF s k j(2)], folded xs_def]
  have jl: "uint j < int (length (wslots ?w))" "nat (uint j) = unat j"
    using j(2) wheels_okD(5) [OF s k] by (simp_all add: uint_nat del: of_nat_unat)
  have "hdp xs 0 = 0 \<or> hdp xs 0 \<in> dom ((objs s)(t \<mapsto> oa))" for oa
    using dls_in_dom [OF ld(2)] hdp_cases [of xs 0] by auto
  then show ?thesis
    using t k j(1) jl ld(1)
    by (simp add: addToWheel_def c_simps k_def [symmetric] Let_def push_heap_def armed_obj_def)
qed

lemma addToWheel_ok:
  fixes delay :: "32 word"
  assumes s: "wheels_ok s W" and t: "t \<noteq> 0" "objs s t = Some ob" "\<not> in_wheels s W t"
  defines "k \<equiv> select_wheel delay (wheels s)"
  shows "\<exists>s' j ob'. addToWheel t delay now s = Inr s'
    \<and> wheel_slot (wheels s ! k) (now + ucast delay) = Inr j
    \<and> wheels_ok s' (W((k, unat j) := t # W (k, unat j))) \<and> k < length (wheels s)
    \<and> unat j < unat (wsize (wheels s ! k))
    \<and> objs s' t = Some ob' \<and> refCount ob' = refCount ob + 1 \<and> expireAt ob' = now + ucast delay
    \<and> unat (wheel ob') = k \<and> slot ob' = j \<and> length (wheels s') = length (wheels s)
    \<and> (\<forall>i < length (wheels s). wsize (wheels s' ! i) = wsize (wheels s ! i))
    \<and> (\<forall>a. a \<noteq> t \<longrightarrow> map_option (\<lambda>ob. (refCount ob, wheel ob)) (objs s' a)
          = map_option (\<lambda>ob. (refCount ob, wheel ob)) (objs s a))"
proof -
  have k: "k < length (wheels s)" unfolding k_def using wheels_okD(1) [OF s] by (rule select_wheel_bound)
  from wheel_slot_ok [OF wheels_okD(3,4) [OF s k], of "now + ucast delay"] obtain j where
    j: "wheel_slot (wheels s ! k) (now + ucast delay) = Inr j" "unat j < unat (wsize (wheels s ! k))" by blast
  let ?xs = "W (k, unat j)"
  have tn: "t \<notin> set (W (k', j'))" if "k' < length (wheels s)" "j' < unat (wsize (wheels s ! k'))" for k' j'
    using t(3) that by (auto simp: in_wheels_def)
  note tx = tn [OF k j(2)] and l = wheels_okD(6) [OF s k j(2)]
  define ob' where "ob' = armed_obj ob k j (now + ucast delay) (hdp ?xs 0)"
  define h where "h = push_heap (objs s) t ob' ?xs"
  define s' where "s' = s\<lparr>objs := h, wheels := (wheels s)[k := (wheels s ! k)\<lparr>wslots := (wslots (wheels s ! k))[unat j := t]\<rparr>]\<rparr>"
  have run: "addToWheel t delay now s = Inr s'"
    using addToWheel_run [OF s t(1,2) j [unfolded k_def] tx [unfolded k_def]] by (simp add: s'_def h_def ob'_def k_def)
  have wk: "unat (wheel ob') = k" using k wheels_okD(2) [OF s] by (simp add: ob'_def armed_obj_def unat_word8)
  have wl: "wlist_ok h k (unat j) t (t # ?xs)"
    unfolding h_def by (rule push_wlist [OF l t(1) tx _ _ wk]) (simp_all add: ob'_def armed_obj_def)
  have "wheels_ok s' (W((k, unat j) := t # ?xs))"
    unfolding s'_def
  proof (rule wheels_update [OF s k j(2) wl])
    fix k' j' a
    assume *: "k' < length (wheels s)" "j' < unat (wsize (wheels s ! k'))" "(k', j') \<noteq> (k, unat j)" "a \<in> set (W (k', j'))"
    then have "a \<notin> set (t # ?xs)" using tn [of k' j'] wheels_disjoint [OF s k j(2) *(1,2) _ *(4)] by auto
    then show "h a = objs s a" unfolding h_def by (rule push_heap_other)
  qed
  moreover have "map_option (\<lambda>ob. (refCount ob, wheel ob)) (h a) = map_option (\<lambda>ob. (refCount ob, wheel ob)) (objs s a)"
    if "a \<noteq> t" for a unfolding h_def using that by (rule push_heap_field) simp
  moreover have "h t = Some ob'" unfolding h_def by (rule push_heap_at [OF tx])
  ultimately show ?thesis
    using run j k wk by (intro exI [of _ s'] exI [of _ j] exI [of _ ob']) (auto simp: s'_def ob'_def armed_obj_def nth_list_update)
qed

text \<open>A timer taken out from between \<open>xs\<close> and \<open>ys\<close>.\<close>

definition unlink_heap :: "timer_obj heap \<Rightarrow> addr list \<Rightarrow> addr list \<Rightarrow> timer_obj heap" where
  "unlink_heap h xs ys = upd_nn (upd_nn h (lastp xs 0) (nextw_update (\<lambda>_. hdp ys 0)))
      (hdp ys 0) (prevw_update (\<lambda>_. lastp xs 0))"

lemma unlink_heap_other: "a \<notin> set (xs @ ys) \<Longrightarrow> unlink_heap h xs ys a = h a"
  using hdp_out [of a ys] lastp_out [of a xs] by (auto simp: unlink_heap_def)

lemma unlink_heap_field:
  assumes "\<And>ob q. g (ob\<lparr>prevw := q\<rparr>) = g ob" and "\<And>ob q. g (ob\<lparr>nextw := q\<rparr>) = g ob"
  shows "map_option g (unlink_heap h xs ys a) = map_option g (h a)"
  using assms by (simp add: unlink_heap_def upd_nn_field)

lemma unlink_wlist:
  assumes l: "wlist_ok h k j q (xs @ t # ys)"
  shows "wlist_ok ((unlink_heap h xs ys)(t := v)) k j (hdp (xs @ ys) 0) (xs @ ys)"
proof -
  note ld = wlist_okD [OF l]
  have t: "t \<notin> set (xs @ ys)" using ld(3) by auto
  have "dls nextw prevw (unlink_heap h xs ys) 0 (xs @ ys) 0"
    unfolding unlink_heap_def by (rule wn.dls_remove [OF ld(2-4)])
  then have "dls nextw prevw ((unlink_heap h xs ys)(t := v)) 0 (xs @ ys) 0" using t by (simp add: dls_upd_notin)
  moreover have "\<exists>oa. ((unlink_heap h xs ys)(t := v)) a = Some oa \<and> unat (wheel oa) = k \<and> unat (slot oa) = j"
    if "a \<in> set (xs @ ys)" for a
  proof -
    have "a \<noteq> t" "a \<in> set (xs @ t # ys)" using that t by auto
    moreover have "map_option (\<lambda>ob. (wheel ob, slot ob)) (unlink_heap h xs ys a)
        = map_option (\<lambda>ob. (wheel ob, slot ob)) (h a)" by (rule unlink_heap_field) simp_all
    ultimately show ?thesis using ld(5) [of a] by auto
  qed
  moreover have "distinct (xs @ ys)" "0 \<notin> set (xs @ ys)" using ld(3,4) by simp_all
  ultimately show ?thesis unfolding wlist_ok_def by fastforce
qed

text \<open>The object after the removal, if there is another reference to it.\<close>

definition disarmed :: "timer_obj \<Rightarrow> nat \<Rightarrow> timer_obj option" where
  "disarmed ob n = (if refCount ob = 1 then None
     else Some (ob\<lparr>wheel := word_of_nat n, nextw := 0, prevw := 0, refCount := refCount ob - 1\<rparr>))"

lemma removeFromWheel_run:
  assumes s: "wheels_ok s W" and k: "k < length (wheels s)" and j: "j < unat (wsize (wheels s ! k))"
    and W: "W (k, j) = xs @ t # ys" and t: "objs s t = Some ob"
  shows "removeFromWheel t s = Inr (s\<lparr>objs := (unlink_heap (objs s) xs ys)(t := disarmed ob (length (wheels s))),
    wheels := (wheels s)[k := (wheels s ! k)\<lparr>wslots := (wslots (wheels s ! k))[j := hdp (xs @ ys) 0]\<rparr>]\<rparr>, True)"
proof -
  let ?w = "wheels s ! k" and ?n = "length (wheels s)"
  note ld = wlist_okD [OF wheels_okD(6) [OF s k j, unfolded W]] and kb = wheels_okD(2) [OF s]
  have ob: "unat (wheel ob) = k" "unat (slot ob) = j" using ld(5) [of t] t by auto
  have lk: "prevw ob = lastp xs 0" "nextw ob = hdp ys 0" using dls_at [OF ld(2) t] by simp_all
  have t0: "t \<noteq> 0" "t \<notin> set xs" "t \<notin> set ys" using ld(3,4) by auto
  have kk: "uint (wheel ob) < int ?n" "nat (uint (wheel ob)) = k"
    using ob(1) k by (simp_all add: uint_nat del: of_nat_unat)
  have jj: "uint (slot ob) < int (length (wslots ?w))" "nat (uint (slot ob)) = j"
    using ob(2) j wheels_okD(5) [OF s k] by (simp_all add: uint_nat del: of_nat_unat)
  have slot: "(if t = wslots ?w ! j then arr_set (wslots ?w) (uint (slot ob)) (nextw ob) else Inr (wslots ?w))
      = Inr ((wslots ?w)[j := hdp (xs @ ys) 0])"
  proof (cases xs)
    case Nil
    then show ?thesis using ld(1) jj lk by (simp add: c_simps)
  next
    case (Cons x xs')
    then have "wslots ?w ! j = x" "x \<noteq> t" using ld(1) t0 by auto
    then show ?thesis using Cons list_update_id [of "wslots ?w" j] by simp
  qed
  have "\<not> wheel ob \<ge> word_of_nat ?n" using ob(1) k unat_word8 [OF kb] by (simp add: word_le_nat_alt)
  moreover have "lastp xs 0 = 0 \<or> lastp xs 0 \<in> dom (objs s)" "hdp ys 0 = 0 \<or> hdp ys 0 \<in> dom (objs s)"
    using dls_in_dom [OF ld(2)] lastp_cases [of xs 0] hdp_cases [of ys 0] by auto
  moreover have "unlink_heap (objs s) xs ys t = Some ob" using t0 t by (simp add: unlink_heap_other)
  moreover have "timerDecRef ((unlink_heap (objs s) xs ys)(t \<mapsto> ob\<lparr>wheel := word_of_nat ?n, nextw := 0, prevw := 0\<rparr>)) t
      = Inr ((unlink_heap (objs s) xs ys)(t := disarmed ob ?n))"
    using t0(1) by (simp add: timerDecRef_ok [where ob = "ob\<lparr>wheel := word_of_nat ?n, nextw := 0, prevw := 0\<rparr>"] disarmed_def)
  ultimately show ?thesis
    using t t0(1) kk jj by (simp add: removeFromWheel_def remove_locked_def c_simps slot lk unlink_heap_def [symmetric])
qed

lemma removeFromWheel_ok:
  assumes s: "wheels_ok s W" and k: "k < length (wheels s)" and j: "j < unat (wsize (wheels s ! k))"
    and t: "t \<in> set (W (k, j))" "objs s t = Some ob"
  shows "\<exists>s'. removeFromWheel t s = Inr (s', True)
    \<and> wheels_ok s' (W((k, j) := remove1 t (W (k, j))))
    \<and> objs s' t = disarmed ob (length (wheels s))
    \<and> length (wheels s') = length (wheels s)
    \<and> (\<forall>i < length (wheels s). wsize (wheels s' ! i) = wsize (wheels s ! i))
    \<and> (\<forall>a. a \<noteq> t \<longrightarrow> map_option (\<lambda>ob. (refCount ob, wheel ob)) (objs s' a)
          = map_option (\<lambda>ob. (refCount ob, wheel ob)) (objs s a))"
proof -
  from t(1) obtain xs ys where W: "W (k, j) = xs @ t # ys" by (meson split_list)
  note l = wheels_okD(6) [OF s k j, unfolded W]
  define h where "h = (unlink_heap (objs s) xs ys)(t := disarmed ob (length (wheels s)))"
  define s' where "s' = s\<lparr>objs := h, wheels := (wheels s)[k := (wheels s ! k)
      \<lparr>wslots := (wslots (wheels s ! k))[j := hdp (xs @ ys) 0]\<rparr>]\<rparr>"
  have run: "removeFromWheel t s = Inr (s', True)"
    using removeFromWheel_run [where W = W and xs = xs and ys = ys, OF s k j W t(2)] by (simp add: s'_def h_def)
  have wl: "wlist_ok h k j (hdp (xs @ ys) 0) (xs @ ys)" unfolding h_def by (rule unlink_wlist [OF l])
  have "wheels_ok s' (W((k, j) := xs @ ys))"
    unfolding s'_def
  proof (rule wheels_update [OF s k j wl])
    fix k' j' a
    assume *: "k' < length (wheels s)" "j' < unat (wsize (wheels s ! k'))" "(k', j') \<noteq> (k, j)" "a \<in> set (W (k', j'))"
    have "a \<notin> set (xs @ t # ys)" using wheels_disjoint [OF s k j *(1,2) _ *(4)] *(3) W by auto
    then show "h a = objs s a" by (simp add: h_def unlink_heap_other)
  qed
  moreover have "remove1 t (W (k, j)) = xs @ ys"
    using wlist_okD(3) [OF l] by (simp add: W remove1_append)
  moreover have "map_option (\<lambda>ob. (refCount ob, wheel ob)) (h a) = map_option (\<lambda>ob. (refCount ob, wheel ob)) (objs s a)"
    if "a \<noteq> t" for a using that by (simp add: h_def unlink_heap_field)
  ultimately show ?thesis using run k by (intro exI [of _ s']) (simp add: s'_def h_def nth_list_update)
qed

lemma removeFromWheel_idle:
  assumes "objs s t = Some ob" and "t \<noteq> 0" and "length (wheels s) \<le> unat (wheel ob)"
  shows "removeFromWheel t s = Inr (s, False)"
proof -
  have "unat (wheel ob) < 2 ^ LENGTH(8)" by (rule unsigned_less)
  then have "length (wheels s) < 256" using assms(3) by simp
  then have "unat (word_of_nat (length (wheels s)) :: 8 word) = length (wheels s)" by (rule unat_word8)
  then have "word_of_nat (length (wheels s)) \<le> wheel ob" using assms(3) by (simp add: word_le_nat_alt)
  then show ?thesis using assms(1,2) by (simp add: removeFromWheel_def c_simps)
qed

end
