(* ===== verification/SpinLock.thy ===== *)
theory SpinLock
  imports TaosTimer
begin

section \<open>The spin lock of a timer list, thread by thread (\<open>ttimer/timer.c\<close>)\<close>

text \<open>
  Threads that lock and unlock one list, in any interleaving.  A turn of a thread is one
  atomic access to \<open>lockedBy\<close>: one round of the loop of \<open>lockTimerList\<close>, or the
  compare-and-swap of \<open>unlockTimerList\<close>.  \<open>Spinning i\<close> carries the loop's counter, an
  \<open>int\<close>.  Thread ids are not 0 (a \<open>pthread_t\<close> is an address).
\<close>

datatype pc = Outside | Spinning int | Inside | Faulty ub

type_synonym lock_state = "int \<times> (int \<Rightarrow> pc)"

definition turn :: "int \<Rightarrow> lock_state \<Rightarrow> lock_state" where
  "turn t s = (case s of (lb, pcs) \<Rightarrow>
     (case pcs t of
        Outside \<Rightarrow> (lb, pcs(t := Spinning 0))
      | Spinning i \<Rightarrow>
          (case atomic_val_compare_exchange lb 0 t of (old, v) \<Rightarrow>
             if old \<noteq> 0
             then (v, pcs(t := (case i32 (i + 1) of Inl e \<Rightarrow> Faulty e | Inr i' \<Rightarrow> Spinning i')))
             else (v, pcs(t := Inside)))
      | Inside \<Rightarrow>
          (case atomic_val_compare_exchange lb t 0 of (old, v) \<Rightarrow>
             if old \<noteq> t then (v, pcs(t := Faulty AssertFailed)) else (v, pcs(t := Outside)))
      | Faulty e \<Rightarrow> s))"

text \<open>The states that the threads of \<open>T\<close> can reach from an unlocked list.\<close>

inductive lock_reach :: "int set \<Rightarrow> lock_state \<Rightarrow> bool" for T where
  start: "lock_reach T (0, \<lambda>_. Outside)"
| step: "lock_reach T s \<Longrightarrow> t \<in> T \<Longrightarrow> lock_reach T (turn t s)"

text \<open>The lock word names the thread inside, and there is no other.\<close>

definition lock_inv :: "int set \<Rightarrow> lock_state \<Rightarrow> bool" where
  "lock_inv T s \<longleftrightarrow> (case s of (lb, pcs) \<Rightarrow>
     (\<forall>t\<in>T. pcs t = Inside \<longleftrightarrow> lb = t) \<and> (lb = 0 \<or> lb \<in> T)
     \<and> (\<forall>t\<in>T. pcs t \<noteq> Faulty AssertFailed))"

lemma lock_inv_upd:
  assumes "lock_inv T (lb, pcs)" and "p = Inside \<longleftrightarrow> lb' = t"
    and "\<And>u. u \<in> T \<Longrightarrow> u \<noteq> t \<Longrightarrow> (lb = u \<longleftrightarrow> lb' = u)" and "lb' = 0 \<or> lb' \<in> T"
    and "p \<noteq> Faulty AssertFailed"
  shows "lock_inv T (lb', pcs(t := p))"
  using assms unfolding lock_inv_def by simp

lemma turn_inv:
  assumes inv: "lock_inv T s" and t: "t \<in> T" and T: "0 \<notin> T"
  shows "lock_inv T (turn t s)"
proof -
  obtain lb pcs where s: "s = (lb, pcs)" by (cases s)
  note inv' = inv [unfolded s]
  have t0: "t \<noteq> 0" using t T by auto
  have i: "pcs t = Inside \<longleftrightarrow> lb = t" "lb = 0 \<or> lb \<in> T" using inv' t by (simp_all add: lock_inv_def)
  show ?thesis
  proof (cases "pcs t")
    case Outside
    then have "turn t s = (lb, pcs(t := Spinning 0))" by (simp add: turn_def s)
    moreover have "lock_inv T (lb, pcs(t := Spinning 0))"
      by (rule lock_inv_upd [OF inv']) (use Outside i in auto)
    ultimately show ?thesis by simp
  next
    case (Spinning k)
    show ?thesis
    proof (cases "lb = 0")
      case True
      then have "turn t s = (t, pcs(t := Inside))" using Spinning by (simp add: turn_def s atomic_val_compare_exchange_def)
      moreover have "lock_inv T (t, pcs(t := Inside))"
        by (rule lock_inv_upd [OF inv']) (use True t T in auto)
      ultimately show ?thesis by simp
    next
      case False
      define p where "p = (case i32 (k + 1) of Inl e \<Rightarrow> Faulty e | Inr i' \<Rightarrow> Spinning i')"
      have p: "p \<noteq> Inside" "p \<noteq> Faulty AssertFailed" by (simp_all add: p_def i32_def)
      have "turn t s = (lb, pcs(t := p))" using Spinning False by (simp add: turn_def s atomic_val_compare_exchange_def p_def)
      moreover have "lock_inv T (lb, pcs(t := p))"
        by (rule lock_inv_upd [OF inv']) (use Spinning i p in auto)
      ultimately show ?thesis by simp
    qed
  next
    case Inside
    then have "turn t s = (0, pcs(t := Outside))" using i by (simp add: turn_def s atomic_val_compare_exchange_def)
    moreover have "lock_inv T (0, pcs(t := Outside))"
      by (rule lock_inv_upd [OF inv']) (use Inside i t0 T in auto)
    ultimately show ?thesis by simp
  next
    case (Faulty e)
    then show ?thesis using inv by (simp add: turn_def s)
  qed
qed

lemma lock_reach_inv: "lock_reach T s \<Longrightarrow> 0 \<notin> T \<Longrightarrow> lock_inv T s"
proof (induction rule: lock_reach.induct)
  case start
  then show ?case by (auto simp: lock_inv_def)
next
  case (step s t)
  then show ?case by (intro turn_inv) simp_all
qed

text \<open>A thread alone in its loop on a taken lock: only its counter moves.\<close>

lemma turn_spinning:
  "pcs t = Spinning i \<Longrightarrow> lb \<noteq> 0 \<Longrightarrow> turn t (lb, pcs)
     = (lb, pcs(t := (case i32 (i + 1) of Inl e \<Rightarrow> Faulty e | Inr i' \<Rightarrow> Spinning i')))"
  by (simp add: turn_def atomic_val_compare_exchange_def)

lemma spin_count:
  assumes "pcs t = Spinning i" and "lb \<noteq> 0" and "0 \<le> i" and "i + int k < 2147483648"
  shows "(turn t ^^ k) (lb, pcs) = (lb, pcs(t := Spinning (i + int k)))"
  using assms
proof (induction k)
  case 0
  then show ?case by simp (metis fun_upd_triv)
next
  case (Suc k)
  have "(turn t ^^ k) (lb, pcs) = (lb, pcs(t := Spinning (i + int k)))"
    by (rule Suc.IH) (use Suc.prems in simp_all)
  moreover have "int_ok (i + int k + 1)" using Suc.prems(3,4) by (intro int_okI) linarith+
  ultimately have "turn t ((turn t ^^ k) (lb, pcs)) = (lb, pcs(t := Spinning (i + int (Suc k))))"
    using Suc.prems(2) by (simp add: turn_spinning i32_ok add_ac)
  then show ?case unfolding funpow.simps o_apply .
qed

subsection \<open>Properties of the lock\<close>

text \<open>
  C15: in every interleaving of threads that lock and unlock a list, at most one thread is between
  its lockTimerList and its unlockTimerList, and the assertion of unlockTimerList never fails.
\<close>
theorem lock_mutual_exclusion:
  assumes "lock_reach T (lb, pcs)" and "0 \<notin> T" and "t \<in> T" and "u \<in> T"
  shows "\<not> (t \<noteq> u \<and> pcs t = Inside \<and> pcs u = Inside) \<and> pcs t \<noteq> Faulty AssertFailed"
  using lock_reach_inv [OF assms(1,2)] assms(3,4) by (auto simp: lock_inv_def)

theorem lock_mutual_exclusion_witness:
  "\<not> ((7::int) \<noteq> 9 \<and> snd (turn 9 (turn 7 (turn 9 (turn 7 (0, \<lambda>_. Outside))))) 7 = Inside
      \<and> snd (turn 9 (turn 7 (turn 9 (turn 7 (0, \<lambda>_. Outside))))) 9 = Inside)
    \<and> snd (turn 9 (turn 7 (turn 9 (turn 7 (0, \<lambda>_. Outside))))) 7 \<noteq> Faulty AssertFailed"
proof (rule lock_mutual_exclusion)
  show "lock_reach {7, 9} (fst (turn 9 (turn 7 (turn 9 (turn 7 (0, \<lambda>_. Outside))))),
      snd (turn 9 (turn 7 (turn 9 (turn 7 (0, \<lambda>_. Outside))))))"
    by (simp add: lock_reach.intros)
qed simp_all

text \<open>
  The lock is not lost: whenever no thread is inside, a waiting thread gets it with its next
  round; and a thread that is inside and leaves frees it.
\<close>
theorem lock_progress:
  assumes "lock_reach T (lb, pcs)" and "0 \<notin> T" and "t \<in> T"
  shows "((\<forall>u\<in>T. pcs u \<noteq> Inside) \<and> pcs t = Spinning i \<longrightarrow> turn t (lb, pcs) = (t, pcs(t := Inside)))
    \<and> (pcs t = Inside \<longrightarrow> turn t (lb, pcs) = (0, pcs(t := Outside)))"
proof -
  have i: "\<forall>u\<in>T. pcs u = Inside \<longleftrightarrow> lb = u" "lb = 0 \<or> lb \<in> T"
    using lock_reach_inv [OF assms(1,2)] by (simp_all add: lock_inv_def)
  have "lb = 0" if "\<forall>u\<in>T. pcs u \<noteq> Inside" using i that by blast
  then show ?thesis using i(1) assms(3) by (auto simp: turn_def atomic_val_compare_exchange_def)
qed

theorem lock_progress_witness:
  "((\<forall>u\<in>{7, 9::int}. ((\<lambda>_::int. Outside)(7 := Spinning 0)) u \<noteq> Inside) \<and> ((\<lambda>_::int. Outside)(7 := Spinning 0)) 7 = Spinning 0
       \<longrightarrow> turn 7 (0, (\<lambda>_::int. Outside)(7 := Spinning 0)) = (7, ((\<lambda>_::int. Outside)(7 := Spinning 0))(7 := Inside)))
    \<and> (((\<lambda>_::int. Outside)(7 := Spinning 0)) 7 = Inside
       \<longrightarrow> turn 7 (0, (\<lambda>_::int. Outside)(7 := Spinning 0)) = (0, ((\<lambda>_::int. Outside)(7 := Spinning 0))(7 := Outside)))"
proof (rule lock_progress)
  have "turn 7 (0, \<lambda>_. Outside) = (0, (\<lambda>_. Outside)(7 := Spinning 0))" by (simp add: turn_def)
  then show "lock_reach {7, 9} (0, (\<lambda>_. Outside)(7 := Spinning 0))"
    using lock_reach.step [OF lock_reach.start, of 7 "{7, 9}"] by simp
qed simp_all

text \<open>
  The loop counts its rounds in an int that nothing bounds: a thread that waits while another
  holds the lock for 2^31 rounds reaches a signed overflow.
\<close>
theorem long_spin_overflows:
  assumes "pcs t = Spinning 0" and "lb \<noteq> 0" and "int n = 2147483648"
  shows "(turn t ^^ n) (lb, pcs) = (lb, pcs(t := Faulty SignedOverflow))"
proof -
  from assms(3) obtain k where k: "n = Suc k" by (cases n) auto
  then have k1: "int k = 2147483647" using assms(3) by simp
  have "(turn t ^^ k) (lb, pcs) = (lb, pcs(t := Spinning (0 + int k)))"
    by (rule spin_count) (use assms(1,2) k1 in simp_all)
  then have "turn t ((turn t ^^ k) (lb, pcs)) = (lb, pcs(t := Faulty SignedOverflow))"
    using assms(2) by (simp add: turn_spinning i32_def int_ok_def k1)
  then show ?thesis by (simp add: k)
qed

theorem long_spin_overflows_witness:
  "(turn 7 ^^ nat 2147483648) (9, (\<lambda>_. Outside)(7 := Spinning 0, 9 := Inside))
     = (9, ((\<lambda>_. Outside)(7 := Spinning 0, 9 := Inside))(7 := Faulty SignedOverflow))"
proof (rule long_spin_overflows)
  show "int (nat 2147483648) = 2147483648" by (rule int_nat_eq [THEN trans]) simp
qed simp_all

end

