(* ===== verification/TaosProps.thy ===== *)
theory TaosProps
  imports TaosMapSpec TaosWheel SpinLock
begin

section \<open>Properties of the second timer module\<close>

subsection \<open>The id map\<close>

text \<open>A script of the three operations, run by one thread.\<close>

fun map_run :: "nat \<Rightarrow> int \<Rightarrow> 64 word map_op list \<Rightarrow> taos_t \<Rightarrow> (taos_t \<times> addr list) res" where
  "map_run n tid [] s = Inr (s, [])"
| "map_run n tid (Find k # ops) s = bindE (findTimer n tid k s) (\<lambda>(s1, a).
     bindE (map_run n tid ops s1) (\<lambda>(s2, as). Inr (s2, a # as)))"
| "map_run n tid (Add a # ops) s = bindE (addTimer n tid a s) (map_run n tid ops)"
| "map_run n tid (Del k # ops) s = bindE (removeTimer n tid k s) (map_run n tid ops)"

lemma map_run_eq: "map_run n tid ops s = tm.run n tid ops s"
proof (induction n tid ops s rule: map_run.induct)
  case (2 n tid k ops s)
  then show ?case by (cases "findTimer n tid k s") auto
next
  case (3 n tid a ops s)
  then show ?case by (cases "addTimer n tid a s") auto
next
  case (4 n tid k ops s)
  then show ?case by (cases "removeTimer n tid k s") auto
qed simp

text \<open>A state with one timer in the map: id 1 at address 100, with the map's own reference.\<close>

definition demo_mapped :: taos_t where
  "demo_mapped = demo_taos\<lparr>
     timerMap := \<lparr>map_size = 2, map_count = 0, map_slots = [\<lparr>lockedBy = 0, timers = 0\<rparr>, \<lparr>lockedBy = 0, timers = 100\<rparr>]\<rparr>,
     objs := (objs demo_taos)(100 \<mapsto> (fresh_timer 1)\<lparr>refCount := 1\<rparr>)\<rparr>"

lemma demo_mapped_rel: "1 < n \<Longrightarrow> map_rel n demo_mapped [1 \<mapsto> 100]"
proof -
  assume n: "1 < n"
  let ?L = "\<lambda>i. if i = 1 then [100 :: addr] else []"
  have one: "slot_of (timerMap demo_mapped) 1 = 1"
    by (simp add: slot_of_def demo_mapped_def)
  have "list_ok (objs demo_mapped) (timerMap demo_mapped) i (map_slots (timerMap demo_mapped) ! i) (?L i)"
    if "i < 2" for i
    using less_2_cases [OF that] one
    by (auto simp: list_ok_def id_at_def) (simp_all add: demo_mapped_def demo_taos_def fresh_timer_def)
  moreover have sz: "map_size (timerMap demo_mapped) \<noteq> 0" "unat (map_size (timerMap demo_mapped)) = 2"
    "length (map_slots (timerMap demo_mapped)) = 2" by (simp_all add: demo_mapped_def)
  ultimately have "map_ok demo_mapped ?L" unfolding map_ok_def sz by blast
  moreover have "[1 \<mapsto> 100] key = lookup (objs demo_mapped) (?L (slot_of (timerMap demo_mapped) key)) key" for key
    using one by (auto simp: lookup_def id_at_def demo_mapped_def demo_taos_def fresh_timer_def)
  ultimately show ?thesis using n by (auto simp: map_rel_def)
qed

text \<open>
  C14: addTimer, findTimer and removeTimer implement a finite map from ids to timers: whatever ids
  collide in the hash table, every script of them that the map allows runs without undefined
  behaviour, its look-ups return what the map holds (NULL for an absent id), and the table
  represents the resulting map again.
\<close>
theorem id_map_implements_map:
  assumes "map_rel n s M" and "K \<subseteq>\<^sub>m id_at (objs s)" and "map_script n 0 ops M K = Some (M', as)"
  shows "\<exists>s'. map_run n tid ops s = Inr (s', as) \<and> map_rel n s' M'"
  unfolding map_run_eq by (rule tm.run_refines [OF assms])

theorem id_map_implements_map_witness:
  "\<exists>s'. map_run 9 7 [Add 100, Add 200, Find 3, Del 1, Find 1, Add 300, Find 4] demo_taos = Inr (s', [200, 0, 300])
    \<and> map_rel 9 s' [3 \<mapsto> 200, 4 \<mapsto> 300]"
proof -
  have rel: "map_rel 9 demo_taos Map.empty" by (rule demo_taos_rel) simp
  have K: "[100 \<mapsto> 1 :: 64 word, 200 \<mapsto> 3, 300 \<mapsto> 4] \<subseteq>\<^sub>m id_at (objs demo_taos)"
    by (auto simp: map_le_def id_at_def demo_taos_def fresh_timer_def)
  have M: "map_script 9 0 [Add 100, Add 200, Find (3 :: 64 word), Del 1, Find 1, Add 300, Find 4] Map.empty
      [100 \<mapsto> 1, 200 \<mapsto> 3, 300 \<mapsto> 4] = Some (Map.empty(1 \<mapsto> 100, 3 \<mapsto> 200, 1 := None, 4 \<mapsto> 300), [200, 0, 300])"
    by (simp add: card_insert_if)
  have "Map.empty(1 \<mapsto> 100, 3 \<mapsto> 200, 1 := None, 4 \<mapsto> 300) = ([3 \<mapsto> 200, 4 \<mapsto> 300] :: 64 word \<rightharpoonup> addr)"
    by (auto simp: fun_eq_iff)
  with id_map_implements_map [OF rel K M, of 7] show ?thesis by (simp only:)
qed

subsection \<open>Reference counts\<close>

fun find_times :: "nat \<Rightarrow> nat \<Rightarrow> int \<Rightarrow> 64 word \<Rightarrow> taos_t \<Rightarrow> (taos_t \<times> addr list) res" where
  "find_times 0 n tid key s = Inr (s, [])"
| "find_times (Suc k) n tid key s = bindE (findTimer n tid key s) (\<lambda>(s1, a).
     bindE (find_times k n tid key s1) (\<lambda>(s2, as). Inr (s2, a # as)))"

lemma find_times_ok:
  assumes "map_rel n s M" and "M key = Some a" and "objs s a = Some ob"
  shows "\<exists>s'. find_times k n tid key s = Inr (s', replicate k a) \<and> map_rel n s' M
    \<and> objs s' a = Some (ob\<lparr>refCount := refCount ob + word_of_nat k\<rparr>)"
  using assms
proof (induction k arbitrary: s ob)
  case (Suc k)
  from findTimer_rel [OF Suc.prems(1), of tid key] Suc.prems(2,3) obtain s1 where
    f: "findTimer n tid key s = Inr (s1, a)" "map_rel n s1 M"
      "objs s1 a = Some (ob\<lparr>refCount := refCount ob + 1\<rparr>)" by auto
  from Suc.IH [OF f(2) Suc.prems(2) f(3)] f(1) show ?case by (auto simp: add_ac)
qed simp

text \<open>
  References are counted.  A timer with the map's one reference that is looked up k times,
  1 <= k <= 254, survives its removal from the map with k references; without a look-up the
  removal frees it.
\<close>
theorem removal_frees_last_reference:
  assumes "map_rel n s M" and "M key = Some a" and "objs s a = Some ob" and "refCount ob = 1" and "k < 255"
  shows "\<exists>s1 s2. find_times k n tid key s = Inr (s1, replicate k a) \<and> removeTimer n tid key s1 = Inr s2
    \<and> map_rel n s2 (M(key := None))
    \<and> map_option refCount (objs s2 a) = (if k = 0 then None else Some (word_of_nat k))"
proof -
  from find_times_ok [OF assms(1-3), of k tid] obtain s1 where
    f: "find_times k n tid key s = Inr (s1, replicate k a)" "map_rel n s1 M"
      "objs s1 a = Some (ob\<lparr>refCount := 1 + word_of_nat k\<rparr>)" by (auto simp: assms(4))
  from removeTimer_rel [OF f(2), of tid key] assms(2) obtain s2 where
    d: "removeTimer n tid key s1 = Inr s2" "map_rel n s2 (M(key := None))" "objs s2 a = drop_ref (objs s1) a a"
    by auto
  have "unat (word_of_nat k :: 8 word) = k" using assms(5) by (simp add: unat_of_nat)
  then have "(word_of_nat k :: 8 word) = 0 \<longleftrightarrow> k = 0" using unat_eq_zero [of "word_of_nat k :: 8 word"] by argo
  then have "map_option refCount (objs s2 a) = (if k = 0 then None else Some (word_of_nat k))"
    using d(3) f(3) by (simp add: drop_ref_def)
  with f(1) d(1,2) show ?thesis by blast
qed

theorem removal_frees_last_reference_witness:
  "\<exists>s1 s2. find_times 2 9 7 1 demo_mapped = Inr (s1, replicate 2 100) \<and> removeTimer 9 7 1 s1 = Inr s2
    \<and> map_rel 9 s2 ([1 \<mapsto> 100](1 := None))
    \<and> map_option refCount (objs s2 100) = (if (2::nat) = 0 then None else Some (word_of_nat 2))"
  by (rule removal_frees_last_reference [OF demo_mapped_rel, where ob = "(fresh_timer 1)\<lparr>refCount := 1\<rparr>"]) (simp_all add: demo_mapped_def fresh_timer_def)

lemma demo_mapped_at: "objs demo_mapped 100 = Some ((fresh_timer 1)\<lparr>refCount := 1\<rparr>)"
  by (simp add: demo_mapped_def fresh_timer_def)

lemma wrapped_count_frees:
  assumes "map_rel n s M" and "M key = Some a" and "objs s a = Some ob" and "refCount ob = 1"
    and k: "(word_of_nat k :: 8 word) = 0"
  shows "\<exists>s1 s2. find_times k n tid key s = Inr (s1, replicate k a) \<and> removeTimer n tid key s1 = Inr s2
    \<and> objs s2 a = None"
proof -
  from find_times_ok [OF assms(1-3), of k tid] obtain s1 where
    f: "find_times k n tid key s = Inr (s1, replicate k a)" "map_rel n s1 M"
      "objs s1 a = Some (ob\<lparr>refCount := 1\<rparr>)" unfolding k assms(4) by auto
  from removeTimer_rel [OF f(2), of tid key] assms(2) obtain s2 where
    d: "removeTimer n tid key s1 = Inr s2" "objs s2 a = drop_ref (objs s1) a a" by auto
  have "objs s2 a = None" using d(2) f(3) by (simp add: drop_ref_def)
  with f(1) d(1) show ?thesis by blast
qed

text \<open>
  C39: the reference count has 8 bits and wraps.  After 256 look-ups of a timer the count is back
  at the map's single reference: removing the timer frees it under 256 holders.
\<close>
theorem refcount_wrap_frees_held_timer:
  assumes "map_rel n s M" and "M key = Some a" and "objs s a = Some ob" and "refCount ob = 1"
  shows "\<exists>s1 s2. find_times 256 n tid key s = Inr (s1, replicate 256 a) \<and> removeTimer n tid key s1 = Inr s2
    \<and> objs s2 a = None"
  by (rule wrapped_count_frees [OF assms]) (simp add: word_of_nat_eq_0_iff)

theorem refcount_wrap_frees_held_timer_witness:
  "\<exists>s1 s2. find_times 256 9 7 1 demo_mapped = Inr (s1, replicate 256 100) \<and> removeTimer 9 7 1 s1 = Inr s2
    \<and> objs s2 100 = None"
  by (rule refcount_wrap_frees_held_timer [OF demo_mapped_rel, where ob = "(fresh_timer 1)\<lparr>refCount := 1\<rparr>"])
    (simp, simp, rule demo_mapped_at, simp)

end

