(* ===== verification/TaosWheelProps.thy ===== *)
theory TaosWheelProps
  imports TaosWheel TaosMap
begin

section \<open>Properties of the time wheels\<close>

subsection \<open>Empty wheels\<close>

text \<open>Wheels of four empty slots each; the sizes of the source work the same way.\<close>

definition small_wheels :: "time_wheel_t list" where
  "small_wheels = map (\<lambda>w. w\<lparr>wsize := 4, wslots := replicate 4 0\<rparr>) wheels_init"

definition demo_wheels :: taos_t where
  "demo_wheels = \<lparr>nextTimerId = 2, wheels = small_wheels,
     timerMap = \<lparr>map_size = 0, map_count = 0, map_slots = []\<rparr>,
     objs = [100 \<mapsto> \<lparr>timer_id = 1, ctrl = 0, mnext = 0, prevw = 0, nextw = 0, slot = 0, wheel = 3,
       state = 0, refCount = 1, expireAt = 0, fp = 77, param = 5\<rparr>]\<rparr>"

lemma empty_wheels_ok:
  assumes "wheels s \<noteq> []" and "length (wheels s) < 256"
    and "\<And>w. w \<in> set (wheels s) \<Longrightarrow> wresolution w \<noteq> 0 \<and> wsize w \<noteq> 0 \<and> wslots w = replicate (unat (wsize w)) 0"
  shows "wheels_ok s (\<lambda>_. [])"
  unfolding wheels_ok_def
proof (intro conjI allI impI)
  fix k
  assume "k < length (wheels s)"
  note w = assms(3) [OF nth_mem [OF this]]
  show "wresolution (wheels s ! k) \<noteq> 0" "wsize (wheels s ! k) \<noteq> 0"
    "length (wslots (wheels s ! k)) = unat (wsize (wheels s ! k))" using w by simp_all
  fix j
  assume "j < unat (wsize (wheels s ! k))"
  then show "wlist_ok (objs s) k j (wslots (wheels s ! k) ! j) []" using w by (simp add: wlist_ok_def)
qed (use assms(1,2) in simp_all)

lemma demo_wheels_ok: "wheels_ok demo_wheels (\<lambda>_. [])"
  by (rule empty_wheels_ok)
     (auto simp: demo_wheels_def small_wheels_def wheels_init_def)

lemma demo_wheels_at:
  "objs demo_wheels 100 = Some \<lparr>timer_id = 1, ctrl = 0, mnext = 0, prevw = 0, nextw = 0, slot = 0, wheel = 3,
       state = 0, refCount = 1, expireAt = 0, fp = 77, param = 5\<rparr>"
  by (simp add: demo_wheels_def)

subsection \<open>Adding and removing\<close>

text \<open>
  RemoveFromWheel undoes addToWheel.  A timer that is in no list of well-formed wheels is
  added, at any delay and at any time; removing it then succeeds, gives the wheels the lists and
  the timer the reference count they had before, and removing it once more does nothing and
  returns false.
\<close>
theorem wheel_add_remove:
  assumes "wheels_ok s W" and "t \<noteq> 0" and "objs s t = Some ob" and "\<not> in_wheels s W t" and "refCount ob \<noteq> 0"
  shows "\<exists>s1 s2 ob2. addToWheel t delay now s = Inr s1 \<and> removeFromWheel t s1 = Inr (s2, True)
    \<and> wheels_ok s2 W \<and> objs s2 t = Some ob2 \<and> refCount ob2 = refCount ob
    \<and> removeFromWheel t s2 = Inr (s2, False)"
proof -
  let ?k = "select_wheel delay (wheels s)"
  from addToWheel_ok [OF assms(1-4), of delay now] obtain s1 ob1 and j :: "16 word" where
    a: "addToWheel t delay now s = Inr s1" "wheels_ok s1 (W((?k, unat j) := t # W (?k, unat j)))"
      "?k < length (wheels s)" "unat j < unat (wsize (wheels s ! ?k))" "objs s1 t = Some ob1"
      "refCount ob1 = refCount ob + 1" "length (wheels s1) = length (wheels s)"
      "\<forall>i < length (wheels s). wsize (wheels s1 ! i) = wsize (wheels s ! i)" by blast
  have "?k < length (wheels s1)" "unat j < unat (wsize (wheels s1 ! ?k))" using a(3,4,7,8) by simp_all
  moreover have "t \<in> set ((W((?k, unat j) := t # W (?k, unat j))) (?k, unat j))" by simp
  ultimately obtain s2 where
    r: "removeFromWheel t s1 = Inr (s2, True)"
      "wheels_ok s2 ((W((?k, unat j) := t # W (?k, unat j)))((?k, unat j) :=
         remove1 t ((W((?k, unat j) := t # W (?k, unat j))) (?k, unat j))))"
      "objs s2 t = disarmed ob1 (length (wheels s1))"
      "length (wheels s2) = length (wheels s1)" using removeFromWheel_ok [OF a(2) _ _ _ a(5)] by blast
  have "wheels_ok s2 W" using r(2) by simp
  moreover have "refCount ob1 \<noteq> 1" using a(6) assms(5) by simp
  moreover have "unat (word_of_nat (length (wheels s1)) :: 8 word) = length (wheels s2)"
    using wheels_okD(2) [OF assms(1)] a(7) r(4) by (simp add: unat_word8)
  ultimately show ?thesis
    using a(1,6) r(1,3) removeFromWheel_idle [of s2 t, OF _ assms(2)] by (auto simp: disarmed_def)
qed

theorem wheel_add_remove_witness:
  "\<exists>s1 s2 ob2. addToWheel 100 12 1000 demo_wheels = Inr s1 \<and> removeFromWheel 100 s1 = Inr (s2, True)
    \<and> wheels_ok s2 (\<lambda>_. []) \<and> objs s2 100 = Some ob2
    \<and> refCount ob2 = refCount \<lparr>timer_id = 1, ctrl = 0, mnext = 0, prevw = 0, nextw = 0, slot = 0, wheel = 3,
       state = 0, refCount = 1, expireAt = 0, fp = 77, param = 5\<rparr>
    \<and> removeFromWheel 100 s2 = Inr (s2, False)"
  by (rule wheel_add_remove [OF demo_wheels_ok _ demo_wheels_at]) (simp_all add: in_wheels_def)

subsection \<open>Scripts of additions and removals\<close>

datatype wheel_op = Put addr "32 word" "64 word" | Take addr

fun wheel_run :: "wheel_op list \<Rightarrow> taos_t \<Rightarrow> (taos_t \<times> bool list) res" where
  "wheel_run [] s = Inr (s, [])"
| "wheel_run (Put t delay now # ops) s = bindE (addToWheel t delay now s) (wheel_run ops)"
| "wheel_run (Take t # ops) s = bindE (removeFromWheel t s) (\<lambda>(s1, b).
     bindE (wheel_run ops s1) (\<lambda>(s2, bs). Inr (s2, b # bs)))"

text \<open>The abstract wheels are the set of the timers in them; \<open>T\<close> are the timers of the client.\<close>

fun wheel_spec :: "addr set \<Rightarrow> wheel_op list \<Rightarrow> addr set \<Rightarrow> (addr set \<times> bool list) option" where
  "wheel_spec T [] S = Some (S, [])"
| "wheel_spec T (Put t delay now # ops) S = (if t \<in> T \<and> t \<notin> S then wheel_spec T ops (insert t S) else None)"
| "wheel_spec T (Take t # ops) S =
     (if t \<in> T then map_option (\<lambda>(S', bs). (S', (t \<in> S) # bs)) (wheel_spec T ops (S - {t})) else None)"

text \<open>The client holds one reference to each of its timers, the wheels one more.\<close>

definition timer_in :: "bool \<Rightarrow> nat \<Rightarrow> timer_obj option \<Rightarrow> bool" where
  "timer_in b n x \<longleftrightarrow> (\<exists>ob. x = Some ob \<and> refCount ob = (if b then 2 else 1) \<and> (\<not> b \<longrightarrow> n \<le> unat (wheel ob)))"

definition wheel_rel :: "addr set \<Rightarrow> taos_t \<Rightarrow> addr set \<Rightarrow> bool" where
  "wheel_rel T s S \<longleftrightarrow> (\<exists>W. wheels_ok s W
     \<and> (\<forall>t\<in>T. t \<noteq> 0 \<and> (in_wheels s W t \<longleftrightarrow> t \<in> S) \<and> timer_in (t \<in> S) (length (wheels s)) (objs s t)))"

lemma timer_in_frame:
  "map_option (\<lambda>ob. (refCount ob, wheel ob)) x = map_option (\<lambda>ob. (refCount ob, wheel ob)) y \<Longrightarrow>
   timer_in b n x \<longleftrightarrow> timer_in b n y"
  by (cases x; cases y) (auto simp: timer_in_def)

lemma in_wheels_upd:
  assumes "k < length (wheels s)" and "j < unat (wsize (wheels s ! k))"
    and "length (wheels s') = length (wheels s)" and "\<forall>i < length (wheels s). wsize (wheels s' ! i) = wsize (wheels s ! i)"
  shows "in_wheels s' (W((k, j) := xs)) a \<longleftrightarrow> a \<in> set xs \<or>
    (\<exists>k' j'. k' < length (wheels s) \<and> j' < unat (wsize (wheels s ! k')) \<and> (k', j') \<noteq> (k, j) \<and> a \<in> set (W (k', j')))"
proof -
  let ?in = "\<lambda>k j. k < length (wheels s) \<and> j < unat (wsize (wheels s ! k))"
  have eq: "in_wheels s' V a \<longleftrightarrow> (\<exists>k' j'. ?in k' j' \<and> a \<in> set (V (k', j')))" for V
    unfolding in_wheels_def assms(3) using assms(4) by (intro iffI; elim exE conjE; metis)
  show ?thesis
    unfolding eq
  proof
    assume "\<exists>k' j'. ?in k' j' \<and> a \<in> set ((W((k, j) := xs)) (k', j'))"
    then obtain k' j' where kj: "?in k' j'" "a \<in> set ((W((k, j) := xs)) (k', j'))" by blast
    then show "a \<in> set xs \<or> (\<exists>k' j'. k' < length (wheels s) \<and> j' < unat (wsize (wheels s ! k')) \<and> (k', j') \<noteq> (k, j) \<and> a \<in> set (W (k', j')))"
      by (cases "(k', j') = (k, j)") (simp, metis fun_upd_other)
  next
    assume "a \<in> set xs \<or> (\<exists>k' j'. k' < length (wheels s) \<and> j' < unat (wsize (wheels s ! k')) \<and> (k', j') \<noteq> (k, j) \<and> a \<in> set (W (k', j')))"
    then consider "a \<in> set xs" | k' j' where "?in k' j'" "(k', j') \<noteq> (k, j)" "a \<in> set (W (k', j'))" by blast
    then show "\<exists>k' j'. ?in k' j' \<and> a \<in> set ((W((k, j) := xs)) (k', j'))"
    proof cases
      case 1
      then have "?in k j \<and> a \<in> set ((W((k, j) := xs)) (k, j))" using assms(1,2) by simp
      then show ?thesis by blast
    next
      case 2
      then have "?in k' j' \<and> a \<in> set ((W((k, j) := xs)) (k', j'))" by auto
      then show ?thesis by blast
    qed
  qed
qed

lemma in_wheels_remove:
  assumes W: "wheels_ok s W" and kj: "k < length (wheels s)" "j < unat (wsize (wheels s ! k))" "t \<in> set (W (k, j))"
    and s': "length (wheels s') = length (wheels s)" "\<forall>i < length (wheels s). wsize (wheels s' ! i) = wsize (wheels s ! i)"
  shows "in_wheels s' (W((k, j) := remove1 t (W (k, j)))) a \<longleftrightarrow> a \<noteq> t \<and> in_wheels s W a"
proof -
  have "distinct (W (k, j))" by (rule wlist_okD(3) [OF wheels_okD(6) [OF W kj(1,2)]])
  moreover have "t \<notin> set (W (k', j'))"
    if "k' < length (wheels s)" "j' < unat (wsize (wheels s ! k'))" "(k', j') \<noteq> (k, j)" for k' j'
    using wheels_disjoint [OF W kj(1,2) that(1,2) kj(3)] that(3) by auto
  ultimately show ?thesis
    using in_wheels_upd [OF kj(1,2) s', of W] in_wheels_upd [OF kj(1,2) refl, of W "W (k, j)"] by auto
qed

lemma put_rel:
  assumes rel: "wheel_rel T s S" and t: "t \<in> T" "t \<notin> S"
  shows "\<exists>s'. addToWheel t delay now s = Inr s' \<and> wheel_rel T s' (insert t S)"
proof -
  let ?k = "select_wheel delay (wheels s)"
  from rel obtain W where W: "wheels_ok s W"
    and T: "\<forall>t\<in>T. t \<noteq> 0 \<and> (in_wheels s W t \<longleftrightarrow> t \<in> S) \<and> timer_in (t \<in> S) (length (wheels s)) (objs s t)"
    by (auto simp: wheel_rel_def)
  from T t obtain ob where ob: "t \<noteq> 0" "\<not> in_wheels s W t" "objs s t = Some ob" "refCount ob = 1"
    by (auto simp: timer_in_def)
  from addToWheel_ok [OF W ob(1,3,2), of delay now] obtain s1 ob1 and j :: "16 word" where
    a: "addToWheel t delay now s = Inr s1" "wheels_ok s1 (W((?k, unat j) := t # W (?k, unat j)))"
      "?k < length (wheels s)" "unat j < unat (wsize (wheels s ! ?k))" "objs s1 t = Some ob1"
      "refCount ob1 = refCount ob + 1" "length (wheels s1) = length (wheels s)"
      "\<forall>i < length (wheels s). wsize (wheels s1 ! i) = wsize (wheels s ! i)"
    and fr: "\<forall>a. a \<noteq> t \<longrightarrow> map_option (\<lambda>ob. (refCount ob, wheel ob)) (objs s1 a)
          = map_option (\<lambda>ob. (refCount ob, wheel ob)) (objs s a)"
    by blast
  have iw: "in_wheels s1 (W((?k, unat j) := t # W (?k, unat j))) a \<longleftrightarrow> a = t \<or> in_wheels s W a" for a
    using in_wheels_upd [OF a(3,4,7,8), of W] in_wheels_upd [OF a(3,4) refl, of W "W (?k, unat j)"] by auto
  have "timer_in (a \<in> insert t S) (length (wheels s1)) (objs s1 a)" if "a \<in> T" for a
  proof (cases "a = t")
    case True
    then show ?thesis using a(5,6) ob(4) by (simp add: timer_in_def)
  next
    case False
    then show ?thesis using timer_in_frame [OF fr [rule_format, OF False]] T that a(7) by simp
  qed
  then have "wheel_rel T s1 (insert t S)"
    unfolding wheel_rel_def using a(2) T iw by (intro exI [of _ "W((?k, unat j) := t # W (?k, unat j))"]) auto
  then show ?thesis using a(1) by blast
qed

lemma take_rel:
  assumes rel: "wheel_rel T s S" and t: "t \<in> T"
  shows "\<exists>s'. removeFromWheel t s = Inr (s', t \<in> S) \<and> wheel_rel T s' (S - {t})"
proof -
  from rel obtain W where W: "wheels_ok s W"
    and T: "\<forall>t\<in>T. t \<noteq> 0 \<and> (in_wheels s W t \<longleftrightarrow> t \<in> S) \<and> timer_in (t \<in> S) (length (wheels s)) (objs s t)"
    by (auto simp: wheel_rel_def)
  from T t obtain ob where ob: "t \<noteq> 0" "objs s t = Some ob" by (auto simp: timer_in_def)
  show ?thesis
  proof (cases "t \<in> S")
    case False
    have "timer_in False (length (wheels s)) (objs s t)" using T t False by metis
    then have "length (wheels s) \<le> unat (wheel ob)" using ob(2) by (simp add: timer_in_def)
    then have "removeFromWheel t s = Inr (s, False)" by (rule removeFromWheel_idle [OF ob(2,1)])
    moreover have "S - {t} = S" using False by blast
    ultimately show ?thesis using rel False by simp
  next
    case True
    with T t obtain k j where kj: "k < length (wheels s)" "j < unat (wsize (wheels s ! k))" "t \<in> set (W (k, j))"
      by (auto simp: in_wheels_def)
    from T t True ob have rc: "refCount ob = 2" by (auto simp: timer_in_def)
    from removeFromWheel_ok [OF W kj ob(2)] obtain s2 where
      r: "removeFromWheel t s = Inr (s2, True)" "wheels_ok s2 (W((k, j) := remove1 t (W (k, j))))"
        "objs s2 t = disarmed ob (length (wheels s))"
        "length (wheels s2) = length (wheels s)"
        "\<forall>i < length (wheels s). wsize (wheels s2 ! i) = wsize (wheels s ! i)"
      and fr: "\<forall>a. a \<noteq> t \<longrightarrow> map_option (\<lambda>ob. (refCount ob, wheel ob)) (objs s2 a)
          = map_option (\<lambda>ob. (refCount ob, wheel ob)) (objs s a)" by (elim exE conjE) (rule that)
    have iw: "in_wheels s2 (W((k, j) := remove1 t (W (k, j)))) a \<longleftrightarrow> a \<noteq> t \<and> in_wheels s W a" for a
      by (rule in_wheels_remove [OF W kj r(4,5)])
    have "unat (word_of_nat (length (wheels s)) :: 8 word) = length (wheels s)"
      using wheels_okD(2) [OF W] by (rule unat_word8)
    then have me: "timer_in False (length (wheels s2)) (objs s2 t)" using r(3,4) rc by (simp add: timer_in_def disarmed_def)
    have "timer_in (a \<in> S - {t}) (length (wheels s2)) (objs s2 a)" if "a \<in> T" for a
    proof (cases "a = t")
      case True
      then show ?thesis using me by simp
    next
      case False
      then show ?thesis using timer_in_frame [OF fr [rule_format, OF False]] T that r(4) by simp
    qed
    then have "wheel_rel T s2 (S - {t})"
      unfolding wheel_rel_def using r(2) T iw by (intro exI [of _ "W((k, j) := remove1 t (W (k, j)))"]) auto
    then show ?thesis using r(1) True by auto
  qed
qed

text \<open>
  C13: the wheels implement a set of timers.  Any script of addToWheel (of timers not in a wheel)
  and removeFromWheel, with any delays and times, runs without undefined behaviour; every
  removal returns whether its timer was in a wheel; and the invariant of the wheels (list
  structure, 8-bit wheel and 16-bit slot numbers in range, reference counts) holds at the end.
\<close>
theorem wheels_implement_set:
  assumes "wheel_rel T s S" and "wheel_spec T ops S = Some (S', bs)"
  shows "\<exists>s'. wheel_run ops s = Inr (s', bs) \<and> wheel_rel T s' S'"
  using assms
proof (induction ops arbitrary: s S bs)
  case (Cons op ops)
  show ?case
  proof (cases op)
    case (Put t delay now)
    with Cons.prems have t: "t \<in> T" "t \<notin> S" "wheel_spec T ops (insert t S) = Some (S', bs)"
      by (auto split: if_splits)
    from put_rel [OF Cons.prems(1) t(1,2)] obtain s1 where
      s1: "addToWheel t delay now s = Inr s1" "wheel_rel T s1 (insert t S)" by blast
    from Cons.IH [OF s1(2) t(3)] s1(1) show ?thesis by (simp add: Put)
  next
    case (Take t)
    with Cons.prems obtain bs' where t: "t \<in> T" "wheel_spec T ops (S - {t}) = Some (S', bs')" "bs = (t \<in> S) # bs'"
      by (auto split: if_splits)
    from take_rel [OF Cons.prems(1) t(1)] obtain s1 where
      s1: "removeFromWheel t s = Inr (s1, t \<in> S)" "wheel_rel T s1 (S - {t})" by blast
    from Cons.IH [OF s1(2) t(2)] s1(1) t(3) show ?thesis by (auto simp: Take)
  qed
qed simp

theorem wheels_implement_set_witness:
  "\<exists>s'. wheel_run [Put 100 12 1000, Take 100, Take 100, Put 100 90000000 5] demo_wheels = Inr (s', [True, False])
    \<and> wheel_rel {100} s' {100}"
proof (rule wheels_implement_set)
  show "wheel_rel {100} demo_wheels {}"
    unfolding wheel_rel_def
    by (rule exI [of _ "\<lambda>_. []"])
       (use demo_wheels_ok in \<open>simp add: in_wheels_def timer_in_def demo_wheels_at\<close>,
        simp add: demo_wheels_def small_wheels_def wheels_init_def)
qed simp

subsection \<open>The slot of a timer\<close>

lemma slot_distance_exact:
  assumes e: "sint (nextScanAt w) < sint expire"
    and d: "sint expire - sint (nextScanAt w) + uint (wresolution w) \<le> 2 ^ 32" and r: "wresolution w \<noteq> 0"
  shows "\<exists>idx. slot_distance w expire = Inr idx
    \<and> uint idx = (sint expire - sint (nextScanAt w) + uint (wresolution w) - 1) div uint (wresolution w)"
proof -
  let ?d = "sint expire - sint (nextScanAt w)" and ?r = "uint (wresolution w)"
  let ?c = "ucast (expire - nextScanAt w) :: 32 word"
  have rp: "0 < ?r" using r by (simp add: word_neq_0_conv word_less_def)
  have db: "0 < ?d" "?d + ?r - 1 < 2 ^ 32" "?d < 2 ^ 32" using e d rp by linarith+
  have "expire - nextScanAt w = word_of_int ?d" by simp
  moreover have "uint (word_of_int ?d :: 64 word) = ?d"
    unfolding uint_word_of_int using db by (intro mod_pos_pos_trivial) simp_all
  ultimately have "uint (expire - nextScanAt w) = ?d" by (simp only:)
  then have "uint ?c = ?d mod 2 ^ 32" by (simp only: unsigned_ucast_eq take_bit_eq_mod len_of_numeral_defs) simp
  then have c: "uint ?c = ?d" using db by (simp add: mod_pos_pos_trivial)
  have "?c + wresolution w - 1 = word_of_int (uint ?c + ?r - 1)" by simp
  then have "?c + wresolution w - 1 = word_of_int (?d + ?r - 1)" unfolding c .
  moreover have "uint (word_of_int (?d + ?r - 1) :: 32 word) = ?d + ?r - 1"
    unfolding uint_word_of_int using db rp by (intro mod_pos_pos_trivial) simp_all
  ultimately have s: "uint (?c + wresolution w - 1) = ?d + ?r - 1" by (simp only:)
  show ?thesis using e r by (simp add: slot_distance_def word_sless_alt Let_def uint_div s)
qed

lemma wheel_slot_exact:
  assumes idx: "slot_distance w expire = Inr idx" and sz: "wsize w \<noteq> 0"
    and small: "uint (windex w) + uint idx + 1 < 2 ^ 32"
  shows "\<exists>j. wheel_slot w expire = Inr j \<and> uint j = (uint (windex w) + uint idx + 1) mod uint (wsize w)"
proof -
  let ?i = "ucast (windex w) :: 32 word" and ?n = "ucast (wsize w) :: 32 word"
  let ?j = "(?i + idx + 1) mod ?n"
  have u: "uint ?i = uint (windex w)" "uint ?n = uint (wsize w)" by (rule uint_up_ucast, simp add: is_up)+
  have "?i + idx + 1 = word_of_int (uint ?i + uint idx + 1)" by simp
  moreover have "uint (word_of_int (uint ?i + uint idx + 1) :: 32 word) = uint ?i + uint idx + 1"
    unfolding uint_word_of_int using small u(1) by (intro mod_pos_pos_trivial) simp_all
  ultimately have "uint (?i + idx + 1) = uint (windex w) + uint idx + 1" using u(1) by (simp only:)
  then have j: "uint ?j = (uint (windex w) + uint idx + 1) mod uint (wsize w)" by (simp add: uint_mod u(2))
  have pos: "0 < uint (wsize w)" using sz by (simp add: word_neq_0_conv word_less_def)
  then have "uint ?j < uint (wsize w)" unfolding j by simp
  moreover have "uint (wsize w) < 2 ^ LENGTH(16)" by (rule unsigned_less)
  ultimately have "uint ?j < 2 ^ 16" by simp
  moreover have "uint (ucast ?j :: 16 word) = uint ?j mod 2 ^ 16"
    by (simp only: unsigned_ucast_eq take_bit_eq_mod len_of_numeral_defs) simp
  ultimately have "uint (ucast ?j :: 16 word) = uint ?j" by simp
  with j show ?thesis using sz idx by (simp add: wheel_slot_def)
qed

text \<open>
  C22: the slot that addToWheel computes is the one after the first slot whose scan starts at or
  after the expiry: counting scans of one resolution each from nextScanAt, the c-th is the first
  that is not early, and it is late by less than one resolution; the timer goes c + 1 slots
  beyond the wheel's index, around the wheel.
\<close>
theorem wheel_slot_covers_expiry:
  assumes "sint (nextScanAt w) < sint expire"
    and "sint expire - sint (nextScanAt w) + uint (wresolution w) \<le> 2 ^ 31"
    and "1 < wresolution w" and "wsize w \<noteq> 0"
  shows "\<exists>c j. wheel_slot w expire = Inr j \<and> uint j = (uint (windex w) + c + 1) mod uint (wsize w)
    \<and> sint expire \<le> sint (nextScanAt w) + c * uint (wresolution w)
    \<and> sint (nextScanAt w) + c * uint (wresolution w) < sint expire + uint (wresolution w)"
proof -
  let ?d = "sint expire - sint (nextScanAt w)" and ?r = "uint (wresolution w)"
  define c where "c = (?d + ?r - 1) div ?r"
  have r: "1 < ?r" using assms(3) by (simp add: word_less_def)
  then have r0: "wresolution w \<noteq> 0" by auto
  from slot_distance_exact [OF assms(1) _ r0] assms(2) obtain idx where
    idx: "slot_distance w expire = Inr idx" "uint idx = c" by (auto simp: c_def)
  have "c \<le> ?d + ?r - 1" unfolding c_def using assms(1) r by (intro div_le_self_int) linarith+
  moreover have "uint (windex w) < 2 ^ LENGTH(16)" by (rule unsigned_less)
  ultimately have "uint (windex w) + uint idx + 1 < 2 ^ 32" using assms(2) idx(2) by simp
  from wheel_slot_exact [OF idx(1) assms(4) this] obtain j where
    j: "wheel_slot w expire = Inr j" "uint j = (uint (windex w) + c + 1) mod uint (wsize w)"
    unfolding idx(2) by blast
  have m: "c * ?r = ?d + ?r - 1 - (?d + ?r - 1) mod ?r" by (simp add: c_def minus_mod_eq_div_mult)
  have "0 \<le> (?d + ?r - 1) mod ?r" "(?d + ?r - 1) mod ?r < ?r" using r by simp_all
  with m have "?d \<le> c * ?r" "c * ?r < ?d + ?r" by linarith+
  then show ?thesis using j by (intro exI [of _ c] exI [of _ j]) simp
qed

theorem wheel_slot_covers_expiry_witness:
  "\<exists>c j. wheel_slot ((wheels_init ! 0)\<lparr>nextScanAt := 1000, windex := 4090\<rparr>) 1012 = Inr j
    \<and> uint j = (uint (windex ((wheels_init ! 0)\<lparr>nextScanAt := 1000, windex := 4090\<rparr>)) + c + 1)
        mod uint (wsize ((wheels_init ! 0)\<lparr>nextScanAt := 1000, windex := 4090\<rparr>))
    \<and> sint (1012 :: 64 word) \<le> sint (nextScanAt ((wheels_init ! 0)\<lparr>nextScanAt := 1000, windex := 4090\<rparr>))
        + c * uint (wresolution ((wheels_init ! 0)\<lparr>nextScanAt := 1000, windex := 4090\<rparr>))
    \<and> sint (nextScanAt ((wheels_init ! 0)\<lparr>nextScanAt := 1000, windex := 4090\<rparr>))
        + c * uint (wresolution ((wheels_init ! 0)\<lparr>nextScanAt := 1000, windex := 4090\<rparr>))
        < sint (1012 :: 64 word) + uint (wresolution ((wheels_init ! 0)\<lparr>nextScanAt := 1000, windex := 4090\<rparr>))"
  by (rule wheel_slot_covers_expiry) (simp_all add: wheels_init_def)

text \<open>
  A wheel that was never scanned (nextScanAt 0, as the file initialises it) misplaces
  timers: the distance from 0 to the expiry, in milliseconds since 1970, is cut to 32 bits, so
  expiries 2^32 ms (7 weeks) apart get the same distance in every wheel.
\<close>
theorem unscanned_wheel_truncates:
  assumes "nextScanAt w = 0" and "wresolution w \<noteq> 0" and "0 < sint expire" and "0 < sint (expire + 4294967296)"
  shows "slot_distance w (expire + 4294967296) = slot_distance w expire"
proof -
  have "uint (expire + 4294967296) = (uint expire + 2 ^ 32) mod 2 ^ 64" by (simp add: uint_word_ariths)
  moreover have "x mod 2 ^ 64 mod 2 ^ 32 = x mod 2 ^ 32" for x :: int by (simp add: mod_mod_cancel)
  ultimately have "uint (expire + 4294967296) mod 2 ^ 32 = uint expire mod 2 ^ 32" by simp
  then have "uint (ucast (expire + 4294967296 :: 64 word) :: 32 word) = uint (ucast expire :: 32 word)"
    by (simp only: unsigned_ucast_eq take_bit_eq_mod len_of_numeral_defs) simp
  then have "ucast (expire + 4294967296 :: 64 word) = (ucast expire :: 32 word)" by (simp only: word_uint_eq_iff)
  then show ?thesis using assms by (simp add: slot_distance_def word_sless_alt)
qed

theorem unscanned_wheel_truncates_witness:
  "slot_distance (wheels_init ! 2) (1700000000000 + 4294967296) = slot_distance (wheels_init ! 2) 1700000000000"
  by (rule unscanned_wheel_truncates) (simp_all add: wheels_init_def)

subsection \<open>The module as it stands\<close>

text \<open>
  Nothing sets up the map or the wheels.  On the file's own initial values every look-up,
  insertion or removal of a timer divides by the map's size, 0, and every addToWheel reads a slot
  of an array that was never allocated; only the look-up of id 0 returns (NULL).
\<close>
theorem uninitialised_module_faults:
  assumes "map_size (timerMap s) = 0" and "wheels s = wheels_init" and "t \<noteq> 0" and "objs s t = Some ob"
  shows "findTimer n tid key s = (if key = 0 then Inr (s, 0) else Inl DivByZero)
    \<and> removeTimer n tid key s = Inl DivByZero \<and> addTimer n tid t s = Inl DivByZero
    \<and> addToWheel t delay now s = Inl OutOfBounds"
proof (intro conjI)
  have m: "with_list n tid k s' body = Inl DivByZero" if "map_size (timerMap s') = 0"
    for k s' and body :: "timer_obj heap \<Rightarrow> timer_list_t \<Rightarrow> (timer_obj heap \<times> timer_list_t \<times> 'r) res"
    using that by (simp add: with_list_def map_index_def)
  show "findTimer n tid key s = (if key = 0 then Inr (s, 0) else Inl DivByZero)"
    using assms(1) by (simp add: findTimer_def m word_neq_0_conv)
  show "removeTimer n tid key s = Inl DivByZero" using assms(1) by (simp add: removeTimer_def m)
  show "addTimer n tid t s = Inl DivByZero" using assms(1,3,4) by (simp add: addTimer_def c_simps m)
  define k where "k = select_wheel delay (wheels s)"
  have k: "k < length (wheels s)" unfolding k_def by (rule select_wheel_bound) (simp add: assms(2) wheels_init_def)
  have w: "wheels s ! k \<in> set wheels_init" using nth_mem [OF k] assms(2) by simp
  then have "wresolution (wheels s ! k) \<noteq> 0" "wsize (wheels s ! k) \<noteq> 0" "wslots (wheels s ! k) = []"
    by (auto simp: wheels_init_def)
  with wheel_slot_ok [of "wheels s ! k" "now + ucast delay"] k assms(3,4)
  show "addToWheel t delay now s = Inl OutOfBounds"
    by (auto simp: addToWheel_def c_simps Let_def k_def [symmetric] arr_get_def [of "[]"])
qed

theorem uninitialised_module_faults_witness:
  "findTimer 9 7 1 (demo_wheels\<lparr>wheels := wheels_init\<rparr>)
     = (if (1 :: 64 word) = 0 then Inr (demo_wheels\<lparr>wheels := wheels_init\<rparr>, 0) else Inl DivByZero)
    \<and> removeTimer 9 7 1 (demo_wheels\<lparr>wheels := wheels_init\<rparr>) = Inl DivByZero
    \<and> addTimer 9 7 100 (demo_wheels\<lparr>wheels := wheels_init\<rparr>) = Inl DivByZero
    \<and> addToWheel 100 50 1000 (demo_wheels\<lparr>wheels := wheels_init\<rparr>) = Inl OutOfBounds"
  by (rule uninitialised_module_faults) (simp_all add: demo_wheels_def)

end
