(* ===== verification/TaosClients.thy ===== *)
theory TaosClients
  imports TaosMapSpec TaosWheelProps "HOL-Library.Multiset"
begin

section \<open>The clients of the second timer module: who owns a timer\<close>

text \<open>
  The id map, the time wheels and the reference counts of \<open>ttimer/timer.c\<close> together.  A timer
  lives as long as its count is positive; the map owns one reference to each of its timers, the
  wheels one to each timer that is armed, and a client those that \<open>findTimer\<close> gave it and those
  with which it created the timer.  The file has no code that creates a timer; \<open>Start\<close> is the
  sequence for which \<open>getNextTimerId\<close> and \<open>addTimer\<close> are written: a new object, whose count is
  the number of references its creator keeps, gets the next id and enters the map.
  The operations of a script are those of any number of threads, one after the other.
\<close>

datatype client_op =
    Start addr timer_obj
  | Look "64 word"
  | Forget "64 word"
  | Arm addr "32 word" "64 word"
  | Disarm addr
  | Release addr

datatype answer = Id "64 word" | Timer addr | Removed bool | Finished

fun client_step :: "nat \<Rightarrow> int \<Rightarrow> client_op \<Rightarrow> taos_t \<Rightarrow> (taos_t \<times> answer) res" where
  "client_step n tid (Start a ob) s = bindE (getNextTimerId 2 (nextTimerId s)) (\<lambda>(key, p).
     bindE (addTimer n tid a (s\<lparr>nextTimerId := p, objs := (objs s)(a \<mapsto> ob\<lparr>timer_id := key\<rparr>)\<rparr>))
       (\<lambda>s'. Inr (s', Id key)))"
| "client_step n tid (Look key) s = bindE (findTimer n tid key s) (\<lambda>(s', a). Inr (s', Timer a))"
| "client_step n tid (Forget key) s = bindE (removeTimer n tid key s) (\<lambda>s'. Inr (s', Finished))"
| "client_step n tid (Arm a delay now) s = bindE (addToWheel a delay now s) (\<lambda>s'. Inr (s', Finished))"
| "client_step n tid (Disarm a) s = bindE (removeFromWheel a s) (\<lambda>(s', r). Inr (s', Removed r))"
| "client_step n tid (Release a) s = bindE (timerDecRef (objs s) a) (\<lambda>h. Inr (s\<lparr>objs := h\<rparr>, Finished))"

fun client_run :: "nat \<Rightarrow> (int \<times> client_op) list \<Rightarrow> taos_t \<Rightarrow> (taos_t \<times> answer list) res" where
  "client_run n [] s = Inr (s, [])"
| "client_run n ((tid, op) # ops) s = bindE (client_step n tid op s) (\<lambda>(s1, r).
     bindE (client_run n ops s1) (\<lambda>(s2, rs). Inr (s2, r # rs)))"

subsection \<open>The books\<close>

text \<open>
  What the clients may rely on: the map, the timers that are armed, and the references in the
  hands of clients.  A client may arm, disarm and release only a timer it holds a reference to.
\<close>

record book =
  ids :: "64 word \<rightharpoonup> addr"
  armed :: "addr set"
  held :: "addr multiset"
  last_id :: "64 word"

definition refs :: "book \<Rightarrow> addr \<Rightarrow> nat" where
  "refs b a = count (held b) a + (if a \<in> ran (ids b) then 1 else 0) + (if a \<in> armed b then 1 else 0)"

definition next_key :: "64 word \<Rightarrow> 64 word" where
  "next_key p = (if p + 1 = 0 then 1 else p + 1)"

fun book_step :: "nat \<Rightarrow> client_op \<Rightarrow> book \<Rightarrow> (book \<times> answer) option" where
  "book_step n (Start a ob) b =
     (let key = next_key (last_id b) in
      if a \<noteq> 0 \<and> refs b a = 0 \<and> ids b key = None \<and> Suc (card (dom (ids b))) < n \<and> unat (refCount ob) < 255
      then Some (b\<lparr>ids := (ids b)(key \<mapsto> a), held := held b + replicate_mset (unat (refCount ob)) a,
                   last_id := key\<rparr>, Id key)
      else None)"
| "book_step n (Look key) b =
     (case ids b key of
        None \<Rightarrow> Some (b, Timer 0)
      | Some a \<Rightarrow> if refs b a < 255 then Some (b\<lparr>held := add_mset a (held b)\<rparr>, Timer a) else None)"
| "book_step n (Forget key) b = Some (b\<lparr>ids := (ids b)(key := None)\<rparr>, Finished)"
| "book_step n (Arm a delay now) b =
     (if a \<in># held b \<and> a \<notin> armed b \<and> refs b a < 255
      then Some (b\<lparr>armed := insert a (armed b)\<rparr>, Finished) else None)"
| "book_step n (Disarm a) b =
     (if a \<in># held b then Some (b\<lparr>armed := armed b - {a}\<rparr>, Removed (a \<in> armed b)) else None)"
| "book_step n (Release a) b =
     (if a \<in># held b then Some (b\<lparr>held := held b - {#a#}\<rparr>, Finished) else None)"

fun book_run :: "nat \<Rightarrow> (int \<times> client_op) list \<Rightarrow> book \<Rightarrow> (book \<times> answer list) option" where
  "book_run n [] b = Some (b, [])"
| "book_run n ((tid, op) # ops) b =
     (case book_step n op b of
        None \<Rightarrow> None
      | Some (b1, r) \<Rightarrow> map_option (\<lambda>(b2, rs). (b2, r # rs)) (book_run n ops b1))"

text \<open>An object exists exactly while there are references to it, and counts them.\<close>

definition owned :: "nat \<Rightarrow> nat \<Rightarrow> bool \<Rightarrow> timer_obj option \<Rightarrow> bool" where
  "owned w r in_wheel x = (case x of
     None \<Rightarrow> r = 0
   | Some ob \<Rightarrow> 0 < r \<and> unat (refCount ob) = r \<and> (in_wheel \<or> w \<le> unat (wheel ob)))"

definition book_rel :: "nat \<Rightarrow> taos_t \<Rightarrow> book \<Rightarrow> bool" where
  "book_rel n s b \<longleftrightarrow> map_rel n s (ids b)
     \<and> (\<exists>W. wheels_ok s W \<and> (\<forall>a. in_wheels s W a \<longleftrightarrow> a \<in> armed b))
     \<and> nextTimerId s = last_id b \<and> objs s 0 = None
     \<and> (\<forall>a. owned (length (wheels s)) (refs b a) (a \<in> armed b) (objs s a))"

subsection \<open>Counting in eight bits\<close>

lemma count_up: "unat x < 255 \<Longrightarrow> unat (x + 1) = Suc (unat x)" for x :: "8 word"
  by (simp add: unat_word_ariths)

lemma count_down: "unat x = Suc r \<Longrightarrow> unat (x - 1) = r" for x :: "8 word"
  by (subst unat_minus_one) auto

lemma owned_frame:
  "map_option (\<lambda>ob. (refCount ob, wheel ob)) x = map_option (\<lambda>ob. (refCount ob, wheel ob)) y \<Longrightarrow>
   owned w r i x \<longleftrightarrow> owned w r i y"
  by (cases x; cases y) (auto simp: owned_def)

lemma owned_drop:
  assumes "owned w (Suc r) i (h a)"
  shows "owned w r i (drop_ref h a a)"
proof -
  from assms obtain ob where ob: "h a = Some ob" "unat (refCount ob) = Suc r" "i \<or> w \<le> unat (wheel ob)"
    by (auto simp: owned_def split: option.splits)
  have "refCount ob = 1 \<longleftrightarrow> r = 0" using ob(2) by (simp add: word_unat_eq_iff)
  then show ?thesis using ob count_down [OF ob(2)] by (auto simp: owned_def drop_ref_def)
qed

subsection \<open>What an operation leaves alone\<close>

lemma map_rel_id:
  assumes "map_rel n s M" and "M key = Some a"
  shows "id_at (objs s) a = Some key"
proof -
  from assms(1) obtain L where "M key = lookup (objs s) (L (slot_of (timerMap s) key)) key"
    unfolding map_rel_def by blast
  with assms(2) show ?thesis using lookup_mem by metis
qed

lemma map_rel_ran:
  assumes "map_rel n s M" and "M key = Some a"
  shows "ran (M(key := None)) = ran M - {a}"
proof -
  have only: "M k = Some a \<Longrightarrow> k = key" for k
    using map_rel_id [OF assms(1), of k a] map_rel_id [OF assms] by simp
  show ?thesis
  proof (intro set_eqI iffI)
    fix x
    assume "x \<in> ran M - {a}"
    then obtain k where "M k = Some x" "x \<noteq> a" by (auto simp: ran_def)
    then have "(M(key := None)) k = Some x" using assms(2) by auto
    then show "x \<in> ran (M(key := None))" by (rule ranI)
  next
    fix x
    assume "x \<in> ran (M(key := None))"
    then obtain k where "k \<noteq> key" "M k = Some x" by (auto simp: ran_def split: if_splits)
    then show "x \<in> ran M - {a}" using only [of k] by (auto intro: ranI)
  qed
qed

lemma map_rel_frame:
  assumes rel: "map_rel n s M" and m: "timerMap s' = timerMap s"
    and same: "\<And>a. a \<in> ran M \<Longrightarrow> map_option (\<lambda>ob. (mnext ob, timer_id ob)) (objs s' a)
        = map_option (\<lambda>ob. (mnext ob, timer_id ob)) (objs s a)"
  shows "map_rel n s' M"
proof -
  from rel obtain L where s: "map_ok s L" and
    M: "\<forall>key. M key = lookup (objs s) (L (slot_of (timerMap s) key)) key"
    and card: "finite (dom M)" "card (dom M) < n" by (auto simp: map_rel_def)
  have sz: "map_size (timerMap s) \<noteq> 0" using s by (simp add: map_ok_def)
  have mem: "a \<in> ran M" if "i < unat (map_size (timerMap s))" "a \<in> set (L i)" for i a
    using map_member [OF s M that] by (auto simp: ran_def)
  have "list_ok (objs s') (timerMap s) i l (L i) = list_ok (objs s) (timerMap s) i l (L i)"
    if "i < unat (map_size (timerMap s))" for i l
    by (rule list_ok_frame) (rule same [OF mem [OF that]])
  then have "map_ok s' L" using s m by (simp add: map_ok_def)
  moreover have "id_at (objs s') a = id_at (objs s) a" if "a \<in> ran M" for a
    using same [OF that] by (cases "objs s a"; cases "objs s' a") (auto simp: id_at_def)
  then have "lookup (objs s') (L (slot_of (timerMap s) key)) key = M key" for key
    using M mem [OF slot_of_bound(1) [OF sz]] by (simp add: lookup_frame [of _ "objs s'" "objs s"])
  ultimately show ?thesis using card m by (auto simp: map_rel_def)
qed

lemma wheels_frame:
  assumes s: "wheels_ok s W" and w: "wheels s' = wheels s"
    and same: "\<And>a. in_wheels s W a \<Longrightarrow> map_option (\<lambda>ob. (nextw ob, prevw ob, wheel ob, slot ob)) (objs s' a)
        = map_option (\<lambda>ob. (nextw ob, prevw ob, wheel ob, slot ob)) (objs s a)"
  shows "wheels_ok s' W"
proof -
  have "wlist_ok (objs s') k j q (W (k, j)) = wlist_ok (objs s) k j q (W (k, j))"
    if "k < length (wheels s)" "j < unat (wsize (wheels s ! k))" for k j q
    by (rule wlist_ok_frame) (rule same, use that in \<open>auto simp: in_wheels_def\<close>)
  then show ?thesis using s w by (simp add: wheels_ok_def)
qed

lemma in_wheels_same: "wheels s' = wheels s \<Longrightarrow> in_wheels s' W = in_wheels s W"
  by (simp add: in_wheels_def fun_eq_iff)

lemma with_list_keeps:
  "with_list n tid key s body = Inr (s', r) \<Longrightarrow> wheels s' = wheels s \<and> nextTimerId s' = nextTimerId s"
  by (auto simp: with_list_def bindE_eq_Inr_iff)

lemma addTimer_keeps: "addTimer n tid a s = Inr s' \<Longrightarrow> wheels s' = wheels s \<and> nextTimerId s' = nextTimerId s"
  by (auto simp: addTimer_def bindE_eq_Inr_iff dest!: with_list_keeps)

lemma findTimer_keeps:
  "findTimer n tid key s = Inr (s', a) \<Longrightarrow> wheels s' = wheels s \<and> nextTimerId s' = nextTimerId s"
  by (auto simp: findTimer_def dest!: with_list_keeps split: if_splits)

lemma removeTimer_keeps:
  "removeTimer n tid key s = Inr s' \<Longrightarrow> wheels s' = wheels s \<and> nextTimerId s' = nextTimerId s"
  by (auto simp: removeTimer_def bindE_eq_Inr_iff dest!: with_list_keeps)

lemma modify_field:
  "modify h p f = Inr h' \<Longrightarrow> (\<And>ob. g (f ob) = g ob) \<Longrightarrow> map_option g (h' a) = map_option g (h a)"
  by (auto simp: modify_def bindE_eq_Inr_iff deref_def split: if_splits option.splits)

lemma modify_nn_field:
  "modify_nn h p f = Inr h' \<Longrightarrow> (\<And>ob. g (f ob) = g ob) \<Longrightarrow> map_option g (h' a) = map_option g (h a)"
  by (auto simp: modify_nn_def modify_field split: if_splits)

lemma timerDecRef_other: "timerDecRef h t = Inr h' \<Longrightarrow> a \<noteq> t \<Longrightarrow> h' a = h a"
  by (auto simp: timerDecRef_def bindE_eq_Inr_iff atomic_defs Let_def split: if_splits)

text \<open>The wheels touch neither the map and its chains nor the ids.\<close>

lemma addToWheel_keeps:
  assumes "addToWheel t delay now s = Inr s'"
  shows "timerMap s' = timerMap s" "nextTimerId s' = nextTimerId s"
    "map_option (\<lambda>ob. (mnext ob, timer_id ob)) (objs s' a) = map_option (\<lambda>ob. (mnext ob, timer_id ob)) (objs s a)"
  using assms
  by (auto simp: addToWheel_def bindE_eq_Inr_iff Let_def timerAddRef_def
      modify_field [where g = "\<lambda>ob. (mnext ob, timer_id ob)"] modify_nn_field [where g = "\<lambda>ob. (mnext ob, timer_id ob)"])

lemma removeFromWheel_keeps:
  assumes "removeFromWheel t s = Inr (s', r)"
  shows "timerMap s' = timerMap s" "nextTimerId s' = nextTimerId s"
    "a \<noteq> t \<Longrightarrow> map_option (\<lambda>ob. (mnext ob, timer_id ob)) (objs s' a) = map_option (\<lambda>ob. (mnext ob, timer_id ob)) (objs s a)"
  using assms
  by (auto simp: removeFromWheel_def remove_locked_def bindE_eq_Inr_iff Let_def timerDecRef_other
      modify_field [where g = "\<lambda>ob. (mnext ob, timer_id ob)"] modify_nn_field [where g = "\<lambda>ob. (mnext ob, timer_id ob)"]
      split: if_splits)

subsection \<open>Each operation keeps the books\<close>

lemma book_relD:
  assumes "book_rel n s b"
  shows "map_rel n s (ids b)" "nextTimerId s = last_id b" "objs s 0 = None"
    "owned (length (wheels s)) (refs b a) (a \<in> armed b) (objs s a)"
  using assms by (simp_all add: book_rel_def)

lemma book_rel_wheels:
  assumes "book_rel n s b"
  obtains W where "wheels_ok s W" "\<And>a. in_wheels s W a \<longleftrightarrow> a \<in> armed b"
  using assms by (auto simp: book_rel_def)

lemma book_relI:
  assumes "map_rel n s (ids b)" and "wheels_ok s W" and "\<And>a. in_wheels s W a \<longleftrightarrow> a \<in> armed b"
    and "nextTimerId s = last_id b" and "objs s 0 = None"
    and "\<And>a. owned (length (wheels s)) (refs b a) (a \<in> armed b) (objs s a)"
  shows "book_rel n s b"
  using assms by (auto simp: book_rel_def)

text \<open>A timer with a reference is a live object, not at NULL, with its references counted.\<close>

lemma live:
  assumes "book_rel n s b" and "0 < refs b a"
  obtains ob where "objs s a = Some ob" "unat (refCount ob) = refs b a" "a \<noteq> 0"
    "a \<in> armed b \<or> length (wheels s) \<le> unat (wheel ob)"
proof -
  have "objs s a \<noteq> None" using book_relD(4) [OF assms(1), of a] assms(2) by (cases "objs s a") (simp_all add: owned_def)
  moreover have "a \<noteq> 0" using calculation book_relD(3) [OF assms(1)] by (cases "a = 0") auto
  ultimately show ?thesis using book_relD(4) [OF assms(1), of a] that by (auto simp: owned_def)
qed

lemma owned_SomeI:
  "0 < r \<Longrightarrow> unat (refCount ob) = r \<Longrightarrow> i \<or> w \<le> unat (wheel ob) \<Longrightarrow> owned w r i (Some ob)"
  by (simp add: owned_def)

lemma refs_pos: "a \<in># held b \<Longrightarrow> 0 < refs b a" "a \<in> ran (ids b) \<Longrightarrow> 0 < refs b a" "a \<in> armed b \<Longrightarrow> 0 < refs b a"
  by (simp_all add: refs_def)

lemma start_keeps_books:
  assumes rel: "book_rel n s b" and step: "book_step n (Start a ob) b = Some (b', r)"
  shows "\<exists>s'. client_step n tid (Start a ob) s = Inr (s', r) \<and> book_rel n s' b'"
proof -
  define key where "key = next_key (last_id b)"
  from step have a: "a \<noteq> 0" "refs b a = 0" "ids b key = None" "Suc (card (dom (ids b))) < n"
      "unat (refCount ob) < 255"
    and r: "r = Id key" and b': "b' = b\<lparr>ids := (ids b)(key \<mapsto> a),
      held := held b + replicate_mset (unat (refCount ob)) a, last_id := key\<rparr>"
    by (auto simp: key_def Let_def split: if_splits)
  have new: "a \<notin># held b" "a \<notin> ran (ids b)" "a \<notin> armed b" using a(2) refs_pos [of a b] by auto
  have key: "getNextTimerId 2 (nextTimerId s) = Inr (key, key)" "key \<noteq> 0"
    using getNextTimerId_fresh [of "nextTimerId s"] book_relD(2) [OF rel] by (auto simp: key_def next_key_def)
  define ob0 where "ob0 = ob\<lparr>timer_id := key\<rparr>"
  define s0 where "s0 = s\<lparr>nextTimerId := key, objs := (objs s)(a \<mapsto> ob0)\<rparr>"
  have s0: "map_rel n s0 (ids b)" using new(2)
    by (intro map_rel_frame [OF book_relD(1) [OF rel]]) (auto simp: s0_def)
  have "objs s0 a = Some ob0" "timer_id ob0 = key" by (simp_all add: s0_def ob0_def)
  from addTimer_rel [OF s0 a(1) this key(2) a(3,4), of tid] obtain s' q where
    s': "addTimer n tid a s0 = Inr s'" "map_rel n s' (ids b')"
      "objs s' = (objs s0)(a \<mapsto> ob0\<lparr>refCount := refCount ob0 + 1, wheel := word_of_nat (length (wheels s0)), mnext := q\<rparr>)"
    by (auto simp: b')
  have keep: "wheels s' = wheels s" "nextTimerId s' = key" using addTimer_keeps [OF s'(1)] by (simp_all add: s0_def)
  from book_rel_wheels [OF rel] obtain W where W: "wheels_ok s W" "\<And>x. in_wheels s W x \<longleftrightarrow> x \<in> armed b" by blast
  have other: "objs s' x = objs s x" if "x \<noteq> a" for x using that s'(3) by (simp add: s0_def)
  have "objs s' x = objs s x" if "in_wheels s W x" for x
    using other [of x] that W(2) [of x] new(3) by auto
  then have "wheels_ok s' W" by (intro wheels_frame [OF W(1) keep(1)]) simp
  moreover have "owned (length (wheels s')) (refs b' x) (x \<in> armed b') (objs s' x)" for x
  proof (cases "x = a")
    case True
    have "refs b' a = Suc (unat (refCount ob))" using new a(3) by (simp add: refs_def b' count_eq_zero_iff)
    moreover have "unat (word_of_nat (length (wheels s)) :: 8 word) = length (wheels s)"
      using wheels_okD(2) [OF W(1)] by (rule unat_word8)
    ultimately show ?thesis
      using True s'(3) count_up [OF a(5)] keep(1) by (simp add: owned_def ob0_def s0_def)
  next
    case False
    then have "refs b' x = refs b x" using a(3) by (simp add: refs_def b')
    then show ?thesis using book_relD(4) [OF rel, of x] other [OF False] keep(1) by (simp add: b')
  qed
  moreover have "objs s' 0 = None" using other [of 0] a(1) book_relD(3) [OF rel] by simp
  ultimately have "book_rel n s' b'"
    by (intro book_relI [OF s'(2), where W = W]) (simp_all add: W(2) in_wheels_same [OF keep(1)] keep(2) b')
  then show ?thesis using key(1) s'(1) r by (auto simp: s0_def ob0_def)
qed

lemma look_keeps_books:
  assumes rel: "book_rel n s b" and step: "book_step n (Look key) b = Some (b', r)"
  shows "\<exists>s'. client_step n tid (Look key) s = Inr (s', r) \<and> book_rel n s' b'"
proof -
  from findTimer_rel [OF book_relD(1) [OF rel], of tid key] obtain s' where
    f: "findTimer n tid key s = Inr (s', case ids b key of None \<Rightarrow> 0 | Some a \<Rightarrow> a)" "map_rel n s' (ids b)"
      "objs s' = (case ids b key of None \<Rightarrow> objs s
        | Some a \<Rightarrow> (objs s)(a := map_option (\<lambda>ob. ob\<lparr>refCount := refCount ob + 1\<rparr>) (objs s a)))" by blast
  have keep: "wheels s' = wheels s" "nextTimerId s' = nextTimerId s" using findTimer_keeps [OF f(1)] by simp_all
  from book_rel_wheels [OF rel] obtain W where W: "wheels_ok s W" "\<And>x. in_wheels s W x \<longleftrightarrow> x \<in> armed b" by blast
  have "map_option (\<lambda>ob. (nextw ob, prevw ob, wheel ob, slot ob)) (objs s' x)
      = map_option (\<lambda>ob. (nextw ob, prevw ob, wheel ob, slot ob)) (objs s x)" for x
    unfolding f(3) by (auto simp: option.map_comp o_def split: option.split)
  then have wh: "wheels_ok s' W" using keep by (intro wheels_frame [OF W(1)]) simp_all
  have "map_rel n s' (ids b')" "last_id b' = last_id b" "armed b' = armed b"
    using step f(2) by (auto split: option.splits if_splits)
  moreover have "owned (length (wheels s')) (refs b' x) (x \<in> armed b) (objs s' x)" for x
  proof (cases "ids b key = Some x")
    case True
    then have b': "b' = b\<lparr>held := add_mset x (held b)\<rparr>" "refs b x < 255"
      using step by (auto split: if_splits)
    have "x \<in> ran (ids b)" using True by (rule ranI)
    from live [OF rel refs_pos(2) [OF this]] obtain ob where
      ob: "objs s x = Some ob" "unat (refCount ob) = refs b x" "x \<in> armed b \<or> length (wheels s) \<le> unat (wheel ob)" by blast
    then show ?thesis using True f(3) b' keep count_up [of "refCount ob"] by (simp add: owned_def refs_def)
  next
    case False
    then have "refs b' x = refs b x" "objs s' x = objs s x"
      using step f(3) by (auto simp: refs_def split: option.splits if_splits)
    then show ?thesis using book_relD(4) [OF rel, of x] keep by simp
  qed
  moreover have "objs s' 0 = None" using book_relD(3) [OF rel] f(3) by (simp split: option.split)
  ultimately have "book_rel n s' b'"
    using wh keep W(2) book_relD(2) [OF rel] by (intro book_relI [where W = W]) (simp_all add: in_wheels_same [OF keep(1)])
  then show ?thesis using f(1) step by (auto split: option.splits if_splits)
qed

text \<open>
  Giving back one reference, as the holder of a reference or as the map: the count falls by one,
  and with the last reference the object goes.
\<close>

lemma give_back:
  assumes rel: "book_rel n s b" and a: "0 < refs b a"
    and b': "refs b' a = refs b a - 1" "\<And>x. x \<noteq> a \<Longrightarrow> refs b' x = refs b x" "armed b' = armed b" "last_id b' = last_id b"
    and s': "map_rel n s' (ids b')" "wheels s' = wheels s" "nextTimerId s' = nextTimerId s"
      "objs s' a = drop_ref (objs s) a a" "\<And>x. x \<noteq> a \<Longrightarrow> map_option bare (objs s' x) = map_option bare (objs s x)"
  shows "book_rel n s' b'"
proof -
  from book_rel_wheels [OF rel] obtain W where W: "wheels_ok s W" "\<And>x. in_wheels s W x \<longleftrightarrow> x \<in> armed b" by blast
  from live [OF rel a] obtain ob where ob: "objs s a = Some ob" "unat (refCount ob) = refs b a" "a \<noteq> 0" by blast
  have field: "map_option g (objs s' x) = map_option g (objs s x)" if "x \<noteq> a" "\<And>ob. g (bare ob) = g ob" for g :: "timer_obj \<Rightarrow> 'z" and x
  proof -
    have "map_option g (map_option bare (objs s' x)) = map_option g (map_option bare (objs s x))"
      using s'(5) [OF that(1)] by simp
    then show ?thesis using that(2) by (simp add: option.map_comp o_def)
  qed
  have "map_option (\<lambda>ob. (nextw ob, prevw ob, wheel ob, slot ob)) (objs s' x)
      = map_option (\<lambda>ob. (nextw ob, prevw ob, wheel ob, slot ob)) (objs s x)" if "in_wheels s W x" for x
  proof (cases "x = a")
    case True
    then have "a \<in> armed b'" using that W(2) b'(3) by simp
    then have "0 < refs b' a" by (rule refs_pos)
    then have "refCount ob \<noteq> 1" using b'(1) ob(2) by auto
    then show ?thesis using True ob(1) s'(4) by (simp add: drop_ref_def)
  qed (rule field, simp_all add: bare_def)
  then have wh: "wheels_ok s' W" using s'(2) by (intro wheels_frame [OF W(1)])
  have "owned (length (wheels s')) (refs b' x) (x \<in> armed b') (objs s' x)" for x
  proof (cases "x = a")
    case True
    have "owned (length (wheels s)) (Suc (refs b' a)) (a \<in> armed b) (objs s a)"
      using book_relD(4) [OF rel, of a] b'(1) a by simp
    from owned_drop [where h = "objs s", OF this] show ?thesis using True s'(2,4) b'(3) by simp
  next
    case False
    have "map_option (\<lambda>ob. (refCount ob, wheel ob)) (objs s' x) = map_option (\<lambda>ob. (refCount ob, wheel ob)) (objs s x)"
      using False by (rule field) (simp add: bare_def)
    from owned_frame [OF this] show ?thesis using book_relD(4) [OF rel, of x] b'(2) [OF False] b'(3) s'(2) by simp
  qed
  moreover have "objs s' 0 = None" using s'(5) [of 0] ob(3) book_relD(3) [OF rel] by simp
  ultimately show ?thesis
    using wh W(2) b'(3,4) s'(1,3) book_relD(2) [OF rel]
    by (intro book_relI [where W = W]) (simp_all add: in_wheels_same [OF s'(2)])
qed

lemma forget_keeps_books:
  assumes rel: "book_rel n s b" and step: "book_step n (Forget key) b = Some (b', r)"
  shows "\<exists>s'. client_step n tid (Forget key) s = Inr (s', r) \<and> book_rel n s' b'"
proof -
  have b': "b' = b\<lparr>ids := (ids b)(key := None)\<rparr>" "r = Finished" using step by simp_all
  from removeTimer_rel [OF book_relD(1) [OF rel], of tid key] obtain s' where
    d: "removeTimer n tid key s = Inr s'" "map_rel n s' (ids b')"
      "case ids b key of None \<Rightarrow> objs s' = objs s | Some a \<Rightarrow> objs s' a = drop_ref (objs s) a a
        \<and> (\<forall>x. x \<noteq> a \<longrightarrow> map_option bare (objs s' x) = map_option bare (objs s x))" by (auto simp: b')
  have keep: "wheels s' = wheels s" "nextTimerId s' = nextTimerId s" using removeTimer_keeps [OF d(1)] by simp_all
  have "book_rel n s' b'"
  proof (cases "ids b key")
    case None
    then have "(ids b)(key := None) = ids b" by (rule fun_upd_idem)
    then have "b' = b" by (simp only: b'(1)) simp
    then have "ids b' = ids b" "refs b' = refs b" by simp_all
    moreover obtain W where "wheels_ok s W" "\<And>x. in_wheels s W x \<longleftrightarrow> x \<in> armed b"
      using book_rel_wheels [OF rel] by blast
    moreover have "wheels_ok s' W" using None d(3) keep(1) by (intro wheels_frame [OF \<open>wheels_ok s W\<close>]) simp_all
    ultimately show ?thesis using None d(2,3) keep book_relD [OF rel]
      by (intro book_relI [where W = W]) (simp_all add: in_wheels_same [OF keep(1)] b'(1))
  next
    case (Some a)
    then have "a \<in> ran (ids b)" by (rule ranI)
    moreover have "ran (ids b') = ran (ids b) - {a}"
      using map_rel_ran [OF book_relD(1) [OF rel] Some] by (simp add: b'(1))
    moreover have "held b' = held b" "armed b' = armed b" "last_id b' = last_id b" by (simp_all add: b'(1))
    ultimately show ?thesis
      using d(2,3) Some keep by (intro give_back [OF rel, of a]) (simp_all add: refs_def)
  qed
  then show ?thesis using d(1) b'(2) by simp
qed

lemma release_keeps_books:
  assumes rel: "book_rel n s b" and step: "book_step n (Release a) b = Some (b', r)"
  shows "\<exists>s'. client_step n tid (Release a) s = Inr (s', r) \<and> book_rel n s' b'"
proof -
  from step have a: "a \<in># held b" and b': "b' = b\<lparr>held := held b - {#a#}\<rparr>" "r = Finished"
    by (auto split: if_splits)
  from live [OF rel refs_pos(1) [OF a]] obtain ob where
    ob: "objs s a = Some ob" "unat (refCount ob) = refs b a" "a \<noteq> 0" by blast
  define s' where "s' = s\<lparr>objs := drop_ref (objs s) a\<rparr>"
  have "0 < count (held b) a" using a by simp
  then have less: "refs b' a = refs b a - 1" by (simp add: refs_def b')
  have "map_rel n s' (ids b)"
  proof (rule map_rel_frame [OF book_relD(1) [OF rel]])
    fix x
    assume x: "x \<in> ran (ids b)"
    show "map_option (\<lambda>ob. (mnext ob, timer_id ob)) (objs s' x) = map_option (\<lambda>ob. (mnext ob, timer_id ob)) (objs s x)"
    proof (cases "x = a")
      case True
      then have "0 < refs b' a" using x by (intro refs_pos(2)) (simp add: b')
      then have "refCount ob \<noteq> 1" using less ob(2) by auto
      then show ?thesis using True ob(1) by (simp add: s'_def drop_ref_def)
    qed (simp add: s'_def)
  qed (simp add: s'_def)
  then have "book_rel n s' b'"
    using less refs_pos(1) [OF a] by (intro give_back [OF rel, of a]) (simp_all add: refs_def b' s'_def)
  then show ?thesis using timerDecRef_drop [where h = "objs s", OF ob(1,3)] b'(2) by (simp add: s'_def)
qed

lemma arm_keeps_books:
  assumes rel: "book_rel n s b" and step: "book_step n (Arm a delay now) b = Some (b', r)"
  shows "\<exists>s'. client_step n tid (Arm a delay now) s = Inr (s', r) \<and> book_rel n s' b'"
proof -
  let ?k = "select_wheel delay (wheels s)"
  from step have a: "a \<in># held b" "a \<notin> armed b" "refs b a < 255"
    and b': "b' = b\<lparr>armed := insert a (armed b)\<rparr>" "r = Finished" by (auto split: if_splits)
  from live [OF rel refs_pos(1) [OF a(1)]] obtain ob where
    ob: "objs s a = Some ob" "unat (refCount ob) = refs b a" "a \<noteq> 0" by blast
  from book_rel_wheels [OF rel] obtain W where W: "wheels_ok s W" "\<And>x. in_wheels s W x \<longleftrightarrow> x \<in> armed b" by blast
  have "\<not> in_wheels s W a" using W(2) a(2) by simp
  from addToWheel_ok [OF W(1) ob(3,1) this, of delay now] obtain s1 ob1 and j :: "16 word" where
    w: "addToWheel a delay now s = Inr s1" "wheels_ok s1 (W((?k, unat j) := a # W (?k, unat j)))"
      "?k < length (wheels s)" "unat j < unat (wsize (wheels s ! ?k))" "objs s1 a = Some ob1"
      "refCount ob1 = refCount ob + 1" "length (wheels s1) = length (wheels s)"
      "\<forall>i < length (wheels s). wsize (wheels s1 ! i) = wsize (wheels s ! i)"
    and fr: "\<forall>x. x \<noteq> a \<longrightarrow> map_option (\<lambda>ob. (refCount ob, wheel ob)) (objs s1 x)
          = map_option (\<lambda>ob. (refCount ob, wheel ob)) (objs s x)" by blast
  have iw: "in_wheels s1 (W((?k, unat j) := a # W (?k, unat j))) x \<longleftrightarrow> x = a \<or> in_wheels s W x" for x
    using in_wheels_upd [OF w(3,4,7,8), of W] in_wheels_upd [OF w(3,4) refl, of W "W (?k, unat j)"] by auto
  note keep = addToWheel_keeps [OF w(1)]
  have "map_rel n s1 (ids b')"
    using map_rel_frame [OF book_relD(1) [OF rel] keep(1) keep(3)] by (simp add: b')
  moreover have "owned (length (wheels s1)) (refs b' x) (x \<in> armed b') (objs s1 x)" for x
  proof (cases "x = a")
    case True
    then show ?thesis using w(5,6) ob(2) a(2,3) count_up [of "refCount ob"] by (simp add: owned_def refs_def b')
  next
    case False
    then show ?thesis
      using owned_frame [OF fr [rule_format, OF False]] book_relD(4) [OF rel, of x] w(7) by (simp add: refs_def b')
  qed
  moreover have "objs s1 0 = None" using fr [rule_format, of 0] ob(3) book_relD(3) [OF rel] by simp
  ultimately have "book_rel n s1 b'"
    using w(2) iw W(2) keep(2) book_relD(2) [OF rel] by (intro book_relI) (auto simp: b')
  then show ?thesis using w(1) b'(2) by simp
qed

lemma disarm_keeps_books:
  assumes rel: "book_rel n s b" and step: "book_step n (Disarm a) b = Some (b', r)"
  shows "\<exists>s'. client_step n tid (Disarm a) s = Inr (s', r) \<and> book_rel n s' b'"
proof -
  from step have a: "a \<in># held b" and b': "b' = b\<lparr>armed := armed b - {a}\<rparr>" "r = Removed (a \<in> armed b)"
    by (auto split: if_splits)
  from live [OF rel refs_pos(1) [OF a]] obtain ob where
    ob: "objs s a = Some ob" "unat (refCount ob) = refs b a" "a \<noteq> 0"
      "a \<in> armed b \<or> length (wheels s) \<le> unat (wheel ob)" by blast
  show ?thesis
  proof (cases "a \<in> armed b")
    case False
    then have "b' = b" by (simp add: b')
    then show ?thesis using removeFromWheel_idle [OF ob(1,3)] ob(4) False rel b'(2) by simp
  next
    case True
    from book_rel_wheels [OF rel] obtain W where W: "wheels_ok s W" "\<And>x. in_wheels s W x \<longleftrightarrow> x \<in> armed b" by blast
    from True have "in_wheels s W a" by (simp add: W(2))
    then obtain k j where kj: "k < length (wheels s)" "j < unat (wsize (wheels s ! k))" "a \<in> set (W (k, j))"
      by (auto simp: in_wheels_def)
    from removeFromWheel_ok [OF W(1) kj ob(1)] obtain s2 where
      w: "removeFromWheel a s = Inr (s2, True)" "wheels_ok s2 (W((k, j) := remove1 a (W (k, j))))"
        "objs s2 a = disarmed ob (length (wheels s))"
        "length (wheels s2) = length (wheels s)"
        "\<forall>i < length (wheels s). wsize (wheels s2 ! i) = wsize (wheels s ! i)"
      and fr: "\<forall>x. x \<noteq> a \<longrightarrow> map_option (\<lambda>ob. (refCount ob, wheel ob)) (objs s2 x)
          = map_option (\<lambda>ob. (refCount ob, wheel ob)) (objs s x)" by (elim exE conjE) (rule that)
    have iw: "in_wheels s2 (W((k, j) := remove1 a (W (k, j)))) x \<longleftrightarrow> x \<noteq> a \<and> in_wheels s W x" for x
      by (rule in_wheels_remove [OF W(1) kj w(4,5)])
    note keep = removeFromWheel_keeps [OF w(1)]
    have two: "1 < refs b a" using a True by (simp add: refs_def)
    then have r1: "refCount ob \<noteq> 1" using ob(2) by auto
    have "map_option (\<lambda>ob. (mnext ob, timer_id ob)) (objs s2 x) = map_option (\<lambda>ob. (mnext ob, timer_id ob)) (objs s x)" for x
      using keep(3) w(3) r1 ob(1) by (cases "x = a") (simp_all add: disarmed_def)
    then have "map_rel n s2 (ids b')"
      using map_rel_frame [OF book_relD(1) [OF rel] keep(1)] by (simp add: b')
    moreover have "owned (length (wheels s2)) (refs b' x) (x \<in> armed b') (objs s2 x)" for x
    proof (cases "x = a")
      case True
      have "unat (refCount ob) = Suc (refs b' a)" "0 < refs b' a"
        using ob(2) a \<open>a \<in> armed b\<close> by (simp_all add: refs_def b')
      moreover have "unat (word_of_nat (length (wheels s)) :: 8 word) = length (wheels s)"
        using wheels_okD(2) [OF W(1)] by (rule unat_word8)
      ultimately show ?thesis using True w(3,4) r1 count_down [of "refCount ob"] by (simp add: owned_def disarmed_def)
    next
      case False
      then show ?thesis
        using owned_frame [OF fr [rule_format, OF False]] book_relD(4) [OF rel, of x] w(4) by (simp add: refs_def b')
    qed
    moreover have "objs s2 0 = None" using fr [rule_format, of 0] ob(3) book_relD(3) [OF rel] by simp
    ultimately have "book_rel n s2 b'"
      using w(2) iw W(2) keep(2) book_relD(2) [OF rel] by (intro book_relI) (auto simp: b')
    then show ?thesis using w(1) b'(2) True by simp
  qed
qed

lemma step_keeps_books:
  assumes "book_rel n s b" and "book_step n op b = Some (b', r)"
  shows "\<exists>s'. client_step n tid op s = Inr (s', r) \<and> book_rel n s' b'"
  using assms start_keeps_books look_keeps_books forget_keeps_books arm_keeps_books disarm_keeps_books
    release_keeps_books by (cases op) metis+

lemma run_keeps_books:
  "book_rel n s b \<Longrightarrow> book_run n ops b = Some (b', rs) \<Longrightarrow>
     \<exists>s'. client_run n ops s = Inr (s', rs) \<and> book_rel n s' b'"
proof (induction ops arbitrary: s b rs)
  case (Cons t ops)
  obtain tid op where t: "t = (tid, op)" by (cases t)
  with Cons.prems(2) obtain b1 r rs' where
    b1: "book_step n op b = Some (b1, r)" "book_run n ops b1 = Some (b', rs')" "rs = r # rs'"
    by (auto split: option.splits)
  from step_keeps_books [OF Cons.prems(1) b1(1), of tid] obtain s1 where
    s1: "client_step n tid op s = Inr (s1, r)" "book_rel n s1 b1" by blast
  from Cons.IH [OF s1(2) b1(2)] s1(1) b1(3) t show ?case by auto
qed simp

subsection \<open>An empty module\<close>

text \<open>What the missing set-up code has to establish: empty lists everywhere and no timers.\<close>

definition empty_module :: "taos_t \<Rightarrow> bool" where
  "empty_module s \<longleftrightarrow> map_size (timerMap s) \<noteq> 0
     \<and> map_slots (timerMap s) = replicate (unat (map_size (timerMap s))) \<lparr>lockedBy = 0, timers = 0\<rparr>
     \<and> wheels s \<noteq> [] \<and> length (wheels s) < 256
     \<and> (\<forall>w\<in>set (wheels s). wresolution w \<noteq> 0 \<and> wsize w \<noteq> 0 \<and> wslots w = replicate (unat (wsize w)) 0)
     \<and> objs s = Map.empty"

definition empty_book :: "64 word \<Rightarrow> book" where
  "empty_book p = \<lparr>ids = Map.empty, armed = {}, held = {#}, last_id = p\<rparr>"

lemma empty_module_rel:
  assumes s: "empty_module s" and "0 < n"
  shows "book_rel n s (empty_book (nextTimerId s))"
proof (rule book_relI)
  show "map_rel n s (ids (empty_book (nextTimerId s)))"
    using assms by (simp add: empty_book_def empty_module_def empty_map_rel)
  show "wheels_ok s (\<lambda>_. [])" using s by (intro empty_wheels_ok) (simp_all add: empty_module_def)
qed (use s in \<open>simp_all add: empty_book_def empty_module_def in_wheels_def owned_def refs_def\<close>)

definition clean_taos :: taos_t where
  "clean_taos = \<lparr>nextTimerId = 0, wheels = small_wheels,
     timerMap = \<lparr>map_size = 2, map_count = 0, map_slots = replicate 2 \<lparr>lockedBy = 0, timers = 0\<rparr>\<rparr>,
     objs = Map.empty\<rparr>"

lemma clean_taos_empty: "empty_module clean_taos"
  by (auto simp: empty_module_def clean_taos_def small_wheels_def wheels_init_def)

text \<open>
  C12: a timer lives exactly as long as there is a reference to it.  However the threads' calls
  of getNextTimerId, addTimer, findTimer, removeTimer, addToWheel, removeFromWheel and timerDecRef
  follow each other, as long as they use only timers they hold a reference to and no timer has more
  than 255 references, every call runs without undefined behaviour and answers as the books say,
  and in the end the live timers are those with a reference left (in the map, in a wheel or in a
  client's hands), each with their number as its count: none is freed under a holder, none leaks.
\<close>
theorem timers_live_while_referenced:
  assumes "book_rel n s b" and "book_run n ops b = Some (b', rs)"
  shows "\<exists>s'. client_run n ops s = Inr (s', rs) \<and> book_rel n s' b'
    \<and> (\<forall>a. map_option (\<lambda>ob. unat (refCount ob)) (objs s' a) = (if refs b' a = 0 then None else Some (refs b' a)))"
proof -
  from run_keeps_books [OF assms] obtain s' where s': "client_run n ops s = Inr (s', rs)" "book_rel n s' b'"
    by blast
  have "map_option (\<lambda>ob. unat (refCount ob)) (objs s' a) = (if refs b' a = 0 then None else Some (refs b' a))" for a
    using book_relD(4) [OF s'(2), of a] by (cases "objs s' a") (simp_all add: owned_def)
  with s' show ?thesis by blast
qed

text \<open>Two timers collide in the map; one outlives its id in a wheel, the other goes with its last holder.\<close>

definition demo_ops :: "(int \<times> client_op) list" where
  "demo_ops = [(7, Start 100 ((fresh_timer 0)\<lparr>refCount := 1\<rparr>)), (8, Start 200 (fresh_timer 0)), (8, Look 2),
     (7, Arm 100 12 1000), (7, Forget 1), (8, Look 1), (7, Release 100), (8, Forget 2), (8, Disarm 200),
     (8, Release 200)]"

definition demo_book :: book where
  "demo_book = (empty_book 2)\<lparr>ids := Map.empty(1 \<mapsto> 100, 2 \<mapsto> 200, 1 := None, 2 := None), armed := {100}\<rparr>"

lemma demo_ops_run: "book_run 9 demo_ops (empty_book 0) = Some (demo_book,
    [Id 1, Id 2, Timer 200, Finished, Finished, Timer 0, Finished, Finished, Removed False, Finished])"
  by (simp add: demo_ops_def demo_book_def empty_book_def fresh_timer_def refs_def next_key_def ran_def)

theorem timers_live_while_referenced_witness:
  "\<exists>s'. client_run 9 demo_ops clean_taos
      = Inr (s', [Id 1, Id 2, Timer 200, Finished, Finished, Timer 0, Finished, Finished, Removed False, Finished])
    \<and> book_rel 9 s' demo_book
    \<and> (\<forall>a. map_option (\<lambda>ob. unat (refCount ob)) (objs s' a)
        = (if refs demo_book a = 0 then None else Some (refs demo_book a)))"
proof -
  have "book_rel 9 clean_taos (empty_book (nextTimerId clean_taos))"
    by (rule empty_module_rel [OF clean_taos_empty]) simp
  then have "book_rel 9 clean_taos (empty_book 0)" by (simp add: clean_taos_def)
  from timers_live_while_referenced [OF this demo_ops_run] show ?thesis .
qed

end
