(* ===== verification/WheelRace.thy ===== *)
theory WheelRace
  imports TaosWheelProps
begin

section \<open>Removals that race (\<open>ttimer/timer.c\<close>)\<close>

text \<open>
  \<open>removeFromWheel\<close> finds the wheel of a timer, takes that wheel's mutex and then looks again
  whether the timer is in a wheel.  Between the two looks other threads run.  Two removals of one
  timer are told apart by the second look; a timer that has meanwhile moved to another wheel is
  not, since the second look does not compare the wheel.
\<close>

lemma in_wheel_at:
  assumes s: "wheels_ok s W" and k: "k < length (wheels s)" and j: "j < unat (wsize (wheels s ! k))"
    and t: "t \<in> set (W (k, j))" "objs s t = Some ob"
  shows "unat (wheel ob) = k" "unat (slot ob) = j" "\<not> wheel ob \<ge> word_of_nat (length (wheels s))" "t \<noteq> 0"
proof -
  note ld = wlist_okD [OF wheels_okD(6) [OF s k j]]
  show w: "unat (wheel ob) = k" and "unat (slot ob) = j" using ld(5) [OF t(1)] t(2) by auto
  show "t \<noteq> 0" using ld(4) t(1) by auto
  have "unat (word_of_nat (length (wheels s)) :: 8 word) = length (wheels s)"
    using wheels_okD(2) [OF s] by (rule unat_word8)
  then show "\<not> wheel ob \<ge> word_of_nat (length (wheels s))" using w k by (simp add: word_le_nat_alt)
qed

lemma removeFromWheel_locked:
  assumes "objs s t = Some ob" and "t \<noteq> 0" and "\<not> wheel ob \<ge> word_of_nat (length (wheels s))"
  shows "removeFromWheel t s = remove_locked (uint (wheel ob)) t s"
  using assms by (simp add: removeFromWheel_def c_simps)

text \<open>
  C21: of two threads that have both found a timer in a wheel, one removes it and the other
  sees that it is gone and changes nothing, provided that a reference is left; when the wheel's
  was the last one, the second thread reads a timer that the first has freed.
\<close>
theorem racing_removals:
  assumes "wheels_ok s W" and "k < length (wheels s)" and "j < unat (wsize (wheels s ! k))"
    and "t \<in> set (W (k, j))" and "objs s t = Some ob"
  shows "\<exists>s'. remove_locked (int k) t s = Inr (s', True) \<and> wheels_ok s' (W((k, j) := remove1 t (W (k, j))))
    \<and> remove_locked (int k) t s' = (if refCount ob = 1 then Inl WildDeref else Inr (s', False))"
proof -
  note at = in_wheel_at [OF assms]
  have u: "uint (wheel ob) = int k" using at(1) by (simp add: uint_nat del: of_nat_unat)
  from removeFromWheel_ok [OF assms] obtain s' where
    s': "remove_locked (int k) t s = Inr (s', True)" "wheels_ok s' (W((k, j) := remove1 t (W (k, j))))"
    "objs s' t = disarmed ob (length (wheels s))" "length (wheels s') = length (wheels s)"
    unfolding removeFromWheel_locked [OF assms(5) at(4,3)] u by blast
  then have "remove_locked (int k) t s' = (if refCount ob = 1 then Inl WildDeref else Inr (s', False))"
    using at(4) by (simp add: remove_locked_def deref_def disarmed_def)
  with s' show ?thesis by blast
qed

text \<open>One timer in slot 1 of the first wheel, with two references.\<close>

definition linked_wheels :: taos_t where
  "linked_wheels = demo_wheels\<lparr>
     objs := (objs demo_wheels)(100 \<mapsto> \<lparr>timer_id = 1, ctrl = 0, mnext = 0, prevw = 0, nextw = 0, slot = 1, wheel = 0,
       state = 0, refCount = 2, expireAt = 1012, fp = 77, param = 5\<rparr>),
     wheels := (wheels demo_wheels)[0 := (wheels demo_wheels ! 0)\<lparr>wslots := (wslots (wheels demo_wheels ! 0))[1 := 100]\<rparr>]\<rparr>"

lemma linked_wheels_ok: "wheels_ok linked_wheels ((\<lambda>_. [])((0, 1) := [100]))"
  unfolding linked_wheels_def
  by (rule wheels_update [OF demo_wheels_ok]) (auto simp: demo_wheels_def small_wheels_def wheels_init_def wlist_ok_def)

theorem racing_removals_witness:
  "\<exists>s'. remove_locked (int 0) 100 linked_wheels = Inr (s', True)
    \<and> wheels_ok s' ((\<lambda>_. [])((0, 1) := [100], (0, 1) := remove1 100 (((\<lambda>_. [])((0, 1) := [100 :: addr])) (0, 1))))
    \<and> remove_locked (int 0) 100 s' = (if (2 :: 8 word) = 1 then Inl WildDeref else Inr (s', False))"
  using racing_removals [OF linked_wheels_ok, of 0 1 100]
  by (simp add: linked_wheels_def demo_wheels_def small_wheels_def wheels_init_def)

text \<open>
  C38: a timer that moved to the front of a slot of wheel k while a remover waits for the mutex of
  wheel k': the remover takes it for removed, but the slot of wheel k still begins with it, freed
  when the reference was the last; or the remover reads beyond the slots of wheel k'.
\<close>
theorem removal_from_stale_wheel:
  assumes s: "wheels_ok s W" and k: "k < length (wheels s)" and j: "j < unat (wsize (wheels s ! k))"
    and W: "W (k, j) = t # ys" and ob: "objs s t = Some ob" and k': "k' < length (wheels s)" "k' \<noteq> k"
  shows "if j < unat (wsize (wheels s ! k'))
    then \<exists>s'. remove_locked (int k') t s = Inr (s', True) \<and> wslots (wheels s' ! k) ! j = t
      \<and> (objs s' t = None \<longleftrightarrow> refCount ob = 1)
    else remove_locked (int k') t s = Inl OutOfBounds"
proof -
  have t: "t \<in> set (W (k, j))" by (simp add: W)
  note at = in_wheel_at [OF s k j t ob]
  note ld = wlist_okD [OF wheels_okD(6) [OF s k j, unfolded W]]
  have lk: "prevw ob = 0" "nextw ob = hdp ys 0"
    using dls_at [of nextw prevw "objs s" 0 "[]" t ys 0 ob] ld(2) ob by simp_all
  have hd: "wslots (wheels s ! k) ! j = t" using ld(1) by simp
  have nx: "hdp ys 0 = 0 \<or> hdp ys 0 \<in> dom (objs s)" "hdp ys 0 \<noteq> t"
    using dls_in_dom [OF ld(2)] hdp_cases [of ys 0] ld(3,4) by auto
  have sl: "uint (slot ob) = int j" using at(2) by (simp add: uint_nat del: of_nat_unat)
  note len = wheels_okD(5) [OF s k'(1)]
  define h2 where "h2 = upd_nn (objs s) (hdp ys 0) (prevw_update (\<lambda>_. 0))"
  have h2: "h2 t = Some ob" "modify_nn (objs s) (hdp ys 0) (prevw_update (\<lambda>_. 0)) = Inr h2"
    using ob nx by (simp_all add: h2_def c_simps)
  show ?thesis
  proof (cases "j < unat (wsize (wheels s ! k'))")
    case False
    then have "arr_get (wslots (wheels s ! k')) (int j) = Inl OutOfBounds"
      unfolding arr_get_def len of_nat_less_iff by simp
    then show ?thesis using False ob at(3,4) lk h2 sl k'
      by (simp add: remove_locked_def c_simps)
  next
    case True
    have "t \<notin> set (W (k', j))" using wheels_disjoint [OF s k j k'(1) True t] k'(2) by auto
    moreover have "wslots (wheels s ! k') ! j = hdp (W (k', j)) 0"
      using wlist_okD(1) [OF wheels_okD(6) [OF s k'(1) True]] .
    ultimately have ne: "wslots (wheels s ! k') ! j \<noteq> t" using at(4) hdp_cases [of "W (k', j)" 0] by auto
    let ?ob3 = "ob\<lparr>wheel := word_of_nat (length (wheels s)), nextw := 0, prevw := 0\<rparr>"
    let ?h4 = "h2(t := if refCount ob = 1 then None else Some (?ob3\<lparr>refCount := refCount ob - 1\<rparr>))"
    have dec: "timerDecRef (h2(t \<mapsto> ?ob3)) t = Inr ?h4"
      using timerDecRef_ok [of "h2(t \<mapsto> ?ob3)" t ?ob3] at(4) by simp
    have ag: "arr_get (wslots (wheels s ! k')) (int j) = Inr (wslots (wheels s ! k') ! j)"
      unfolding arr_get_def len of_nat_less_iff using True by simp
    have "remove_locked (int k') t s = Inr (s\<lparr>objs := ?h4\<rparr>, True)"
      using ob at(3,4) lk h2 sl k' ne [symmetric] dec ag
      by (simp add: remove_locked_def c_simps)
    then show ?thesis using True hd by auto
  qed
qed

theorem removal_from_stale_wheel_witness:
  "if 1 < unat (wsize (wheels linked_wheels ! 2))
    then \<exists>s'. remove_locked (int 2) 100 linked_wheels = Inr (s', True) \<and> wslots (wheels s' ! 0) ! 1 = 100
      \<and> (objs s' 100 = None \<longleftrightarrow> (2 :: 8 word) = 1)
    else remove_locked (int 2) 100 linked_wheels = Inl OutOfBounds"
  using removal_from_stale_wheel [OF linked_wheels_ok, of 0 1 100 "[]" _ 2]
  by (simp add: linked_wheels_def demo_wheels_def small_wheels_def wheels_init_def)

end
