(* ===== verification/Syscalls.thy ===== *)
theory Syscalls
  imports CBase "HOL-Library.State_Monad" "HOL-Library.Multiset"
begin

section \<open>Programs that call the kernel\<close>

text \<open>
  The small programs of the repository are sequences of system calls.  The kernel is not part of
  the repository: it is a parameter \<open>K\<close> of every model, a function from the calls made so far
  (with their answers) and the next call to its answer, so that a theorem for every \<open>K\<close>
  covers every behaviour of the kernel.  A program runs in a world that records the calls it has
  made and the lines it has printed; printing does not influence the kernel's answers.
\<close>

named_theorems wp_rules \<open>rules that run a program against an arbitrary kernel\<close>

text \<open>The arguments of a \<open>printf\<close>; \<open>PStrerror e\<close> is the text \<open>strerror(e)\<close>.\<close>

datatype parg = PInt int | PStr string | PStrerror int

record ('c, 'a) world =
  calls :: "('c \<times> 'a) list"
  out :: "(string \<times> parg list) list"

type_synonym ('c, 'a) kernel = "('c \<times> 'a) list \<Rightarrow> 'c \<Rightarrow> 'a"
type_synonym ('c, 'a, 'r) prog = "(('c, 'a) world, 'r) state"

abbreviation ret :: "'r \<Rightarrow> ('c, 'a, 'r) prog" where
  "ret \<equiv> State_Monad.return"

abbreviation init_world :: "('c, 'a) world" where
  "init_world \<equiv> \<lparr>calls = [], out = []\<rparr>"

definition sys :: "('c, 'a) kernel \<Rightarrow> 'c \<Rightarrow> ('c, 'a, 'a) prog" where
  "sys K c = State (\<lambda>w. let a = K (calls w) c in (a, w\<lparr>calls := calls w @ [(c, a)]\<rparr>))"

definition printf :: "string \<Rightarrow> parg list \<Rightarrow> ('c, 'a, unit) prog" where
  "printf fmt args = State (\<lambda>w. ((), w\<lparr>out := out w @ [(fmt, args)]\<rparr>))"

definition only_if :: "bool \<Rightarrow> ('c, 'a, unit) prog \<Rightarrow> ('c, 'a, unit) prog" where
  "only_if b m = (if b then m else ret ())"

definition result :: "('c, 'a, 'r) prog \<Rightarrow> ('c, 'a) world \<Rightarrow> 'r" where
  "result m w = fst (run_state m w)"

definition exec :: "('c, 'a, 'r) prog \<Rightarrow> ('c, 'a) world \<Rightarrow> ('c, 'a) world" where
  "exec m w = snd (run_state m w)"

text \<open>A program whose first part can reach undefined behaviour stops there.\<close>

definition tryE :: "('c, 'a, 'x res) prog \<Rightarrow> ('x \<Rightarrow> ('c, 'a, 'y res) prog) \<Rightarrow> ('c, 'a, 'y res) prog" where
  "tryE m f = State_Monad.bind m (\<lambda>r. case r of Inl e \<Rightarrow> ret (Inl e) | Inr x \<Rightarrow> f x)"

subsection \<open>Running a program\<close>

lemma run_sys [simp]:
  "result (sys K c) w = K (calls w) c"
  "exec (sys K c) w = w\<lparr>calls := calls w @ [(c, K (calls w) c)]\<rparr>"
  by (simp_all add: result_def exec_def sys_def Let_def)

lemma run_printf [simp]: "exec (printf fmt args) w = w\<lparr>out := out w @ [(fmt, args)]\<rparr>"
  by (simp add: exec_def printf_def)

lemma run_ret [simp]: "result (ret x) w = x" "exec (ret x) w = w"
  by (simp_all add: result_def exec_def)

lemma run_bind [simp]:
  "result (State_Monad.bind m f) w = result (f (result m w)) (exec m w)"
  "exec (State_Monad.bind m f) w = exec (f (result m w)) (exec m w)"
  by (simp_all add: result_def exec_def split: prod.split)

lemma run_only_if [simp]: "exec (only_if b m) w = (if b then exec m w else w)"
  by (simp add: only_if_def)

lemma run_tryE [simp]:
  "result (tryE m f) w = (case result m w of Inl e \<Rightarrow> Inl e | Inr x \<Rightarrow> result (f x) (exec m w))"
  "exec (tryE m f) w = (case result m w of Inl e \<Rightarrow> exec m w | Inr x \<Rightarrow> exec (f x) (exec m w))"
  by (simp_all add: tryE_def split: sum.split)

subsection \<open>Weakest preconditions\<close>

text \<open>
  \<open>wp m Q w\<close>: from the world \<open>w\<close>, the program ends with a result and a world that satisfy
  \<open>Q\<close>.  The rule of a call leaves its answer arbitrary.
\<close>

definition wp :: "('c, 'a, 'r) prog \<Rightarrow> ('r \<Rightarrow> ('c, 'a) world \<Rightarrow> bool) \<Rightarrow> ('c, 'a) world \<Rightarrow> bool" where
  "wp m Q w \<longleftrightarrow> Q (result m w) (exec m w)"

lemma wp_bind [wp_rules]: "wp m (\<lambda>r. wp (f r) Q) w \<Longrightarrow> wp (State_Monad.bind m f) Q w"
  by (simp add: wp_def)

lemma wp_ret [wp_rules]: "Q x w \<Longrightarrow> wp (ret x) Q w"
  by (simp add: wp_def)

lemma wp_sys [wp_rules]:
  "(\<And>a. Q a (w\<lparr>calls := calls w @ [(c, a)]\<rparr>)) \<Longrightarrow> wp (sys K c) Q w"
  by (simp add: wp_def)

lemma wp_sys_eq:
  "(\<And>a. a = K (calls w) c \<Longrightarrow> Q a (w\<lparr>calls := calls w @ [(c, a)]\<rparr>)) \<Longrightarrow> wp (sys K c) Q w"
  by (simp add: wp_def)

lemma wp_printf [wp_rules]: "Q () (w\<lparr>out := out w @ [(fmt, args)]\<rparr>) \<Longrightarrow> wp (printf fmt args) Q w"
  by (simp add: wp_def)

lemma wp_only_if [wp_rules]:
  "(b \<Longrightarrow> wp m Q w) \<Longrightarrow> (\<not> b \<Longrightarrow> Q () w) \<Longrightarrow> wp (only_if b m) Q w"
  by (simp add: wp_def)

lemma wp_if [wp_rules]:
  "(b \<Longrightarrow> wp m Q w) \<Longrightarrow> (\<not> b \<Longrightarrow> wp m' Q w) \<Longrightarrow> wp (if b then m else m') Q w"
  by simp

lemma wp_tryE [wp_rules]:
  "wp m (\<lambda>r w'. case r of Inl e \<Rightarrow> Q (Inl e) w' | Inr x \<Rightarrow> wp (f x) Q w') w \<Longrightarrow> wp (tryE m f) Q w"
  by (simp add: wp_def split: sum.splits)

lemma wp_case_option [wp_rules]:
  "(x = None \<Longrightarrow> wp m Q w) \<Longrightarrow> (\<And>y. x = Some y \<Longrightarrow> wp (f y) Q w) \<Longrightarrow>
   wp (case x of None \<Rightarrow> m | Some y \<Rightarrow> f y) Q w"
  by (cases x) simp_all

lemma wp_case_sum [wp_rules]:
  "(\<And>e. x = Inl e \<Longrightarrow> wp (g e) Q w) \<Longrightarrow> (\<And>y. x = Inr y \<Longrightarrow> wp (f y) Q w) \<Longrightarrow>
   wp (case x of Inl e \<Rightarrow> g e | Inr y \<Rightarrow> f y) Q w"
  by (cases x) simp_all

text \<open>For a postcondition about the calls alone: what is printed does not matter.\<close>

lemma wp_quiet_printf: "(\<And>l. Q () (w\<lparr>out := l\<rparr>)) \<Longrightarrow> wp (printf fmt args) Q w"
  by (simp add: wp_def)

lemma wp_report: "(\<And>l. Q () (w\<lparr>out := l\<rparr>)) \<Longrightarrow> wp (only_if b (printf fmt args)) Q w"
proof -
  assume Q: "\<And>l. Q () (w\<lparr>out := l\<rparr>)"
  have "Q () w" using Q [of "out w"] by simp
  with Q show ?thesis by (simp add: wp_def)
qed

lemmas wp_quiet = wp_report wp_quiet_printf wp_bind wp_ret wp_sys wp_only_if wp_if wp_tryE wp_case_option wp_case_sum

lemma wpD: "wp m Q w \<Longrightarrow> Q (result m w) (exec m w)"
  by (simp add: wp_def)

lemma wp_mono: "wp m Q w \<Longrightarrow> (\<And>r w'. Q r w' \<Longrightarrow> Q' r w') \<Longrightarrow> wp m Q' w"
  by (simp add: wp_def)

subsection \<open>Programs that make the same calls\<close>

text \<open>
  Two programs are alike when, from worlds with the same calls, they make the same calls and
  return the same; what they print may differ.
\<close>

definition alike :: "('c, 'a, 'r) prog \<Rightarrow> ('c, 'a, 'r) prog \<Rightarrow> bool" where
  "alike m m' \<longleftrightarrow> (\<forall>w w'. calls w = calls w' \<longrightarrow>
     result m w = result m' w' \<and> calls (exec m w) = calls (exec m' w'))"

lemma alike_sys: "alike (sys K c) (sys K c)"
  by (simp add: alike_def)

lemma alike_ret: "alike (ret x) (ret x)"
  by (simp add: alike_def)

lemma alike_printf: "alike (printf fmt args) (printf fmt' args')"
  by (simp add: alike_def)

lemma alike_only_if: "(b \<Longrightarrow> alike m m') \<Longrightarrow> alike (only_if b m) (only_if b m')"
  by (simp add: alike_def only_if_def)

lemma alike_bind: "alike m m' \<Longrightarrow> (\<And>r. alike (f r) (f' r)) \<Longrightarrow> alike (State_Monad.bind m f) (State_Monad.bind m' f')"
  by (simp add: alike_def)

lemmas alike_rules = alike_bind alike_sys alike_ret alike_only_if alike_printf

lemma alike_calls: "alike m m' \<Longrightarrow> calls (exec m w) = calls (exec m' w)"
  by (simp add: alike_def)

subsection \<open>Descriptors\<close>

text \<open>
  The descriptors that a history holds open: \<open>opens\<close> says which descriptor a call with its
  answer has opened, \<open>closes\<close> which one it has closed.
\<close>

definition held_step :: "('c \<Rightarrow> 'a \<Rightarrow> int option) \<Rightarrow> ('c \<Rightarrow> 'a \<Rightarrow> int option) \<Rightarrow> 'c \<times> 'a \<Rightarrow> int multiset \<Rightarrow> int multiset" where
  "held_step opens closes e M = (case e of (c, a) \<Rightarrow>
     (case opens c a of None \<Rightarrow> {#} | Some fd \<Rightarrow> {#fd#}) +
     (case closes c a of None \<Rightarrow> M | Some fd \<Rightarrow> M - {#fd#}))"

definition held :: "('c \<Rightarrow> 'a \<Rightarrow> int option) \<Rightarrow> ('c \<Rightarrow> 'a \<Rightarrow> int option) \<Rightarrow> ('c \<times> 'a) list \<Rightarrow> int multiset" where
  "held opens closes h = fold (held_step opens closes) h {#}"

lemma held_Nil [simp]: "held opens closes [] = {#}"
  by (simp add: held_def)

lemma held_append [simp]: "held opens closes (h @ t) = fold (held_step opens closes) t (held opens closes h)"
  by (simp add: held_def)

end
