(* ===== verification/ReuseAddr.thy ===== *)
theory ReuseAddr
  imports Syscalls
begin

section \<open>Address reuse tests (\<open>networks/reuse_addr_option.c\<close>)\<close>

text \<open>
  Six tests, each of which opens two sockets, binds them to the same port and reports on
  standard output; \<open>main\<close> checks its argument and runs two of them.  An answer of the kernel is
  the \<open>int\<close> that the call returns.  \<open>inet_pton\<close> of the C library is a parameter: its return
  value and the address it stores.
\<close>

record sockaddr_in =
  sin_family :: int
  sin_port :: "16 word"
  s_addr :: "32 word"

datatype optval = OptStr string | OptInt int

datatype sock_call =
    Socket int int int
  | Setsockopt int int int optval
  | Bind int sockaddr_in
  | Close int
  | Errno

type_synonym sock_kernel = "(sock_call, int) kernel"
type_synonym 'r sock_prog = "(sock_call, int, 'r) prog"

text \<open>The constants of the Linux headers that the program uses.\<close>

definition AF_INET :: int where "AF_INET = 2"
definition SOCK_STREAM :: int where "SOCK_STREAM = 1"
definition SOCK_DGRAM :: int where "SOCK_DGRAM = 2"
definition SOL_SOCKET :: int where "SOL_SOCKET = 1"
definition SO_REUSEADDR :: int where "SO_REUSEADDR = 2"
definition SO_BINDTODEVICE :: int where "SO_BINDTODEVICE = 25"
definition INADDR_ANY :: "32 word" where "INADDR_ANY = 0"

definition LOCAL_PORT :: int where
  "LOCAL_PORT = 12345"

text \<open>Network byte order on a little-endian host: the bytes are swapped.\<close>

definition htons :: "16 word \<Rightarrow> 16 word" where
  "htons x = or (push_bit 8 x) (drop_bit 8 x)"

definition test_udp_any_addr_same_port_diff_ifs :: "sock_kernel \<Rightarrow> unit sock_prog" where
  "test_udp_any_addr_same_port_diff_ifs K = do {
     udp_f1 \<leftarrow> sys K (Socket AF_INET SOCK_DGRAM 0);
     udp_f2 \<leftarrow> sys K (Socket AF_INET SOCK_DGRAM 0);
     let addr_in = \<lparr>sin_family = AF_INET, sin_port = htons (word_of_int LOCAL_PORT), s_addr = INADDR_ANY\<rparr>;
     r \<leftarrow> sys K (Setsockopt udp_f1 SOL_SOCKET SO_BINDTODEVICE (OptStr ''ens33''));
     only_if (r \<noteq> 0) (do {
       e \<leftarrow> sys K Errno;
       printf ''UDP1 fail to bind eth0. %s:%d\<newline>'' [PStrerror e, PInt e] });
     r \<leftarrow> sys K (Setsockopt udp_f2 SOL_SOCKET SO_BINDTODEVICE (OptStr ''ens34''));
     only_if (r \<noteq> 0) (do {
       e \<leftarrow> sys K Errno;
       printf ''UDP2 fail to bind eth1. %s:%d\<newline>'' [PStrerror e, PInt e] });
     r \<leftarrow> sys K (Bind udp_f1 addr_in);
     only_if (r \<noteq> 0) (printf ''UDP1 fail to bind any addr and port(%d) on eth0\<newline>'' [PInt LOCAL_PORT]);
     r \<leftarrow> sys K (Bind udp_f2 addr_in);
     only_if (r \<noteq> 0) (printf ''UDP2 fail to bind any addr and port(%d) on eth1\<newline>'' [PInt LOCAL_PORT]);
     sys K (Close udp_f1);
     sys K (Close udp_f2);
     ret ()
   }"

definition test_udp_diff_addr_same_port :: "sock_kernel \<Rightarrow> 32 word \<Rightarrow> unit sock_prog" where
  "test_udp_diff_addr_same_port K addr = do {
     udp_f1 \<leftarrow> sys K (Socket AF_INET SOCK_DGRAM 0);
     udp_f2 \<leftarrow> sys K (Socket AF_INET SOCK_DGRAM 0);
     let addr_in = \<lparr>sin_family = AF_INET, sin_port = htons (word_of_int LOCAL_PORT), s_addr = addr\<rparr>;
     r \<leftarrow> sys K (Bind udp_f1 addr_in);
     only_if (r \<noteq> 0) (printf ''UDP1 fail to bind any addr and port(%d)\<newline>'' [PInt LOCAL_PORT]);
     let addr_in = addr_in\<lparr>s_addr := 0x0100007f\<rparr>;
     r \<leftarrow> sys K (Bind udp_f2 addr_in);
     only_if (r \<noteq> 0) (printf ''UDP2 fail to bind any addr and port(%d)\<newline>'' [PInt LOCAL_PORT]);
     sys K (Close udp_f1);
     sys K (Close udp_f2);
     printf ''UDP could bind two different addr with same port without SO_REUSEADDR\<newline>'' []
   }"

definition test_udp_any_addr_same_port :: "sock_kernel \<Rightarrow> 32 word \<Rightarrow> unit sock_prog" where
  "test_udp_any_addr_same_port K addr = do {
     udp_fd1 \<leftarrow> sys K (Socket AF_INET SOCK_DGRAM 0);
     udp_fd2 \<leftarrow> sys K (Socket AF_INET SOCK_DGRAM 0);
     let addr_in = \<lparr>sin_family = AF_INET, sin_port = htons (word_of_int LOCAL_PORT), s_addr = INADDR_ANY\<rparr>;
     sys K (Setsockopt udp_fd1 SOL_SOCKET SO_REUSEADDR (OptInt 1));
     sys K (Setsockopt udp_fd2 SOL_SOCKET SO_REUSEADDR (OptInt 1));
     res \<leftarrow> sys K (Bind udp_fd1 addr_in);
     only_if (res \<noteq> 0) (printf ''UDP1 fail to bind port(%d)\<newline>'' [PInt LOCAL_PORT]);
     res \<leftarrow> sys K (Bind udp_fd2 addr_in);
     only_if (res \<noteq> 0) (printf ''UDP2 fail to bind port(%d)\<newline>'' [PInt LOCAL_PORT]);
     sys K (Close udp_fd1);
     sys K (Close udp_fd2);
     printf ''UDP could bind two local addrs and port with SO_REUSEADDR'' []
   }"

definition test_udp_local_and_any_addr_same_port :: "sock_kernel \<Rightarrow> 32 word \<Rightarrow> unit sock_prog" where
  "test_udp_local_and_any_addr_same_port K addr = do {
     udp_fd1 \<leftarrow> sys K (Socket AF_INET SOCK_DGRAM 0);
     udp_fd2 \<leftarrow> sys K (Socket AF_INET SOCK_DGRAM 0);
     let addr_in = \<lparr>sin_family = AF_INET, sin_port = htons (word_of_int LOCAL_PORT), s_addr = addr\<rparr>;
     sys K (Setsockopt udp_fd1 SOL_SOCKET SO_REUSEADDR (OptInt 1));
     sys K (Setsockopt udp_fd2 SOL_SOCKET SO_REUSEADDR (OptInt 1));
     res \<leftarrow> sys K (Bind udp_fd1 addr_in);
     only_if (res \<noteq> 0) (printf ''UDP1 fail to bind local addr and  port(%d)\<newline>'' [PInt LOCAL_PORT]);
     res \<leftarrow> sys K (Bind udp_fd2 addr_in);
     only_if (res \<noteq> 0) (printf ''UDP2 fail to bind local addr and  port(%d)\<newline>'' [PInt LOCAL_PORT]);
     sys K (Close udp_fd1);
     sys K (Close udp_fd2);
     printf ''UDP could bind one local addr and one any addr with same port with SO_REUSEADDR\<newline>'' []
   }"

definition test_udp_local_addr_same_port :: "sock_kernel \<Rightarrow> 32 word \<Rightarrow> unit sock_prog" where
  "test_udp_local_addr_same_port K addr = do {
     udp_fd1 \<leftarrow> sys K (Socket AF_INET SOCK_DGRAM 0);
     udp_fd2 \<leftarrow> sys K (Socket AF_INET SOCK_DGRAM 0);
     let addr_in = \<lparr>sin_family = AF_INET, sin_port = htons (word_of_int LOCAL_PORT), s_addr = addr\<rparr>;
     sys K (Setsockopt udp_fd1 SOL_SOCKET SO_REUSEADDR (OptInt 1));
     sys K (Setsockopt udp_fd2 SOL_SOCKET SO_REUSEADDR (OptInt 1));
     res \<leftarrow> sys K (Bind udp_fd1 addr_in);
     only_if (res \<noteq> 0) (printf ''UDP1 fail to bind port(%d)\<newline>'' [PInt LOCAL_PORT]);
     res \<leftarrow> sys K (Bind udp_fd2 addr_in);
     only_if (res \<noteq> 0) (printf ''UDP2 fail to bind port(%d)\<newline>'' [PInt LOCAL_PORT]);
     sys K (Close udp_fd1);
     sys K (Close udp_fd2);
     printf ''UDP could bind two local addrs and port with SO_REUSEADDR'' []
   }"

definition test_tcp_udp_same_ports :: "sock_kernel \<Rightarrow> 32 word \<Rightarrow> unit sock_prog" where
  "test_tcp_udp_same_ports K addr = do {
     tcp_fd \<leftarrow> sys K (Socket AF_INET SOCK_STREAM 0);
     if tcp_fd = - 1 then printf ''Fail to create tcp socket\<newline>'' []
     else do {
       udp_fd \<leftarrow> sys K (Socket AF_INET SOCK_DGRAM 0);
       if udp_fd = - 1 then printf ''Fail to create udp socket\<newline>'' []
       else do {
         let addr_in = \<lparr>sin_family = AF_INET, sin_port = htons (word_of_int LOCAL_PORT), s_addr = addr\<rparr>;
         res \<leftarrow> sys K (Bind tcp_fd addr_in);
         only_if (res \<noteq> 0) (printf ''Tcp fail to bind port(%d)\<newline>'' [PInt LOCAL_PORT]);
         res \<leftarrow> sys K (Bind udp_fd addr_in);
         only_if (res \<noteq> 0) (printf ''UDP fail to bind port(%d)\<newline>'' [PInt LOCAL_PORT]);
         sys K (Close tcp_fd);
         sys K (Close udp_fd);
         printf ''TCP and UDP could bind same port seperately \<newline>'' []
       }
     }
   }"

definition reuse_main :: "sock_kernel \<Rightarrow> (string \<Rightarrow> int \<times> 32 word) \<Rightarrow> string list \<Rightarrow> int sock_prog" where
  "reuse_main K inet_pton argv =
     (if length argv < 2 then do { printf ''Please specify local ip addresss\<newline>'' []; ret (- 1) }
      else (case inet_pton (argv ! 1) of (ok, addr) \<Rightarrow>
        if ok \<noteq> 1 then do { printf ''invalid IP address'' []; ret (- 1) }
        else do {
          test_tcp_udp_same_ports K addr;
          test_udp_any_addr_same_port_diff_ifs K;
          ret 0
        }))"

subsection \<open>Descriptors\<close>

definition sock_opens :: "sock_call \<Rightarrow> int \<Rightarrow> int option" where
  "sock_opens c a = (case c of Socket _ _ _ \<Rightarrow> if 0 \<le> a then Some a else None | _ \<Rightarrow> None)"

definition sock_closes :: "sock_call \<Rightarrow> int \<Rightarrow> int option" where
  "sock_closes c a = (case c of Close fd \<Rightarrow> if 0 \<le> fd then Some fd else None | _ \<Rightarrow> None)"

abbreviation sock_held :: "(sock_call, int) world \<Rightarrow> int multiset" where
  "sock_held w \<equiv> held sock_opens sock_closes (calls w)"

lemmas sock_simps = held_step_def sock_opens_def sock_closes_def Let_def

lemma udp_ifs_held: "sock_held (exec (test_udp_any_addr_same_port_diff_ifs K) w) = sock_held w"
  unfolding test_udp_any_addr_same_port_diff_ifs_def Let_def
  by (rule wpD, intro wp_quiet) (auto simp: sock_simps)

text \<open>
  C32: none of the five UDP tests leaks a descriptor: whatever the kernel answers to each call
  (failing sockets, options and binds included), the test has closed every socket that it opened
  when it returns, and no other.
\<close>
theorem udp_tests_close_their_sockets:
  "sock_held (exec (test_udp_any_addr_same_port_diff_ifs K) w) = sock_held w
   \<and> sock_held (exec (test_udp_diff_addr_same_port K addr) w) = sock_held w
   \<and> sock_held (exec (test_udp_any_addr_same_port K addr) w) = sock_held w
   \<and> sock_held (exec (test_udp_local_and_any_addr_same_port K addr) w) = sock_held w
   \<and> sock_held (exec (test_udp_local_addr_same_port K addr) w) = sock_held w"
proof (intro conjI)
  show "sock_held (exec (test_udp_any_addr_same_port_diff_ifs K) w) = sock_held w"
    by (rule udp_ifs_held)
  show "sock_held (exec (test_udp_diff_addr_same_port K addr) w) = sock_held w"
    unfolding test_udp_diff_addr_same_port_def Let_def
    by (rule wpD, intro wp_quiet) (auto simp: sock_simps)
  show "sock_held (exec (test_udp_any_addr_same_port K addr) w) = sock_held w"
    unfolding test_udp_any_addr_same_port_def Let_def
    by (rule wpD, intro wp_quiet) (auto simp: sock_simps)
  show "sock_held (exec (test_udp_local_and_any_addr_same_port K addr) w) = sock_held w"
    unfolding test_udp_local_and_any_addr_same_port_def Let_def
    by (rule wpD, intro wp_quiet) (auto simp: sock_simps)
  show "sock_held (exec (test_udp_local_addr_same_port K addr) w) = sock_held w"
    unfolding test_udp_local_addr_same_port_def Let_def
    by (rule wpD, intro wp_quiet) (auto simp: sock_simps)
qed

lemma tcp_udp_held:
  assumes "tcp = K (calls w) (Socket AF_INET SOCK_STREAM 0)"
    and "udp = K (calls w @ [(Socket AF_INET SOCK_STREAM 0, tcp)]) (Socket AF_INET SOCK_DGRAM 0)"
  shows "sock_held (exec (test_tcp_udp_same_ports K addr) w)
    = sock_held w + (if 0 \<le> tcp \<and> udp = - 1 then {#tcp#} else {#})"
  unfolding test_tcp_udp_same_ports_def Let_def
  apply (rule wpD, rule wp_bind, rule wp_sys_eq)
  apply (rule wp_if, (intro wp_quiet)[1], simp add: sock_simps assms(1))
  apply (rule wp_bind, rule wp_sys_eq)
  apply (rule wp_if, (intro wp_quiet)[1])
  subgoal using assms by (simp add: sock_simps)
  subgoal premises p for a b
  proof -
    have "a = tcp" "b = udp" using p assms by simp_all
    then have ab: "\<not> (0 \<le> tcp \<and> udp = - 1)" using p by simp
    show ?thesis
      by (intro wp_quiet) (use ab in \<open>auto simp: sock_simps\<close>)
  qed
  done

text \<open>
  Main returns 0 exactly when it has an argument that inet_pton accepts, and -1 without any
  call otherwise.  It leaks one descriptor in one case only: the TCP socket stays open when the
  UDP socket of the first test cannot be made.
\<close>
theorem reuse_main_descriptors:
  "let good = (2 \<le> length argv \<and> fst (inet_pton (argv ! 1)) = 1);
       tcp = K [] (Socket AF_INET SOCK_STREAM 0);
       udp = K [(Socket AF_INET SOCK_STREAM 0, tcp)] (Socket AF_INET SOCK_DGRAM 0);
       w = exec (reuse_main K inet_pton argv) init_world
   in result (reuse_main K inet_pton argv) init_world = (if good then 0 else - 1)
     \<and> sock_held w = (if good \<and> 0 \<le> tcp \<and> udp = - 1 then {#tcp#} else {#})
     \<and> (calls w = [] \<longleftrightarrow> \<not> good)"
proof (cases "2 \<le> length argv \<and> fst (inet_pton (argv ! 1)) = 1")
  case False
  then show ?thesis by (auto simp: reuse_main_def Let_def split: prod.split)
next
  case True
  obtain addr where p: "inet_pton (argv ! 1) = (1, addr)" using True by (cases "inet_pton (argv ! 1)") simp
  let ?tcp = "test_tcp_udp_same_ports K addr" and ?ifs = "test_udp_any_addr_same_port_diff_ifs K"
  have run: "exec (reuse_main K inet_pton argv) init_world = exec ?ifs (exec ?tcp init_world)"
    "result (reuse_main K inet_pton argv) init_world = 0"
    using True p by (simp_all add: reuse_main_def)
  have "calls (exec ?ifs w') \<noteq> []" for w'
    unfolding test_udp_any_addr_same_port_diff_ifs_def Let_def
    by (rule wpD, intro wp_quiet) auto
  then show ?thesis
    using True udp_ifs_held [of K "exec ?tcp init_world"]
      tcp_udp_held [where K = K and w = init_world and addr = addr, OF refl refl]
    unfolding run Let_def by simp
qed

text \<open>
  The report of the TCP/UDP test does not depend on its outcome: once both sockets exist, its
  last line says that both could bind the port, whatever the two binds returned.
\<close>
theorem tcp_udp_reports_success_anyway:
  assumes "K (calls w) (Socket AF_INET SOCK_STREAM 0) \<noteq> - 1"
    and "K (calls w @ [(Socket AF_INET SOCK_STREAM 0, K (calls w) (Socket AF_INET SOCK_STREAM 0))])
           (Socket AF_INET SOCK_DGRAM 0) \<noteq> - 1"
  shows "out (exec (test_tcp_udp_same_ports K addr) w) \<noteq> []
    \<and> last (out (exec (test_tcp_udp_same_ports K addr) w)) = (''TCP and UDP could bind same port seperately \<newline>'', [])"
  using assms unfolding test_tcp_udp_same_ports_def Let_def by (simp add: Let_def)

theorem tcp_udp_reports_success_anyway_witness:
  "out (exec (test_tcp_udp_same_ports (\<lambda>h c. case c of Socket _ _ _ \<Rightarrow> int (length h) + 3 | _ \<Rightarrow> - 1) addr) init_world) \<noteq> []
    \<and> last (out (exec (test_tcp_udp_same_ports (\<lambda>h c. case c of Socket _ _ _ \<Rightarrow> int (length h) + 3 | _ \<Rightarrow> - 1) addr)
        init_world)) = (''TCP and UDP could bind same port seperately \<newline>'', [])"
  by (rule tcp_udp_reports_success_anyway) simp_all

text \<open>
  The test that is to bind one local address and INADDR_ANY makes, against any kernel, the
  very calls of the test that binds the local address twice: it never binds INADDR_ANY.
\<close>
theorem local_and_any_is_local_twice:
  "calls (exec (test_udp_local_and_any_addr_same_port K addr) w)
     = calls (exec (test_udp_local_addr_same_port K addr) w)"
  unfolding test_udp_local_and_any_addr_same_port_def test_udp_local_addr_same_port_def Let_def
  by (rule alike_calls) (intro alike_rules)

end
