(* ===== verification/CString.thy ===== *)
theory CString
  imports CBase
begin

section \<open>C strings and numbers in them\<close>

text \<open>
  What the programs use of the C library on characters: the string in a buffer (up to its NUL),
  a line read by \<open>fgets\<close>, \<open>atoi\<close>, and the decimal digits of a number, which the kernel and
  \<open>printf\<close> write and \<open>atoi\<close> reads back.
\<close>

definition NUL :: char where "NUL = CHR 0x00"
definition NL :: char where "NL = CHR 0x0A"

text \<open>The string in a buffer; a buffer without NUL is read beyond its end.\<close>

definition c_string :: "string \<Rightarrow> string res" where
  "c_string b = (if NUL \<in> set b then Inr (takeWhile (\<lambda>c. c \<noteq> NUL) b) else Inl OutOfBounds)"

text \<open>
  \<open>fgets (b, n, fp)\<close> when the stream still holds \<open>s\<close>: the characters up to the first newline,
  at most \<open>n - 1\<close>, or nothing at the end of the stream.
\<close>

definition fgets :: "nat \<Rightarrow> string \<Rightarrow> string option" where
  "fgets n s = (if s = [] then None
     else Some (take (n - 1) (case dropWhile (\<lambda>c. c \<noteq> NL) s of
        [] \<Rightarrow> s | _ # _ \<Rightarrow> takeWhile (\<lambda>c. c \<noteq> NL) s @ [NL])))"

text \<open>The string in a zeroed buffer of \<open>n\<close> bytes after \<open>fgets\<close>, and without its newline.\<close>

definition read_line :: "nat \<Rightarrow> string \<Rightarrow> string" where
  "read_line n s = (case fgets n s of None \<Rightarrow> [] | Some l \<Rightarrow> takeWhile (\<lambda>c. c \<noteq> NUL) l)"

definition strip_nl :: "string \<Rightarrow> string" where
  "strip_nl b = (if b \<noteq> [] \<and> last b = NL then butlast b else b)"

definition is_digit :: "char \<Rightarrow> bool" where
  "is_digit c \<longleftrightarrow> 48 \<le> (of_char c :: int) \<and> (of_char c :: int) \<le> 57"

definition is_space :: "char \<Rightarrow> bool" where
  "is_space c \<longleftrightarrow> (of_char c :: int) = 32 \<or> (9 \<le> (of_char c :: int) \<and> (of_char c :: int) \<le> 13)"

definition digits_val :: "string \<Rightarrow> int" where
  "digits_val s = foldl (\<lambda>v c. 10 * v + (of_char c - 48)) 0 (takeWhile is_digit s)"

text \<open>\<open>strcmp\<close> compares the strings as \<open>unsigned char\<close>s; the end of a string counts as 0.\<close>

fun strcmp :: "string \<Rightarrow> string \<Rightarrow> int" where
  "strcmp [] [] = 0"
| "strcmp [] (d # ds) = - of_char d"
| "strcmp (c # cs) [] = of_char c"
| "strcmp (c # cs) (d # ds) = (if c = d then strcmp cs ds else of_char c - of_char d)"

text \<open>\<open>atoi\<close> of glibc: \<open>strtol\<close>, which stops at the ends of \<open>long\<close>, converted to \<open>int\<close>.\<close>

definition strtol10 :: "string \<Rightarrow> int" where
  "strtol10 s = (case dropWhile is_space s of
       [] \<Rightarrow> 0
     | c # cs \<Rightarrow>
         if c = CHR ''-'' then max (- (2 ^ 63)) (- digits_val cs)
         else min (2 ^ 63 - 1) (digits_val (if c = CHR ''+'' then cs else c # cs)))"

definition atoi :: "string \<Rightarrow> int" where
  "atoi s = to_i32 (strtol10 s)"

fun dec :: "nat \<Rightarrow> string" where
  "dec n = (if n < 10 then [char_of (48 + n)] else dec (n div 10) @ [char_of (48 + n mod 10)])"

declare dec.simps [simp del]

subsection \<open>Reading back decimal digits\<close>

lemma of_char_digit: "d < 10 \<Longrightarrow> (of_char (char_of (48 + d) :: char) :: int) = 48 + int d"
proof -
  assume "d < 10"
  then have "(of_char (char_of (48 + d) :: char) :: nat) = 48 + d" by (simp add: of_char_of)
  moreover have "(of_char c :: int) = int (of_char c)" for c :: char by (rule of_nat_of_char [symmetric])
  ultimately show ?thesis by simp
qed

lemma dec_digits: "c \<in> set (dec n) \<Longrightarrow> is_digit c"
proof (induction n rule: dec.induct)
  case (1 n)
  have d: "is_digit (char_of (48 + k))" if "k < 10" for k :: nat
    using of_char_digit [OF that] that by (simp add: is_digit_def)
  show ?case using 1 d by (subst (asm) (2) dec.simps) (auto split: if_splits)
qed

lemma takeWhile_dec [simp]: "takeWhile is_digit (dec n) = dec n"
  using dec_digits by (simp add: takeWhile_eq_all_conv)

lemma digits_val_dec: "digits_val (dec n) = int n"
proof -
  have "foldl (\<lambda>v c. 10 * v + (of_char c - 48)) 0 (dec n) = int n"
  proof (induction n rule: dec.induct)
    case (1 n)
    show ?case
    proof (cases "n < 10")
      case True
      then show ?thesis using of_char_digit [of n] by (subst dec.simps) simp
    next
      case False
      then show ?thesis using 1 [OF False] of_char_digit [of "n mod 10"]
        by (subst dec.simps) (simp add: zdiv_int zmod_int)
    qed
  qed
  then show ?thesis by (simp add: digits_val_def)
qed

lemma dec_not_Nil [simp]: "dec n \<noteq> []"
  by (subst dec.simps) simp

lemma atoi_dec:
  assumes "n < 2147483648"
  shows "atoi (dec n) = int n"
proof -
  obtain c cs where cs: "dec n = c # cs" by (cases "dec n") simp_all
  then have "is_digit c" using dec_digits [of c n] by simp
  then have c: "\<not> is_space c" "c \<noteq> CHR ''-''" "c \<noteq> CHR ''+''" by (auto simp: is_digit_def is_space_def)
  have "int n < 2147483648" using assms by simp
  then have "strtol10 (dec n) = int n" using c digits_val_dec [of n] by (simp add: strtol10_def cs)
  moreover have "int_ok (int n)" using assms by (intro int_okI) simp_all
  ultimately show ?thesis by (simp add: atoi_def to_i32_id)
qed

lemma length_dec_le: "n < 10 ^ k \<Longrightarrow> 0 < k \<Longrightarrow> length (dec n) \<le> k"
proof (induction k arbitrary: n)
  case (Suc k)
  show ?case
  proof (cases "n < 10")
    case False
    then have "0 < k" using Suc.prems by (cases k) simp_all
    moreover have "n div 10 < 10 ^ k" using Suc.prems(1) by (simp add: less_mult_imp_div_less mult.commute)
    ultimately show ?thesis using False Suc.IH [of "n div 10"] by (subst dec.simps) simp
  qed (subst dec.simps, simp)
qed simp

lemma length_dec_gt: "10 ^ k \<le> n \<Longrightarrow> k < length (dec n)"
proof (induction k arbitrary: n)
  case (Suc k)
  then have "10 ^ k \<le> n div 10" by (simp add: less_eq_div_iff_mult_less_eq mult.commute)
  then have "k < length (dec (n div 10))" by (rule Suc.IH)
  moreover have "10 \<le> n" using Suc.prems by (metis One_nat_def le_trans mult_le_mono2 one_le_power nat_mult_1_right
      numeral_le_one_iff one_le_numeral power_Suc)
  ultimately show ?case by (subst dec.simps) simp
qed simp

lemma NUL_not_dec [simp]: "NUL \<notin> set (dec n)"
  using dec_digits [of NUL n] by (auto simp: NUL_def is_digit_def)

lemma NL_not_dec [simp]: "NL \<notin> set (dec n)"
  using dec_digits [of NL n] by (auto simp: NL_def is_digit_def)

lemma NL_not_NUL [simp]: "NL \<noteq> NUL" "NUL \<noteq> NL"
  by (simp_all add: NL_def NUL_def)

lemma fgets_line: "NL \<notin> set l \<Longrightarrow> length l + 1 < n \<Longrightarrow> fgets n (l @ [NL]) = Some (l @ [NL])"
proof -
  assume l: "NL \<notin> set l" "length l + 1 < n"
  have "dropWhile (\<lambda>c. c \<noteq> NL) (l @ [NL]) = [NL]" "takeWhile (\<lambda>c. c \<noteq> NL) (l @ [NL]) = l"
    using l(1) by (subst dropWhile_append2, auto) (subst takeWhile_append2, auto)
  then show ?thesis using l(2) by (simp add: fgets_def)
qed

lemma read_line_line:
  assumes "NL \<notin> set l" and "NUL \<notin> set l" and "length l + 1 < n"
  shows "read_line n (l @ [NL]) = l @ [NL]"
proof -
  have "takeWhile (\<lambda>c. c \<noteq> NUL) (l @ [NL]) = l @ [NL]" using assms(2) by (subst takeWhile_append2) auto
  then show ?thesis using fgets_line [OF assms(1,3)] by (simp add: read_line_def)
qed

subsection \<open>The order of strcmp\<close>

definition no_nul :: "string \<Rightarrow> bool" where
  "no_nul s \<longleftrightarrow> NUL \<notin> set s"

lemma of_char_pos: "c \<noteq> NUL \<Longrightarrow> 0 < (of_char c :: int)"
proof -
  assume "c \<noteq> NUL"
  then have "(of_char c :: nat) \<noteq> of_char NUL" by (simp only: of_char_eq_iff not_False_eq_True)
  then have "0 < (of_char c :: nat)" by (simp add: NUL_def)
  moreover have "(of_char c :: int) = int (of_char c)" by (rule of_nat_of_char [symmetric])
  ultimately show ?thesis by simp
qed

lemma of_char_int_eq: "(of_char c :: int) = of_char d \<longleftrightarrow> c = d"
  by simp

lemma strcmp_eq: "no_nul s \<Longrightarrow> no_nul t \<Longrightarrow> strcmp s t = 0 \<longleftrightarrow> s = t"
proof (induction s t rule: strcmp.induct)
  case (2 d ds)
  then show ?case using of_char_pos [of d] by (auto simp: no_nul_def)
next
  case (3 c cs)
  then show ?case using of_char_pos [of c] by (auto simp: no_nul_def)
qed (auto simp: no_nul_def)

lemma strcmp_anti: "strcmp t s = - strcmp s t"
  by (induction s t rule: strcmp.induct) simp_all

lemma strcmp_trans: "no_nul s \<Longrightarrow> no_nul t \<Longrightarrow> no_nul u \<Longrightarrow> strcmp s t < 0 \<Longrightarrow> strcmp t u < 0 \<Longrightarrow> strcmp s u < 0"
proof (induction s arbitrary: t u)
  case Nil
  then obtain d ds e es where "t = d # ds" "u = e # es"
    using of_char_pos by (cases t; cases u; force simp: no_nul_def)
  then show ?case using of_char_pos [of e] Nil(3) by (auto simp: no_nul_def)
next
  case (Cons c cs)
  obtain d ds where t: "t = d # ds" using Cons.prems(1,4) of_char_pos [of c] by (cases t) (auto simp: no_nul_def)
  obtain e es where u: "u = e # es" using Cons.prems(2,5) of_char_pos [of d] t by (cases u) (auto simp: no_nul_def)
  show ?case
    using Cons.prems Cons.IH [of ds es] unfolding t u by (auto simp: no_nul_def split: if_splits)
qed

end
