(* ===== verification/Namespaces.thy ===== *)
theory Namespaces
  imports Syscalls CString
begin

section \<open>Entering and leaving namespaces (\<open>obtain_container_ip/\<close>)\<close>

text \<open>
  The calls of the two container programs.  An answer is a pair: what the call returns (a
  descriptor, a pointer as a number, -1) and the characters it delivers: for \<open>Fgets\<close> what the
  stream still holds, for \<open>Readdir\<close> the name of the next entry.
\<close>

datatype nstype = CLONE_NEWNET | CLONE_NEWNS

datatype ns_call =
    Open string
  | Setns int nstype
  | CloseFd int
  | Malloc int
  | Free int
  | Popen string
  | Pclose int
  | Fopen string
  | Fclose int
  | Fgets int
  | Opendir string
  | Readdir int
  | Closedir int

type_synonym ns_ans = "int \<times> string"
type_synonym ns_kernel = "(ns_call, ns_ans) kernel"
type_synonym 'r ns_prog = "(ns_call, ns_ans, 'r) prog"
type_synonym ns_hist = "(ns_call \<times> ns_ans) list"

definition call :: "ns_kernel \<Rightarrow> ns_call \<Rightarrow> int ns_prog" where
  "call K c = do { a \<leftarrow> sys K c; ret (fst a) }"

definition enter_netns :: "ns_kernel \<Rightarrow> string \<Rightarrow> int ns_prog" where
  "enter_netns K netns = do {
     curfd \<leftarrow> call K (Open ''/proc/self/ns/net'');
     if curfd = - 1 then ret (- 1)
     else do {
       netfd \<leftarrow> call K (Open netns);
       if netfd = - 1 then do { call K (CloseFd curfd); ret (- 1) }
       else do {
         r \<leftarrow> call K (Setns netfd CLONE_NEWNET);
         if r = - 1 then do { call K (CloseFd netfd); call K (CloseFd curfd); ret (- 1) }
         else do { call K (CloseFd netfd); ret curfd }
       }
     }
   }"

definition restore_netns :: "ns_kernel \<Rightarrow> int \<Rightarrow> int ns_prog" where
  "restore_netns K fd = do {
     r \<leftarrow> call K (Setns fd CLONE_NEWNET);
     if r = - 1 then do { call K (CloseFd fd); ret (- 1) }
     else do { call K (CloseFd fd); ret 0 }
   }"

definition enter_mntns :: "ns_kernel \<Rightarrow> string \<Rightarrow> int ns_prog" where
  "enter_mntns K mntns = do {
     curfd \<leftarrow> call K (Open ''/proc/self/ns/mnt'');
     if curfd = - 1 then ret (- 1)
     else do {
       mntfd \<leftarrow> call K (Open mntns);
       if mntfd = - 1 then do { call K (CloseFd curfd); ret (- 1) }
       else do {
         r \<leftarrow> call K (Setns mntfd CLONE_NEWNS);
         if r = - 1 then do { call K (CloseFd mntfd); call K (CloseFd curfd); ret (- 1) }
         else do { call K (CloseFd mntfd); ret curfd }
       }
     }
   }"

definition restore_mntns :: "ns_kernel \<Rightarrow> int \<Rightarrow> int ns_prog" where
  "restore_mntns K fd = do {
     r \<leftarrow> call K (Setns fd CLONE_NEWNS);
     if r = - 1 then do { call K (CloseFd fd); ret (- 1) }
     else do { call K (CloseFd fd); ret 0 }
   }"

subsection \<open>Descriptors and memory\<close>

definition ns_opens :: "ns_call \<Rightarrow> ns_ans \<Rightarrow> int option" where
  "ns_opens c a = (case c of Open _ \<Rightarrow> if fst a = - 1 then None else Some (fst a) | _ \<Rightarrow> None)"

definition ns_closes :: "ns_call \<Rightarrow> ns_ans \<Rightarrow> int option" where
  "ns_closes c a = (case c of CloseFd fd \<Rightarrow> Some fd | _ \<Rightarrow> None)"

abbreviation fds :: "ns_hist \<Rightarrow> int multiset" where
  "fds \<equiv> held ns_opens ns_closes"

definition heap_opens :: "ns_call \<Rightarrow> ns_ans \<Rightarrow> int option" where
  "heap_opens c a = (case c of Malloc _ \<Rightarrow> if fst a = 0 then None else Some (fst a) | _ \<Rightarrow> None)"

definition heap_closes :: "ns_call \<Rightarrow> ns_ans \<Rightarrow> int option" where
  "heap_closes c a = (case c of Free p \<Rightarrow> Some p | _ \<Rightarrow> None)"

abbreviation blocks :: "ns_hist \<Rightarrow> int multiset" where
  "blocks \<equiv> held heap_opens heap_closes"

definition stream_opens :: "ns_call \<Rightarrow> ns_ans \<Rightarrow> int option" where
  "stream_opens c a = (case c of
       Popen _ \<Rightarrow> if fst a = 0 then None else Some (fst a)
     | Fopen _ \<Rightarrow> if fst a = 0 then None else Some (fst a)
     | Opendir _ \<Rightarrow> if fst a = 0 then None else Some (fst a)
     | _ \<Rightarrow> None)"

definition stream_closes :: "ns_call \<Rightarrow> ns_ans \<Rightarrow> int option" where
  "stream_closes c a = (case c of
       Pclose p \<Rightarrow> Some p | Fclose p \<Rightarrow> Some p | Closedir p \<Rightarrow> Some p | _ \<Rightarrow> None)"

abbreviation streams :: "ns_hist \<Rightarrow> int multiset" where
  "streams \<equiv> held stream_opens stream_closes"

lemmas ns_simps = held_step_def ns_opens_def ns_closes_def heap_opens_def heap_closes_def
  stream_opens_def stream_closes_def

subsection \<open>The namespace a history ends in\<close>

text \<open>
  The namespace of each type that the process is in, by the path it was opened under, and the
  namespace that each descriptor stands for: \<open>/proc/self/ns/net\<close> and \<open>/proc/self/ns/mnt\<close> are the
  current ones, as namespaces(7) documents.  \<open>stuck\<close> collects the types for which the kernel
  has refused to go back: a \<open>setns\<close> failed on a descriptor that stands for the namespace the
  process started in, \<open>''host''\<close>.
\<close>

record ns_state =
  cur :: "nstype \<Rightarrow> string"
  names :: "int \<rightharpoonup> string"
  stuck :: "nstype set"

definition ns_step :: "ns_call \<times> ns_ans \<Rightarrow> ns_state \<Rightarrow> ns_state" where
  "ns_step e s = (case e of (c, a) \<Rightarrow> (case c of
       Open p \<Rightarrow> if fst a = - 1 then s else s\<lparr>names := (names s)(fst a \<mapsto>
           (if p = ''/proc/self/ns/net'' then cur s CLONE_NEWNET
            else if p = ''/proc/self/ns/mnt'' then cur s CLONE_NEWNS else p))\<rparr>
     | Setns fd ty \<Rightarrow> (case names s fd of None \<Rightarrow> s
           | Some p \<Rightarrow> if fst a \<noteq> - 1 then s\<lparr>cur := (cur s)(ty := p)\<rparr>
               else if p = ''host'' then s\<lparr>stuck := insert ty (stuck s)\<rparr> else s)
     | _ \<Rightarrow> s))"

definition ns_after :: "ns_hist \<Rightarrow> ns_state" where
  "ns_after h = fold ns_step h \<lparr>cur = (\<lambda>_. ''host''), names = Map.empty, stuck = {}\<rparr>"

lemma ns_after_append [simp]: "ns_after (h @ t) = fold ns_step t (ns_after h)"
  by (simp add: ns_after_def)

text \<open>The kernel gives out descriptors that are not open.\<close>

definition fresh_fds :: "ns_kernel \<Rightarrow> bool" where
  "fresh_fds K \<longleftrightarrow> (\<forall>h p. fst (K h (Open p)) \<noteq> - 1 \<longrightarrow> fst (K h (Open p)) \<notin># fds h)"

text \<open>
  The process is in the namespace it started in, of each type that the kernel has let it go back
  to.
\<close>

definition back_home :: "ns_hist \<Rightarrow> bool" where
  "back_home h \<longleftrightarrow> (\<forall>ty. cur (ns_after h) ty = ''host'' \<or> ty \<in> stuck (ns_after h))"

lemma home_start: "back_home []"
  by (simp add: back_home_def ns_after_def)

subsection \<open>Entering and leaving as one operation\<close>

text \<open>The network and the mount pair are the same code on another namespace.\<close>

definition self_ns :: "nstype \<Rightarrow> string" where
  "self_ns ty = (case ty of CLONE_NEWNET \<Rightarrow> ''/proc/self/ns/net'' | CLONE_NEWNS \<Rightarrow> ''/proc/self/ns/mnt'')"

definition enter_ns :: "ns_kernel \<Rightarrow> nstype \<Rightarrow> string \<Rightarrow> int ns_prog" where
  "enter_ns K ty = (case ty of CLONE_NEWNET \<Rightarrow> enter_netns K | CLONE_NEWNS \<Rightarrow> enter_mntns K)"

definition restore_ns :: "ns_kernel \<Rightarrow> nstype \<Rightarrow> int \<Rightarrow> int ns_prog" where
  "restore_ns K ty = (case ty of CLONE_NEWNET \<Rightarrow> restore_netns K | CLONE_NEWNS \<Rightarrow> restore_mntns K)"

lemma enter_ns_unfold:
  "enter_ns K ty p = do {
     curfd \<leftarrow> call K (Open (self_ns ty));
     if curfd = - 1 then ret (- 1)
     else do {
       fd \<leftarrow> call K (Open p);
       if fd = - 1 then do { call K (CloseFd curfd); ret (- 1) }
       else do {
         r \<leftarrow> call K (Setns fd ty);
         if r = - 1 then do { call K (CloseFd fd); call K (CloseFd curfd); ret (- 1) }
         else do { call K (CloseFd fd); ret curfd }
       }
     }
   }"
  by (cases ty) (simp_all add: enter_ns_def self_ns_def enter_netns_def enter_mntns_def cong: if_cong)

lemma restore_ns_unfold:
  "restore_ns K ty fd = do {
     r \<leftarrow> call K (Setns fd ty);
     if r = - 1 then do { call K (CloseFd fd); ret (- 1) }
     else do { call K (CloseFd fd); ret 0 }
   }"
  by (cases ty) (simp_all add: restore_ns_def restore_netns_def restore_mntns_def cong: if_cong)

lemma wp_call [wp_rules]:
  "(\<And>a. Q (fst a) (w\<lparr>calls := calls w @ [(c, a)]\<rparr>)) \<Longrightarrow> wp (call K c) Q w"
  by (simp add: wp_def call_def)

lemma wp_call_eq:
  "(\<And>a. a = K (calls w) c \<Longrightarrow> Q (fst a) (w\<lparr>calls := calls w @ [(c, a)]\<rparr>)) \<Longrightarrow> wp (call K c) Q w"
  by (simp add: wp_def call_def)

lemmas ns_quiet = wp_call wp_quiet

text \<open>
  \<open>enter_ns\<close> either fails, with the descriptors, the memory and the namespaces as before, or
  it is in the new namespace and returns one more open descriptor, which stands for the old one.
\<close>

definition entered :: "nstype \<Rightarrow> string \<Rightarrow> ns_hist \<Rightarrow> int \<Rightarrow> ns_hist \<Rightarrow> bool" where
  "entered ty p h r h' \<longleftrightarrow> blocks h' = blocks h \<and> streams h' = streams h \<and>
     stuck (ns_after h) \<subseteq> stuck (ns_after h') \<and>
     (if r = - 1 then fds h' = fds h \<and> cur (ns_after h') = cur (ns_after h)
      else fds h' = add_mset r (fds h) \<and> cur (ns_after h') = (cur (ns_after h))(ty := p)
        \<and> names (ns_after h') r = Some (cur (ns_after h) ty))"

lemma enter_ns_wp:
  assumes K: "fresh_fds K" and p: "p \<noteq> ''/proc/self/ns/net''" "p \<noteq> ''/proc/self/ns/mnt''"
    and Q: "\<And>r w'. entered ty p (calls w) r (calls w') \<Longrightarrow> Q r w'"
  shows "wp (enter_ns K ty p) Q w"
proof -
  have "wp (enter_ns K ty p) (\<lambda>r w'. entered ty p (calls w) r (calls w')) w"
    unfolding enter_ns_unfold
    apply (rule wp_bind, rule wp_call_eq)
    apply (rule wp_if)
     apply (intro ns_quiet)
     apply (simp add: entered_def ns_simps ns_step_def)
    apply (rule wp_bind, rule wp_call_eq)
    subgoal premises prems for a b
    proof -
      let ?h = "calls w @ [(Open (self_ns ty), a)]"
      have "fst b \<noteq> - 1 \<longrightarrow> fst b \<notin># fds ?h"
        using K prems(3) unfolding fresh_fds_def by (simp del: held_append)
      then have b: "fst b \<noteq> - 1 \<Longrightarrow> fst b \<noteq> fst a" using prems(2) by (auto simp: ns_simps)
      show ?thesis
        by (intro ns_quiet)
           (use prems(2) b p in \<open>auto simp: entered_def ns_simps ns_step_def self_ns_def split: nstype.splits option.splits\<close>)
    qed
    done
  then show ?thesis by (rule wp_mono) (rule Q)
qed

lemma restore_ns_wp:
  assumes "\<And>r w'. fds (calls w') = fds (calls w) - {#fd#} \<Longrightarrow> blocks (calls w') = blocks (calls w) \<Longrightarrow>
      streams (calls w') = streams (calls w) \<Longrightarrow>
      stuck (ns_after (calls w)) \<subseteq> stuck (ns_after (calls w')) \<Longrightarrow>
      (\<forall>q. names (ns_after (calls w)) fd = Some q \<longrightarrow>
         cur (ns_after (calls w')) = (cur (ns_after (calls w)))(ty := q)
         \<or> cur (ns_after (calls w')) = cur (ns_after (calls w)) \<and> (q = ''host'' \<longrightarrow> ty \<in> stuck (ns_after (calls w')))) \<Longrightarrow> Q r w'"
  shows "wp (restore_ns K ty fd) Q w"
  unfolding restore_ns_unfold
  by (intro ns_quiet; rule assms) (auto simp: ns_simps ns_step_def split: option.splits)

lemma restore_netns_as: "restore_netns K fd = restore_ns K CLONE_NEWNET fd"
  by (simp add: restore_ns_def)

lemma restore_mntns_as: "restore_mntns K fd = restore_ns K CLONE_NEWNS fd"
  by (simp add: restore_ns_def)

lemma enter_mntns_as: "enter_mntns K p = enter_ns K CLONE_NEWNS p"
  by (simp add: enter_ns_def)

lemma enter_netns_as: "enter_netns K p = enter_ns K CLONE_NEWNET p"
  by (simp add: enter_ns_def)

text \<open>Going into a namespace, staying there and going back leaves the process at home.\<close>

lemma there_and_back:
  assumes "back_home h" and "entered ty p h fd h1" and "fd \<noteq> - 1" and "ns_after h2 = ns_after h1"
    and "stuck (ns_after h2) \<subseteq> stuck (ns_after h3)"
    and "\<forall>q. names (ns_after h2) fd = Some q \<longrightarrow> cur (ns_after h3) = (cur (ns_after h2))(ty := q)
         \<or> cur (ns_after h3) = cur (ns_after h2) \<and> (q = ''host'' \<longrightarrow> ty \<in> stuck (ns_after h3))"
  shows "back_home h3"
  unfolding back_home_def
proof
  fix ty'
  note e = assms(2) [unfolded entered_def]
  have cur2: "cur (ns_after h2) = (cur (ns_after h))(ty := p)" "names (ns_after h2) fd = Some (cur (ns_after h) ty)"
    and st: "stuck (ns_after h) \<subseteq> stuck (ns_after h3)" using e assms(3-5) by auto
  have home: "cur (ns_after h) t = ''host'' \<or> t \<in> stuck (ns_after h3)" for t
    using assms(1) st by (auto simp: back_home_def)
  show "cur (ns_after h3) ty' = ''host'' \<or> ty' \<in> stuck (ns_after h3)"
    using assms(6) cur2 home [of ty'] home [of ty] by (cases "ty' = ty") auto
qed

lemma not_entered_home: "back_home h \<Longrightarrow> entered ty p h (- 1) h' \<Longrightarrow> back_home h'"
  by (auto simp: back_home_def entered_def)

text \<open>A part of a program that closes what it opens and touches no namespace.\<close>

definition tidy :: "ns_hist \<Rightarrow> ns_hist \<Rightarrow> bool" where
  "tidy h h' \<longleftrightarrow> fds h' = fds h \<and> blocks h' = blocks h \<and> streams h' = streams h \<and> ns_after h' = ns_after h"

lemma tidy_trans: "tidy h h' \<Longrightarrow> tidy h' h'' \<Longrightarrow> tidy h h''"
  by (simp add: tidy_def)

subsection \<open>A kernel with fresh descriptors\<close>

text \<open>
  A concrete kernel for the witnesses: every call succeeds; a new descriptor is larger than the
  answers of the history; the blocks of different sizes do not overlap; the streams hold the lines of a
  given function.
\<close>

definition fresh_kernel :: "(int \<Rightarrow> string) \<Rightarrow> ns_kernel" where
  "fresh_kernel prints h c = (case c of
       Open _ \<Rightarrow> (1 + sum_list (map (\<lambda>(c, a). \<bar>fst a\<bar>) h), [])
     | Malloc k \<Rightarrow> (64 * k, [])
     | Popen _ \<Rightarrow> (1, []) | Fopen _ \<Rightarrow> (1, []) | Opendir _ \<Rightarrow> (1, [])
     | Fgets fp \<Rightarrow> (0, prints fp)
     | _ \<Rightarrow> (0, []))"

lemma fds_bound: "fd \<in># fds h \<Longrightarrow> fd \<le> sum_list (map (\<lambda>(c, a). \<bar>fst a\<bar>) h)"
proof (induction h rule: rev_induct)
  case (snoc e h)
  obtain c a where e: "e = (c, a)" by (cases e)
  have "0 \<le> sum_list (map (\<lambda>(c, a). \<bar>fst a\<bar>) h)" by (rule sum_list_nonneg) auto
  with snoc show ?case
    by (auto simp: e ns_simps split: ns_call.splits if_splits dest!: in_diffD)
qed simp

lemma fresh_kernel_fresh: "fresh_fds (fresh_kernel prints)"
proof -
  have "1 + sum_list (map (\<lambda>(c, a). \<bar>fst a\<bar>) h) \<notin># fds h" for h :: ns_hist
    using fds_bound [of "1 + sum_list (map (\<lambda>(c, a). \<bar>fst a\<bar>) h)" h] by auto
  then show ?thesis by (simp add: fresh_fds_def fresh_kernel_def)
qed

end
