(* ===== verification/ContainerIp.thy ===== *)
theory ContainerIp
  imports Namespaces
begin

section \<open>The address of a container (\<open>obtain_container_ip/obtain_container_ip.cpp\<close>)\<close>

text \<open>
  The program enters the network namespace of a container, runs up to three shell commands there
  until one prints a valid address, and returns to its own namespace.  \<open>inet_pton\<close> of the C
  library is a parameter: its return value for an address prints.  The 16 bytes of the result are a
  block of the kernel's \<open>Malloc\<close> and the string in it.
\<close>

text \<open>The program has its own copies of the functions that enter and leave a network namespace.\<close>

definition ip_enter_netns :: "ns_kernel \<Rightarrow> string \<Rightarrow> int ns_prog" where
  "ip_enter_netns K netns = do {
     curfd \<leftarrow> call K (Open ''/proc/self/ns/net'');
     if curfd = - 1 then ret (- 1)
     else do {
       netfd \<leftarrow> call K (Open netns);
       if netfd = - 1 then do { call K (CloseFd curfd); ret (- 1) }
       else do {
         r \<leftarrow> call K (Setns netfd CLONE_NEWNET);
         if r = - 1 then do { call K (CloseFd netfd); call K (CloseFd curfd); ret (- 1) }
         else do { call K (CloseFd netfd); ret curfd }
       }
     }
   }"

definition ip_restore_netns :: "ns_kernel \<Rightarrow> int \<Rightarrow> int ns_prog" where
  "ip_restore_netns K fd = do {
     r \<leftarrow> call K (Setns fd CLONE_NEWNET);
     if r = - 1 then do { call K (CloseFd fd); ret (- 1) }
     else do { call K (CloseFd fd); ret 0 }
   }"

lemma ip_netns_copies: "ip_enter_netns = enter_netns" "ip_restore_netns = restore_netns"
  by (simp_all add: fun_eq_iff ip_enter_netns_def enter_netns_def ip_restore_netns_def restore_netns_def)

definition ip_buf_size :: nat where
  "ip_buf_size = 16"

definition ip_commands :: "string list" where
  "ip_commands =
    [''ifconfig eth0 | grep '' @ [CHR 0x22] @ ''inet '' @ [CHR 0x22] @ '' | awk '' @ [CHR 0x27] @ ''{print $2}'' @ [CHR 0x27],
     ''ip addr show eth0 | grep -Po '' @ [CHR 0x27] @ ''inet '' @ [CHR 0x5C] @ ''K['' @ [CHR 0x5C] @ ''d.]+'' @ [CHR 0x27],
     ''ip route | awk '' @ [CHR 0x27] @ ''/scope/ {print $9}'' @ [CHR 0x27]]"

definition is_valid_ip :: "(string \<Rightarrow> int) \<Rightarrow> string \<Rightarrow> bool" where
  "is_valid_ip inet_pton ip = (if take 3 ip = ''127'' then False else inet_pton ip \<noteq> 0)"

text \<open>The loop over the commands; it returns the string in the buffer.\<close>

fun ip_loop :: "ns_kernel \<Rightarrow> (string \<Rightarrow> int) \<Rightarrow> string list \<Rightarrow> string \<Rightarrow> string ns_prog" where
  "ip_loop K pton [] buf = ret buf"
| "ip_loop K pton (cmd # cmds) buf = do {
     fp \<leftarrow> call K (Popen cmd);
     if fp = 0 then do { printf ''popen %s failed\<newline>'' [PStr cmd]; ip_loop K pton cmds [] }
     else do {
       a \<leftarrow> sys K (Fgets fp);
       let buf = read_line ip_buf_size (snd a);
       if buf = [] then do { call K (Pclose fp); ip_loop K pton cmds [] }
       else if is_valid_ip pton (strip_nl buf) then do {
         printf ''%s\<newline>'' [PStr (strip_nl buf)];
         call K (Pclose fp);
         ret (strip_nl buf) }
       else do { call K (Pclose fp); ip_loop K pton cmds (strip_nl buf) }
     }
   }"

definition obtain_container_ip :: "ns_kernel \<Rightarrow> (string \<Rightarrow> int) \<Rightarrow> string \<Rightarrow> (int \<times> string) option res ns_prog" where
  "obtain_container_ip K pton netns = do {
     cur_fd \<leftarrow> ip_enter_netns K netns;
     if cur_fd = - 1 then do { printf ''enter_netns function failed!\<newline>'' []; ret (Inr None) }
     else do {
       buffer \<leftarrow> call K (Malloc (int ip_buf_size));
       if buffer = 0 then ret (Inl NullDeref)
       else do {
         buf \<leftarrow> ip_loop K pton ip_commands [];
         ip_restore_netns K cur_fd;
         ret (Inr (if 0 < length buf then Some (buffer, buf) else None))
       }
     }
   }"

text \<open>glibc prints a NULL string as \<open>(null)\<close>.\<close>

definition ip_main :: "ns_kernel \<Rightarrow> (string \<Rightarrow> int) \<Rightarrow> int res ns_prog" where
  "ip_main K pton = tryE (obtain_container_ip K pton ''/proc/7517/ns/net'') (\<lambda>r. do {
     printf ''container ip:%s\<newline>'' [PStr (case r of None \<Rightarrow> ''(null)'' | Some (_, s) \<Rightarrow> s)];
     (case r of None \<Rightarrow> ret () | Some (p, _) \<Rightarrow> do { call K (Free p); ret () });
     ret (Inr 0)
   })"

subsection \<open>What the program leaves behind\<close>

lemma ip_loop_wp:
  "(\<And>r w'. tidy (calls w) (calls w') \<Longrightarrow> Q r w') \<Longrightarrow> wp (ip_loop K pton cmds buf) Q w"
proof (induction cmds arbitrary: buf w)
  case Nil
  then show ?case by (simp add: wp_def tidy_def)
next
  case (Cons cmd cmds)
  show ?case
    unfolding ip_loop.simps Let_def
    by (intro ns_quiet Cons.IH Cons.prems; (erule tidy_trans [rotated])?)
       (simp_all add: tidy_def ns_simps ns_step_def)
qed

text \<open>
  C25: whatever the kernel answers, obtain_container_ip closes all descriptors and pipes that it
  opened, and the process is in the namespaces it started in, each of them unless the kernel
  refused the setns that leads back to it.  Its only undefined behaviour is an allocation that fails; the buffer
  that it allocates is the one it returns, or stays allocated when it returns NULL.
\<close>
theorem container_ip_restores:
  assumes "fresh_fds K" and "netns \<noteq> ''/proc/self/ns/net''" and "netns \<noteq> ''/proc/self/ns/mnt''"
    and "result (obtain_container_ip K pton netns) init_world = Inr r"
    and "h = calls (exec (obtain_container_ip K pton netns) init_world)"
  shows "fds h = {#} \<and> streams h = {#}
    \<and> (\<forall>ty. cur (ns_after h) ty = ''host'' \<or> ty \<in> stuck (ns_after h))
    \<and> size (blocks h) \<le> 1 \<and> (\<forall>p s. r = Some (p, s) \<longrightarrow> blocks h = {#p#})"
proof -
  let ?Q = "\<lambda>x w. \<forall>r. x = Inr r \<longrightarrow> fds (calls w) = {#} \<and> streams (calls w) = {#}
    \<and> back_home (calls w)
    \<and> size (blocks (calls w)) \<le> 1 \<and> (\<forall>p s. r = Some (p, s) \<longrightarrow> blocks (calls w) = {#p#})"
  have start: "back_home (calls init_world)" by (simp add: home_start)
  have "wp (obtain_container_ip K pton netns) ?Q init_world"
    unfolding obtain_container_ip_def ip_netns_copies enter_netns_as restore_netns_as
    apply (rule wp_bind, rule enter_ns_wp [OF assms(1-3)])
    apply (rule wp_if)
     apply (intro ns_quiet)
     apply (use start in \<open>auto simp: entered_def dest: not_entered_home\<close>)[1]
    apply (rule wp_bind, rule wp_call, rule wp_if)
     apply (simp add: wp_def)
    apply (rule wp_bind, rule ip_loop_wp)
    apply (rule wp_bind, rule restore_ns_wp)
    apply (rule wp_ret)
    apply (frule there_and_back [OF start])
        apply (simp_all add: tidy_def ns_step_def)
     apply (auto simp: entered_def ns_simps)
    done
  then show ?thesis using assms(4,5) by (simp add: wp_def back_home_def)
qed

theorem container_ip_restores_witness:
  "let h = calls (exec (obtain_container_ip (fresh_kernel (\<lambda>_. ''10.0.0.5'')) (\<lambda>_. 1) ''/proc/9/ns/net'') init_world)
   in fds h = {#} \<and> streams h = {#}
    \<and> (\<forall>ty. cur (ns_after h) ty = ''host'' \<or> ty \<in> stuck (ns_after h))
    \<and> size (blocks h) \<le> 1 \<and> (\<forall>p s. Some (1024, ''10.0.0.5'') = Some (p, s) \<longrightarrow> blocks h = {#p#})"
  unfolding Let_def
  by (rule container_ip_restores [OF fresh_kernel_fresh _ _ _ refl])
     (simp_all add: obtain_container_ip_def ip_enter_netns_def ip_restore_netns_def call_def ip_commands_def
       fresh_kernel_def read_line_def strip_nl_def fgets_def is_valid_ip_def ip_buf_size_def NL_def NUL_def Let_def)

subsection \<open>Which address it returns\<close>

text \<open>
  The line that a command leaves in the buffer: empty when its pipe could not be made, else what
  \<open>fgets\<close> reads of its output.
\<close>

definition cmd_line :: "(string \<Rightarrow> int) \<Rightarrow> (string \<Rightarrow> string) \<Rightarrow> string \<Rightarrow> string" where
  "cmd_line pipe prints c = (if pipe c = 0 then [] else strip_nl (read_line ip_buf_size (prints c)))"

definition chosen_line :: "(string \<Rightarrow> int) \<Rightarrow> string list \<Rightarrow> string" where
  "chosen_line pton ls = (case find (is_valid_ip pton) ls of None \<Rightarrow> last ls | Some l \<Rightarrow> l)"

lemma ip_loop_result:
  assumes pipe: "\<And>h c. c \<in> set cmds \<Longrightarrow> fst (K h (Popen c)) = pipe c"
    and prints: "\<And>h c. c \<in> set cmds \<Longrightarrow> pipe c \<noteq> 0 \<Longrightarrow> snd (K h (Fgets (pipe c))) = prints c"
    and pton: "pton [] = 0" and "cmds \<noteq> []"
  shows "result (ip_loop K pton cmds buf) w = chosen_line pton (map (cmd_line pipe prints) cmds)"
  using assms(1,2,4)
proof (induction cmds arbitrary: buf w)
  case (Cons c cs)
  have none: "\<not> is_valid_ip pton []" using pton by (simp add: is_valid_ip_def)
  have IH: "result (ip_loop K pton cs b) w'
      = (if cs = [] then b else chosen_line pton (map (cmd_line pipe prints) cs))" for b w'
    using Cons by (cases "cs = []") simp_all
  have strip: "strip_nl [] = []" by (simp add: strip_nl_def)
  show ?case
  proof (cases "is_valid_ip pton (cmd_line pipe prints c)")
    case True
    then have "pipe c \<noteq> 0" "read_line ip_buf_size (prints c) \<noteq> []"
      using none by (auto simp: cmd_line_def strip split: if_splits)
    with True Cons.prems show ?thesis
      by (simp add: call_def Let_def chosen_line_def cmd_line_def)
  next
    case False
    then have "chosen_line pton (map (cmd_line pipe prints) (c # cs))
        = (if cs = [] then cmd_line pipe prints c else chosen_line pton (map (cmd_line pipe prints) cs))"
      by (simp add: chosen_line_def cong: option.case_cong)
    moreover have "result (ip_loop K pton (c # cs) buf) w
        = (if cs = [] then cmd_line pipe prints c else chosen_line pton (map (cmd_line pipe prints) cs))"
      using False Cons.prems
      by (auto simp: call_def Let_def IH strip cmd_line_def [of pipe prints c])
    ultimately show ?thesis by simp
  qed
qed simp

text \<open>
  C26: when the namespace can be entered and memory is left, the result is the first line, in the
  order of the commands, that is a valid address and no loopback address.  With no such line it
  is NULL only if the last command printed nothing; otherwise it is the last command's line,
  valid or not.
\<close>
theorem container_ip_first_valid:
  assumes "\<forall>h p. fst (K h (Open p)) \<noteq> - 1" and "\<forall>h fd. fst (K h (Setns fd CLONE_NEWNET)) \<noteq> - 1"
    and "\<forall>h. fst (K h (Malloc 16)) = b" and "b \<noteq> 0"
    and "\<forall>c\<in>set ip_commands. \<forall>h. fst (K h (Popen c)) = pipe c"
    and "\<forall>c\<in>set ip_commands. pipe c \<noteq> 0 \<longrightarrow> (\<forall>h. snd (K h (Fgets (pipe c))) = prints c)"
    and "pton [] = 0"
  shows "result (obtain_container_ip K pton netns) w =
    (let l = (case find (is_valid_ip pton) (map (cmd_line pipe prints) ip_commands) of
         Some l \<Rightarrow> l | None \<Rightarrow> cmd_line pipe prints (last ip_commands))
     in Inr (if l = [] then None else Some (b, l)))"
proof -
  have ne: "ip_commands \<noteq> []" by (simp add: ip_commands_def)
  have "result (ip_loop K pton ip_commands []) w' = chosen_line pton (map (cmd_line pipe prints) ip_commands)" for w'
    by (rule ip_loop_result) (use assms(5-7) ne in auto)
  moreover have "result (ip_enter_netns K netns) w \<noteq> - 1"
    using assms(1,2) by (simp add: ip_enter_netns_def call_def)
  ultimately have "result (obtain_container_ip K pton netns) w =
    (let l = chosen_line pton (map (cmd_line pipe prints) ip_commands) in Inr (if l = [] then None else Some (b, l)))"
    using assms(3,4) by (simp add: obtain_container_ip_def call_def ip_buf_size_def Let_def)
  then show ?thesis unfolding chosen_line_def last_map [OF ne] .
qed

text \<open>
  An invalid address can be returned: when no command prints a valid one and the last prints
  a loopback address, that loopback address is the result.
\<close>
theorem container_ip_returns_invalid:
  assumes "\<forall>h p. fst (K h (Open p)) \<noteq> - 1" and "\<forall>h fd. fst (K h (Setns fd CLONE_NEWNET)) \<noteq> - 1"
    and "\<forall>h. fst (K h (Malloc 16)) = b" and "b \<noteq> 0" and "\<forall>h c. fst (K h (Popen c)) = 1"
    and "\<forall>h. snd (K h (Fgets 1)) = ''127.0.0.1'' @ [NL]" and "pton [] = 0"
  shows "result (obtain_container_ip K pton netns) w = Inr (Some (b, ''127.0.0.1''))"
proof -
  let ?l = "cmd_line (\<lambda>_. 1) (\<lambda>_. ''127.0.0.1'' @ [NL])"
  have l: "?l c = ''127.0.0.1''" for c
    by (simp add: cmd_line_def read_line_def strip_nl_def fgets_def ip_buf_size_def NL_def NUL_def)
  have ne: "ip_commands \<noteq> []" by (simp add: ip_commands_def)
  have "result (ip_loop K pton ip_commands []) w' = chosen_line pton (map ?l ip_commands)" for w'
    by (rule ip_loop_result) (use assms(5-7) ne in auto)
  moreover have "chosen_line pton (map ?l ip_commands) = ''127.0.0.1''"
    unfolding l by (simp add: chosen_line_def ip_commands_def is_valid_ip_def)
  moreover have "result (ip_enter_netns K netns) w \<noteq> - 1"
    using assms(1,2) by (simp add: ip_enter_netns_def call_def)
  ultimately show ?thesis
    using assms(3,4) by (simp add: obtain_container_ip_def call_def ip_buf_size_def)
qed

text \<open>A kernel on which every call succeeds and every command prints the same line.\<close>

definition ip_kernel :: "string \<Rightarrow> ns_kernel" where
  "ip_kernel l h c = (case c of
       Open _ \<Rightarrow> (3 + int (length h), []) | Malloc _ \<Rightarrow> (4096, []) | Popen _ \<Rightarrow> (1, [])
     | Fgets _ \<Rightarrow> (0, l) | _ \<Rightarrow> (0, []))"

theorem container_ip_first_valid_witness:
  "result (obtain_container_ip (ip_kernel (''10.1.2.3'' @ [NL])) (\<lambda>s. if s = ''10.1.2.3'' then 1 else 0) ''/proc/9/ns/net'') init_world =
    (let l = (case find (is_valid_ip (\<lambda>s. if s = ''10.1.2.3'' then 1 else 0))
           (map (cmd_line (\<lambda>_. 1) (\<lambda>_. ''10.1.2.3'' @ [NL])) ip_commands) of
         Some l \<Rightarrow> l | None \<Rightarrow> cmd_line (\<lambda>_. 1) (\<lambda>_. ''10.1.2.3'' @ [NL]) (last ip_commands))
     in Inr (if l = [] then None else Some (4096, l)))"
  by (rule container_ip_first_valid) (simp_all add: ip_kernel_def)

theorem container_ip_returns_invalid_witness:
  "result (obtain_container_ip (ip_kernel (''127.0.0.1'' @ [NL])) (\<lambda>_. 0) ''/proc/9/ns/net'') init_world
     = Inr (Some (4096, ''127.0.0.1''))"
  by (rule container_ip_returns_invalid) (simp_all add: ip_kernel_def)

end
