(* ===== verification/Veth.thy ===== *)
theory Veth
  imports Namespaces
begin

section \<open>The host interface of a container (\<open>obtain_container_ip/obtain_container_veth.cpp\<close>)\<close>

text \<open>
  The program reads the interface number of the peer of a container's \<open>eth0\<close> (from the name
  \<open>eth0@if10:\<close> that \<open>ip link\<close> prints in the container's network namespace, or else from a file
  in its mount namespace), and looks for the host interface with that number.
\<close>

subsection \<open>Parsing the interface number\<close>

text \<open>
  The loop of \<open>deal_eth0_ifindex\<close> over the rest of the buffer.  Only \<open>end\<close> is initialised by
  \<open>bool start, end = false\<close>: the value that \<open>start\<close> happens to have is a parameter.
\<close>

fun deal_loop :: "string \<Rightarrow> bool \<Rightarrow> bool \<Rightarrow> string \<Rightarrow> int \<Rightarrow> string res" where
  "deal_loop [] start end strVal j = Inr strVal"
| "deal_loop (c # cs) start end strVal j =
     (let start' = (if c = CHR ''@'' then True else start);
          end' = (if c = CHR ''@'' then end else if c = CHR '':'' then True else end)
      in if start' \<and> \<not> end' \<and> is_digit c
         then bindE (arr_set strVal j c) (\<lambda>v. deal_loop cs start' end' v (j + 1))
         else deal_loop cs start' end' strVal j)"

definition deal_eth0_ifindex :: "bool \<Rightarrow> string \<Rightarrow> int res" where
  "deal_eth0_ifindex start0 buffer =
     bindE (deal_loop (drop (length ''eth0'') buffer) start0 False (replicate 8 NUL) 0) (\<lambda>strVal.
     bindE (c_string strVal) (\<lambda>s. Inr (atoi s)))"

subsection \<open>The program\<close>

text \<open>An empty file leaves the buffer uninitialised, an empty string makes it read \<open>buffer[-1]\<close>.\<close>

definition read_iflink_or_ifindex_file :: "ns_kernel \<Rightarrow> string \<Rightarrow> int res ns_prog" where
  "read_iflink_or_ifindex_file K path = do {
     fp \<leftarrow> call K (Fopen path);
     if fp = 0 then do { printf ''fopen %s failed\<newline>'' [PStr path]; ret (Inr (- 1)) }
     else do {
       a \<leftarrow> sys K (Fgets fp);
       (case fgets 256 (snd a) of
          None \<Rightarrow> ret (Inl UninitRead)
        | Some l \<Rightarrow>
            if takeWhile (\<lambda>c. c \<noteq> NUL) l = [] then ret (Inl OutOfBounds)
            else do {
              call K (Fclose fp);
              ret (Inr (atoi (strip_nl (takeWhile (\<lambda>c. c \<noteq> NUL) l))))
            })
     }
   }"

definition veth_commands :: "string list" where
  "veth_commands = [''ip link show eth0 | grep eth0 | awk '' @ [CHR 0x27] @ ''{print $2}'' @ [CHR 0x27]]"

text \<open>The \<open>len\<close> bytes of the buffer that are parsed, with the newline overwritten.\<close>

definition cut_nl :: "string \<Rightarrow> string" where
  "cut_nl b = (if last b = NL then butlast b @ [NUL] else b)"

fun veth_loop :: "ns_kernel \<Rightarrow> bool \<Rightarrow> string list \<Rightarrow> int \<Rightarrow> int res ns_prog" where
  "veth_loop K start0 [] r = ret (Inr r)"
| "veth_loop K start0 (cmd # cmds) r = do {
     fp \<leftarrow> call K (Popen cmd);
     if fp = 0 then do { printf ''popen %s failed\<newline>'' [PStr cmd]; veth_loop K start0 cmds r }
     else do {
       a \<leftarrow> sys K (Fgets fp);
       let buf = read_line 64 (snd a);
       if buf = [] then do { call K (Pclose fp); veth_loop K start0 cmds r }
       else (case deal_eth0_ifindex start0 (cut_nl buf) of
          Inl e \<Rightarrow> ret (Inl e)
        | Inr v \<Rightarrow> do { call K (Pclose fp); veth_loop K start0 cmds v })
     }
   }"

definition obtain_veth_with_netns :: "ns_kernel \<Rightarrow> bool \<Rightarrow> string option \<Rightarrow> int res ns_prog" where
  "obtain_veth_with_netns K start0 netns = (case netns of
     None \<Rightarrow> ret (Inr (- 1))
   | Some p \<Rightarrow>
       if length p = 0 then ret (Inr (- 1))
       else do {
         cur_fd \<leftarrow> enter_netns K p;
         if cur_fd = - 1 then do { printf ''enter_netns function failed!\<newline>'' []; ret (Inr (- 1)) }
         else do {
           buffer \<leftarrow> call K (Malloc 64);
           if buffer = 0 then ret (Inl NullDeref)
           else tryE (veth_loop K start0 veth_commands (- 1)) (\<lambda>r. do {
             restore_netns K cur_fd;
             ret (Inr r)
           })
         }
       })"

text \<open>The loop over the directory; \<open>n\<close> bounds the entries that it reads.\<close>

fun dir_loop :: "ns_kernel \<Rightarrow> nat \<Rightarrow> int \<Rightarrow> int \<Rightarrow> string res ns_prog" where
  "dir_loop K 0 d iflink = ret (Inl OutOfFuel)"
| "dir_loop K (Suc n) d iflink = do {
     a \<leftarrow> sys K (Readdir d);
     if fst a = 0 then ret (Inr [])
     else if take 1 (snd a) = ''.'' \<or> take 2 (snd a) = ''..'' then dir_loop K n d iflink
     else if 256 \<le> length (''/sys/class/net/'' @ snd a @ ''/ifindex'') then ret (Inl OutOfBounds)
     else tryE (read_iflink_or_ifindex_file K (''/sys/class/net/'' @ snd a @ ''/ifindex'')) (\<lambda>ifindex.
       if iflink = ifindex then ret (Inr (take 256 (snd a)))
       else dir_loop K n d iflink)
   }"

definition find_nic :: "ns_kernel \<Rightarrow> nat \<Rightarrow> int \<Rightarrow> (int \<times> string) option res ns_prog" where
  "find_nic K n iflink = do {
     d \<leftarrow> call K (Opendir ''/sys/class/net'');
     if d = 0 then do { printf ''opendir %s failed\<newline>'' [PStr ''/sys/class/net'']; ret (Inr None) }
     else do {
       nic_name \<leftarrow> call K (Malloc 256);
       if nic_name = 0 then ret (Inl NullDeref)
       else tryE (dir_loop K n d iflink) (\<lambda>name. do {
         call K (Closedir d);
         ret (Inr (Some (nic_name, name)))
       })
     }
   }"

definition obtain_container_veth ::
  "ns_kernel \<Rightarrow> nat \<Rightarrow> bool \<Rightarrow> string \<Rightarrow> string option \<Rightarrow> (int \<times> string) option res ns_prog" where
  "obtain_container_veth K n start0 mntns netns =
     tryE (obtain_veth_with_netns K start0 netns) (\<lambda>iflink.
       if iflink = - 1 then do {
         printf ''_obtain_veth_with_netns function failed\<newline>'' [];
         cur_fd \<leftarrow> enter_mntns K mntns;
         if cur_fd = - 1 then do { printf ''enter_mntns function failed\<newline>'' []; ret (Inr None) }
         else tryE (read_iflink_or_ifindex_file K ''/sys/class/net/eth0/iflink'') (\<lambda>iflink.
           if iflink \<le> 0 then do {
             printf ''read_iflink_or_ifindex_file function failed\<newline>'' [];
             ret (Inr None) }
           else do {
             restore_mntns K cur_fd;
             find_nic K n iflink })
       }
       else find_nic K n iflink)"

definition veth_main :: "ns_kernel \<Rightarrow> nat \<Rightarrow> bool \<Rightarrow> int res ns_prog" where
  "veth_main K n start0 =
     tryE (obtain_container_veth K n start0 ''/proc/6242/ns/mnt'' (Some ''/proc/6242/ns/net'')) (\<lambda>veth. do {
       printf ''veth:%s\<newline>'' [PStr (case veth of None \<Rightarrow> ''(null)'' | Some (_, s) \<Rightarrow> s)];
       (case veth of None \<Rightarrow> ret () | Some (p, _) \<Rightarrow> do { call K (Free p); ret () });
       ret (Inr 0)
     })"

subsection \<open>Parsing back an interface number\<close>

lemma deal_loop_digits:
  assumes "\<forall>c\<in>set ds. is_digit c" and "length xs + length ds \<le> length strVal"
    and "take (length xs) strVal = xs"
  shows "deal_loop (ds @ cs) True False strVal (int (length xs)) =
    deal_loop cs True False (xs @ ds @ drop (length xs + length ds) strVal) (int (length xs + length ds))"
  using assms
proof (induction ds arbitrary: xs strVal)
  case Nil
  then show ?case by (metis add.right_neutral append_Nil append_take_drop_id list.size(3))
next
  case (Cons d ds)
  let ?v = "strVal[length xs := d]"
  have d: "is_digit d" "d \<noteq> CHR ''@''" "d \<noteq> CHR '':''" using Cons.prems(1) by (auto simp: is_digit_def)
  have n: "length xs < length strVal" using Cons.prems(2) by simp
  have t: "take (length (xs @ [d])) ?v = xs @ [d]"
    using Cons.prems(3) n by (simp add: take_Suc_conv_app_nth)
  have "deal_loop (ds @ cs) True False ?v (int (length (xs @ [d]))) =
    deal_loop cs True False ((xs @ [d]) @ ds @ drop (length (xs @ [d]) + length ds) ?v) (int (length (xs @ [d]) + length ds))"
    by (rule Cons.IH [OF _ _ t]) (use Cons.prems in simp_all)
  then show ?case using d n by (simp add: Let_def c_simps add.commute)
qed

lemma deal_loop_full:
  assumes "\<forall>c\<in>set ds. is_digit c" and "length strVal < j + length ds" and "j \<le> length strVal"
  shows "deal_loop (ds @ cs) True False strVal (int j) = Inl OutOfBounds"
  using assms
proof (induction ds arbitrary: j strVal)
  case (Cons d ds)
  have d: "is_digit d" "d \<noteq> CHR ''@''" "d \<noteq> CHR '':''" using Cons.prems(1) by (auto simp: is_digit_def)
  show ?case
  proof (cases "j < length strVal")
    case True
    have "deal_loop (ds @ cs) True False (strVal[j := d]) (int (Suc j)) = Inl OutOfBounds"
      by (rule Cons.IH) (use Cons.prems True in simp_all)
    then show ?thesis using d True by (simp add: Let_def c_simps add.commute)
  next
    case False
    then show ?thesis using d by (simp add: Let_def arr_set_def)
  qed
qed simp

lemma deal_loop_end: "\<forall>c\<in>set cs. c \<noteq> CHR ''@'' \<Longrightarrow> deal_loop cs start True strVal j = Inr strVal"
  by (induction cs arbitrary: start) (simp_all add: Let_def)

lemma deal_eth0_result:
  "deal_eth0_ifindex start0 (''eth0@if'' @ dec n @ '':'' @ [NUL]) =
     (if n < 10000000 then Inr (int n) else Inl OutOfBounds)"
proof -
  let ?rest = "'':'' @ [NUL]" and ?v = "replicate 8 NUL"
  have d: "\<forall>c\<in>set (dec n). is_digit c" using dec_digits by blast
  have head: "deal_loop (drop (length ''eth0'') (''eth0@if'' @ dec n @ ?rest)) start0 False ?v 0
      = deal_loop (dec n @ ?rest) True False ?v (int 0)"
    by (simp add: Let_def is_digit_def)
  have tail: "deal_loop ?rest True False v j = Inr v" for v j
    by (simp add: Let_def is_digit_def NUL_def)
  show ?thesis
  proof (cases "length (dec n) \<le> 8")
    case True
    have run: "deal_loop (dec n @ ?rest) True False ?v (int 0) = Inr (dec n @ replicate (8 - length (dec n)) NUL)"
      using deal_loop_digits [OF d, of "[]" ?v ?rest] True tail by simp
    show ?thesis
    proof (cases "n < 10000000")
      case n: True
      then have "length (dec n) \<le> 7" by (intro length_dec_le) simp_all
      then obtain k where k: "8 - length (dec n) = Suc k" by (cases "8 - length (dec n)") simp_all
      have "takeWhile (\<lambda>c. c \<noteq> NUL) (dec n @ replicate (Suc k) NUL) = dec n"
        using NUL_not_dec [of n] by (subst takeWhile_append2) auto
      then have "c_string (dec n @ replicate (8 - length (dec n)) NUL) = Inr (dec n)"
        unfolding k by (simp add: c_string_def)
      then show ?thesis using n atoi_dec [of n] by (simp only: deal_eth0_ifindex_def head run) simp
    next
      case n: False
      then have "7 < length (dec n)" by (intro length_dec_gt) simp
      then have "8 - length (dec n) = 0" by simp
      then show ?thesis using n
        by (simp only: deal_eth0_ifindex_def head run) (simp add: c_string_def)
    qed
  next
    case False
    then have "\<not> n < 10000000" using length_dec_le [of n 7] by auto
    moreover have "deal_loop (dec n @ ?rest) True False ?v (int 0) = Inl OutOfBounds"
      by (rule deal_loop_full [OF d]) (use False in simp_all)
    ultimately show ?thesis by (simp only: deal_eth0_ifindex_def head) simp
  qed
qed

text \<open>
  The function deal_eth0_ifindex reads back the interface number of any name eth0@ifN: as ip link prints
  it, whatever the uninitialised flag holds, for every number of at most seven digits; on a
  longer number it writes or reads beyond its 8-byte buffer.
\<close>
theorem deal_eth0_roundtrip:
  "deal_eth0_ifindex start0 (''eth0@if'' @ dec n @ '':'' @ [NUL]) =
     (if n < 10000000 then Inr (int n) else Inl OutOfBounds)"
  by (rule deal_eth0_result)

subsection \<open>What the program leaves behind\<close>

text \<open>The parts between the namespace switches are tidy, unless they reach undefined behaviour.\<close>

definition tidyE :: "ns_hist \<Rightarrow> 'r res \<Rightarrow> ns_hist \<Rightarrow> bool" where
  "tidyE h r h' \<longleftrightarrow> (case r of Inl e \<Rightarrow> True | Inr _ \<Rightarrow> tidy h h')"

lemma tidyE_trans: "tidy h h' \<Longrightarrow> tidyE h' r h'' \<Longrightarrow> tidyE h r h''"
  by (auto simp: tidyE_def split: sum.splits intro: tidy_trans)

lemma tidyE_simps [simp]: "tidyE h (Inl e) h'" "tidyE h (Inr x) h' = tidy h h'"
  by (simp_all add: tidyE_def)

lemmas tidy_simps = tidy_def ns_simps ns_step_def

lemma read_iflink_wp:
  "(\<And>r w'. tidyE (calls w) r (calls w') \<Longrightarrow> Q r w') \<Longrightarrow> wp (read_iflink_or_ifindex_file K path) Q w"
  unfolding read_iflink_or_ifindex_file_def
  by (intro ns_quiet) (simp_all add: tidy_simps)

lemma veth_loop_wp:
  "(\<And>r w'. tidyE (calls w) r (calls w') \<Longrightarrow> Q r w') \<Longrightarrow> wp (veth_loop K start0 cmds r0) Q w"
proof (induction cmds arbitrary: r0 w)
  case Nil
  then show ?case by (simp add: wp_def tidy_def)
next
  case (Cons cmd cmds)
  show ?case
    unfolding veth_loop.simps Let_def
    by (intro ns_quiet Cons.IH Cons.prems; (erule tidyE_trans [rotated])?) (simp_all add: tidy_simps)
qed

lemma dir_loop_wp:
  "(\<And>r w'. tidyE (calls w) r (calls w') \<Longrightarrow> Q r w') \<Longrightarrow> wp (dir_loop K n d iflink) Q w"
proof (induction n arbitrary: w Q)
  case 0
  then show ?case by (simp add: wp_def)
next
  case (Suc n)
  let ?P = "\<lambda>r w'. tidyE (calls w) r (calls w')"
  have "wp (dir_loop K (Suc n) d iflink) ?P w"
    unfolding dir_loop.simps
    apply (rule wp_bind, rule wp_sys, rule wp_if, (intro ns_quiet)[1], simp add: tidy_simps)
    apply (rule wp_if, rule Suc.IH, erule tidyE_trans [rotated], simp add: tidy_simps)
    apply (rule wp_if, (intro ns_quiet)[1], simp)
    apply (rule wp_tryE, rule read_iflink_wp)
    subgoal for a r w'
      apply (cases r)
       apply simp
      apply simp
      apply (intro conjI impI)
       apply (rule wp_ret, simp add: tidy_simps)
      apply (rule Suc.IH)
      apply (erule tidyE_trans [rotated])
      apply (simp add: tidy_simps)
      done
    done
  then show ?case by (rule wp_mono) (rule Suc.prems)
qed

lemma find_nic_wp:
  assumes "\<And>r w'. (\<And>x. r = Inr x \<Longrightarrow> fds (calls w') = fds (calls w) \<and> streams (calls w') = streams (calls w)
      \<and> ns_after (calls w') = ns_after (calls w)
      \<and> blocks (calls w') = blocks (calls w) + (case x of None \<Rightarrow> {#} | Some (p, _) \<Rightarrow> {#p#})) \<Longrightarrow> Q r w'"
  shows "wp (find_nic K n iflink) Q w"
  unfolding find_nic_def
  apply (rule wp_bind, rule wp_call, rule wp_if, (intro ns_quiet)[1], rule assms)
   apply (simp add: tidy_simps)
  apply (rule wp_bind, rule wp_call, rule wp_if, (intro ns_quiet)[1], rule assms)
   apply simp
  apply (rule wp_tryE, rule dir_loop_wp)
  subgoal for a b r w'
    by (cases r) (auto intro!: assms wp_bind wp_call wp_ret simp: tidy_simps)
  done

lemma obtain_veth_wp:
  assumes K: "fresh_fds K" and p: "netns \<noteq> Some ''/proc/self/ns/net''" "netns \<noteq> Some ''/proc/self/ns/mnt''"
    and w: "back_home (calls w)"
    and Q: "\<And>r w'. (\<And>x. r = Inr x \<Longrightarrow> fds (calls w') = fds (calls w) \<and> streams (calls w') = streams (calls w)
      \<and> back_home (calls w') \<and> (\<exists>M. blocks (calls w') = blocks (calls w) + M \<and> size M \<le> 1)) \<Longrightarrow> Q r w'"
  shows "wp (obtain_veth_with_netns K start0 netns) Q w"
proof (cases netns)
  case None
  then show ?thesis
    by (auto simp: obtain_veth_with_netns_def intro!: wp_ret Q w exI [of _ "{#}"])
next
  case (Some q)
  then have q: "q \<noteq> ''/proc/self/ns/net''" "q \<noteq> ''/proc/self/ns/mnt''" using p by auto
  show ?thesis
    unfolding obtain_veth_with_netns_def Some option.case enter_netns_as restore_netns_as
    apply (rule wp_if, rule wp_ret, rule Q, use w in \<open>auto intro: exI [of _ "{#}"]\<close>)
    apply (rule wp_bind, rule enter_ns_wp [OF K q])
    apply (rule wp_if, (intro ns_quiet)[1], rule Q)
    subgoal for r w'
      using w by (auto simp: entered_def dest: not_entered_home intro: exI [of _ "{#}"])
    apply (rule wp_bind, rule wp_call, rule wp_if, (intro ns_quiet)[1], rule Q, simp)
    apply (rule wp_tryE, rule veth_loop_wp)
    subgoal for r w' a r2 w2
      apply (cases r2)
       apply (simp, rule Q, simp)
      apply (simp, rule wp_bind, rule restore_ns_wp, rule wp_ret, rule Q)
      apply (frule there_and_back [OF w])
          apply (simp_all add: tidy_simps)
      apply (auto simp: tidy_simps entered_def)
      done
    done
qed

text \<open>
  C24: when obtain_container_veth returns a name, it has closed every descriptor, pipe, file and
  directory that it opened and is in the namespaces it started in, each of them unless the kernel
  refused the setns that leads back to it: the network namespace is not excused by a refusal of
  the mount namespace, nor either by a refusal to let the process in; it owns the block it returns and leaks at most one more, the buffer of
  the parsed line.
\<close>
theorem container_veth_restores:
  assumes "fresh_fds K" and "netns \<noteq> Some ''/proc/self/ns/net''" and "netns \<noteq> Some ''/proc/self/ns/mnt''"
    and "mntns \<noteq> ''/proc/self/ns/net''" and "mntns \<noteq> ''/proc/self/ns/mnt''"
    and "result (obtain_container_veth K n start0 mntns netns) init_world = Inr (Some (p, s))"
    and "h = calls (exec (obtain_container_veth K n start0 mntns netns) init_world)"
  shows "fds h = {#} \<and> streams h = {#} \<and> (\<forall>ty. cur (ns_after h) ty = ''host'' \<or> ty \<in> stuck (ns_after h))
    \<and> p \<in># blocks h \<and> size (blocks h) \<le> 2"
proof -
  let ?Q = "\<lambda>x w. \<forall>p s. x = Inr (Some (p, s)) \<longrightarrow> fds (calls w) = {#} \<and> streams (calls w) = {#}
    \<and> back_home (calls w) \<and> p \<in># blocks (calls w) \<and> size (blocks (calls w)) \<le> 2"
  have nic: "wp (find_nic K n iflink) ?Q w" if "fds (calls w) = {#}" "streams (calls w) = {#}" "back_home (calls w)"
    "size (blocks (calls w)) \<le> 1" for iflink w
    by (rule find_nic_wp) (use that in \<open>auto simp: back_home_def\<close>)
  have home: "back_home (calls init_world)" by (simp add: home_start)
  have "wp (obtain_container_veth K n start0 mntns netns) ?Q init_world"
    unfolding obtain_container_veth_def enter_netns_as restore_netns_as
    apply (rule wp_tryE, rule obtain_veth_wp [OF assms(1-3) home])
    subgoal for r w
      apply (cases r, simp, simp only: sum.case)
      apply (rule wp_if)
       apply (rule wp_bind, rule wp_printf, rule wp_bind)
       apply (subst enter_mntns_as, rule enter_ns_wp [OF assms(1,4,5)])
      subgoal for r2 r3 w2
        apply (rule wp_if, (intro ns_quiet)[1], simp)
        apply (rule wp_tryE, rule read_iflink_wp)
        subgoal for r4 w3
          apply (cases r4, simp, simp only: sum.case)
          apply (rule wp_if, (intro ns_quiet)[1], simp)
          apply (rule wp_bind, subst restore_mntns_as, rule restore_ns_wp, rule nic)
             apply (auto simp: entered_def tidy_def intro: there_and_back)
          done
        done
      apply (rule nic, auto)
      done
    done
  then show ?thesis using assms(6,7) by (simp add: wp_def back_home_def)
qed

text \<open>
  The way through the mount namespace has an exit that stays there: when the container's
  iflink file cannot be opened, obtain_container_veth returns NULL in the container's mount
  namespace, with the descriptor of its own one still open.
\<close>
theorem veth_mount_failure_stays_inside:
  assumes "fresh_fds K" and "mntns \<noteq> ''/proc/self/ns/net''" and "mntns \<noteq> ''/proc/self/ns/mnt''"
    and "\<forall>h p. fst (K h (Open p)) \<noteq> - 1" and "\<forall>h fd. fst (K h (Setns fd CLONE_NEWNS)) \<noteq> - 1"
    and "\<forall>h. fst (K h (Fopen ''/sys/class/net/eth0/iflink'')) = 0"
    and "h = calls (exec (obtain_container_veth K n start0 mntns None) init_world)"
  shows "result (obtain_container_veth K n start0 mntns None) init_world = Inr None
    \<and> size (fds h) = 1 \<and> cur (ns_after h) CLONE_NEWNS = mntns"
proof -
  define w1 where "w1 = (\<lparr>calls = [], out = [(''_obtain_veth_with_netns function failed\<newline>'', [])]\<rparr> :: (ns_call, ns_ans) world)"
  define r where "r = result (enter_mntns K mntns) w1"
  define w2 where "w2 = exec (enter_mntns K mntns) w1"
  have "wp (enter_ns K CLONE_NEWNS mntns) (\<lambda>r w'. entered CLONE_NEWNS mntns (calls w1) r (calls w')) w1"
    by (rule enter_ns_wp [OF assms(1-3)])
  then have e: "entered CLONE_NEWNS mntns (calls w1) r (calls w2)"
    unfolding r_def w2_def enter_mntns_as by (rule wpD)
  have r: "r \<noteq> - 1" using assms(4,5) by (simp add: r_def enter_mntns_def call_def)
  have "fds (calls w1) = {#}" by (simp add: w1_def)
  with e r have w2: "fds (calls w2) = {#r#}" "cur (ns_after (calls w2)) CLONE_NEWNS = mntns"
    by (simp_all add: entered_def)
  have "result (obtain_container_veth K n start0 mntns None) init_world = Inr None"
    "calls (exec (obtain_container_veth K n start0 mntns None) init_world)
      = calls w2 @ [(Fopen ''/sys/class/net/eth0/iflink'', K (calls w2) (Fopen ''/sys/class/net/eth0/iflink''))]"
    using r assms(6)
    by (simp_all add: obtain_container_veth_def obtain_veth_with_netns_def read_iflink_or_ifindex_file_def
        call_def w1_def [symmetric] r_def [symmetric] w2_def [symmetric])
  then show ?thesis using w2 by (simp add: assms(7) ns_simps ns_step_def)
qed

subsection \<open>Which interface it finds\<close>

text \<open>
  What a working host looks like to the program: the container's \<open>ip link\<close> prints
  \<open>eth0@ifN:\<close>, \<open>readdir\<close> delivers the names \<open>ns\<close> one after the other, and the file of each
  interface holds its number.
\<close>

definition reads :: "int \<Rightarrow> ns_hist \<Rightarrow> nat" where
  "reads d h = length (filter (\<lambda>(c, _). c = Readdir d) h)"

definition index_path :: "string \<Rightarrow> string" where
  "index_path x = ''/sys/class/net/'' @ x @ ''/ifindex''"

definition hidden :: "string \<Rightarrow> bool" where
  "hidden x \<longleftrightarrow> take 1 x = ''.'' \<or> take 2 x = ''..''"

definition host_dir :: "ns_kernel \<Rightarrow> int \<Rightarrow> string list \<Rightarrow> (string \<Rightarrow> nat) \<Rightarrow> bool" where
  "host_dir K d ns ifx \<longleftrightarrow>
     (\<forall>h. K h (Readdir d) = (if reads d h < length ns then (1, ns ! reads d h) else (0, [])))
     \<and> (\<forall>x\<in>set ns. length x \<le> 200 \<and> ifx x < 2147483648 \<and> (\<exists>fp. fp \<noteq> 0
          \<and> (\<forall>h. fst (K h (Fopen (index_path x))) = fp) \<and> (\<forall>h. snd (K h (Fgets fp)) = dec (ifx x) @ [NL])))"

lemma read_iflink_result:
  assumes "fp \<noteq> 0" and "\<forall>h. fst (K h (Fopen p)) = fp" and "\<forall>h. snd (K h (Fgets fp)) = dec k @ [NL]"
    and "k < 2147483648"
  shows "result (read_iflink_or_ifindex_file K p) w = Inr (int k)"
    and "reads d (calls (exec (read_iflink_or_ifindex_file K p) w)) = reads d (calls w)"
proof -
  have "length (dec k) \<le> 10" using assms(4) by (intro length_dec_le) simp_all
  then have f: "fgets 256 (dec k @ [NL]) = Some (dec k @ [NL])" by (intro fgets_line) simp_all
  have t: "takeWhile (\<lambda>c. c \<noteq> NUL) (dec k @ [NL]) = dec k @ [NL]"
    using NUL_not_dec [of k] by (subst takeWhile_append2) auto
  show "result (read_iflink_or_ifindex_file K p) w = Inr (int k)"
    using assms by (simp add: read_iflink_or_ifindex_file_def call_def f t strip_nl_def atoi_dec)
  show "reads d (calls (exec (read_iflink_or_ifindex_file K p) w)) = reads d (calls w)"
    using assms by (simp add: read_iflink_or_ifindex_file_def call_def f t reads_def)
qed

lemma dir_loop_result:
  assumes K: "host_dir K d ns ifx" and "length ns - reads d (calls w) < n"
  shows "result (dir_loop K n d iflink) w = Inr (case find (\<lambda>x. \<not> hidden x \<and> int (ifx x) = iflink) (drop (reads d (calls w)) ns) of
      None \<Rightarrow> [] | Some x \<Rightarrow> x)"
  using assms(2)
proof (induction n arbitrary: w)
  case (Suc n)
  let ?k = "reads d (calls w)"
  have rd: "K (calls w) (Readdir d) = (if ?k < length ns then (1, ns ! ?k) else (0, []))"
    using K by (simp add: host_dir_def)
  show ?case
  proof (cases "?k < length ns")
    case False
    then show ?thesis using rd by simp
  next
    case True
    define x where "x = ns ! ?k"
    have x: "x \<in> set ns" "drop ?k ns = x # drop (Suc ?k) ns" using True by (simp_all add: x_def Cons_nth_drop_Suc)
    from K x(1) obtain fp where fp: "fp \<noteq> 0" "\<forall>h. fst (K h (Fopen (index_path x))) = fp"
      "\<forall>h. snd (K h (Fgets fp)) = dec (ifx x) @ [NL]" and small: "length x \<le> 200" "ifx x < 2147483648"
      by (auto simp: host_dir_def)
    let ?w = "w\<lparr>calls := calls w @ [(Readdir d, (1, x))]\<rparr>"
    note ri = read_iflink_result [OF fp small(2)]
    have k1: "reads d (calls ?w) = Suc ?k" by (simp add: reads_def)
    have IH: "result (dir_loop K n d iflink) w' = Inr (case find (\<lambda>x. \<not> hidden x \<and> int (ifx x) = iflink) (drop (Suc ?k) ns) of
      None \<Rightarrow> [] | Some x \<Rightarrow> x)" if "reads d (calls w') = Suc ?k" for w'
      using Suc.IH [of w'] Suc.prems True that by simp
    have run: "result (dir_loop K (Suc n) d iflink) w =
        (if hidden x then result (dir_loop K n d iflink) ?w
         else if int (ifx x) = iflink then Inr x
         else result (dir_loop K n d iflink) (exec (read_iflink_or_ifindex_file K (index_path x)) ?w))"
      using True rd small(1) ri(1) [unfolded index_path_def]
      by (simp add: x_def [symmetric] hidden_def index_path_def)
    show ?thesis
      unfolding run x(2) using IH [OF k1] IH [OF ri(2) [where w = ?w and d = d, unfolded k1]] by simp
  qed
qed simp

text \<open>
  C23: the program finds the peer of the container's interface.  On a working host it returns, in
  directory order, the first interface whose number is the N of the container's eth0@ifN; when no
  interface has that number it returns an empty name, not NULL.  The name is in a block that malloc
  returned, wherever that is: malloc is only required to answer every request.
\<close>
theorem container_veth_finds_peer:
  assumes "\<forall>h p. fst (K h (Open p)) \<noteq> - 1" and "\<forall>h fd. fst (K h (Setns fd CLONE_NEWNET)) \<noteq> - 1"
    and "\<forall>h k. fst (K h (Malloc k)) \<noteq> 0"
    and "\<forall>h c. fst (K h (Popen c)) = pp" and "pp \<noteq> 0"
    and "\<forall>h. snd (K h (Fgets pp)) = ''eth0@if'' @ dec N @ '':'' @ [NL]" and "N < 10000000"
    and "\<forall>h. fst (K h (Opendir ''/sys/class/net'')) = d" and "d \<noteq> 0" and "host_dir K d ns ifx" and "length ns < n"
    and "netns \<noteq> []"
  shows "\<exists>p. p \<noteq> 0 \<and> result (obtain_container_veth K n start0 mntns (Some netns)) init_world =
    Inr (Some (p, case find (\<lambda>x. \<not> hidden x \<and> ifx x = N) ns of None \<Rightarrow> [] | Some x \<Rightarrow> x))"
proof -
  have nl: "NL \<notin> set (''eth0@if'' @ dec N @ '':'')" "NUL \<notin> set (''eth0@if'' @ dec N @ '':'')"
    using NL_not_dec [of N, unfolded NL_def] NUL_not_dec [of N, unfolded NUL_def] by (simp_all add: NL_def NUL_def)
  define L where "L = ''eth0@if'' @ dec N @ '':'' @ [NL]"
  have fg: "\<forall>h. snd (K h (Fgets pp)) = L" using assms(6) unfolding L_def .
  have "length (dec N) \<le> 7" using assms(7) by (intro length_dec_le) simp_all
  then have rl: "read_line 64 L = L"
    unfolding L_def using read_line_line [of "''eth0@if'' @ dec N @ '':''" 64, OF nl] by simp
  have "cut_nl L = ''eth0@if'' @ dec N @ '':'' @ [NUL]"
    by (simp add: cut_nl_def butlast_append L_def)
  then have deal: "deal_eth0_ifindex start0 (cut_nl L) = Inr (int N)"
    using deal_eth0_result [of start0 N] assms(7) by simp
  have ne: "L \<noteq> []" by (simp add: L_def)
  have en: "result (enter_netns K netns) w \<noteq> - 1" "reads d (calls (exec (enter_netns K netns) w)) = reads d (calls w)" for w
    using assms(1,2) by (simp_all add: enter_netns_def call_def reads_def)
  have re: "reads d (calls (exec (restore_netns K fd) w)) = reads d (calls w)" for fd w
    by (simp add: restore_netns_def call_def reads_def)
  have "result (veth_loop K start0 [c] r) w = Inr (int N)"
    "reads d (calls (exec (veth_loop K start0 [c] r) w)) = reads d (calls w)" for c r w
    using assms(4,5) fg deal ne by (simp_all add: call_def Let_def rl reads_def)
  then have vl: "result (veth_loop K start0 veth_commands r) w = Inr (int N)"
    "reads d (calls (exec (veth_loop K start0 veth_commands r) w)) = reads d (calls w)" for r w
    unfolding veth_commands_def by blast+
  let ?ov = "obtain_veth_with_netns K start0 (Some netns)"
  have ov: "result ?ov init_world = Inr (int N)" "reads d (calls (exec ?ov init_world)) = 0"
    using assms(3,12) en vl re
    by (simp_all add: obtain_veth_with_netns_def call_def) (simp_all add: reads_def)
  have dl: "result (dir_loop K n d (int N)) w
      = Inr (case find (\<lambda>x. \<not> hidden x \<and> ifx x = N) ns of None \<Rightarrow> [] | Some x \<Rightarrow> x)"
    if "reads d (calls w) = 0" for w
    using dir_loop_result [OF assms(10), of w n "int N"] that assms(11) by simp
  have nic: "\<exists>p. p \<noteq> 0 \<and> result (find_nic K n (int N)) w
      = Inr (Some (p, case find (\<lambda>x. \<not> hidden x \<and> ifx x = N) ns of None \<Rightarrow> [] | Some x \<Rightarrow> x))"
    if "reads d (calls w) = 0" for w
  proof -
    have "reads d (calls w @ [(Opendir ''/sys/class/net'', x), (Malloc 256, y)]) = 0" for x y
      using that by (simp add: reads_def)
    then show ?thesis using assms(3,8,9) by (simp add: find_nic_def call_def dl)
  qed
  show ?thesis using ov nic by (simp add: obtain_container_veth_def)
qed

subsection \<open>Instances\<close>

theorem container_veth_restores_witness:
  "let h = calls (exec (obtain_container_veth (fresh_kernel (\<lambda>_. ''eth0@if'' @ dec 10 @ '':'' @ [NL])) 5 False
      ''/proc/9/ns/mnt'' (Some ''/proc/9/ns/net'')) init_world)
   in fds h = {#} \<and> streams h = {#} \<and> (\<forall>ty. cur (ns_after h) ty = ''host'' \<or> ty \<in> stuck (ns_after h))
    \<and> 16384 \<in># blocks h \<and> size (blocks h) \<le> 2"
proof -
  define L where "L = ''eth0@if'' @ dec 10 @ '':'' @ [NL]"
  let ?K = "fresh_kernel (\<lambda>_. L)"
  have "NL \<notin> set (''eth0@if'' @ dec 10 @ '':'')" "NUL \<notin> set (''eth0@if'' @ dec 10 @ '':'')"
    using NL_not_dec [of 10, unfolded NL_def] NUL_not_dec [of 10, unfolded NUL_def] by (simp_all add: NL_def NUL_def)
  then have rl: "read_line 64 L = L"
    unfolding L_def using read_line_line [of "''eth0@if'' @ dec 10 @ '':''" 64] length_dec_le [of 10 2] by simp
  have "cut_nl L = ''eth0@if'' @ dec 10 @ '':'' @ [NUL]" by (simp add: cut_nl_def butlast_append L_def)
  then have deal: "deal_eth0_ifindex False (cut_nl L) = Inr 10" using deal_eth0_result [of False 10] by simp
  have ne: "L \<noteq> []" by (simp add: L_def)
  have "result (veth_loop ?K False [c] (- 1)) w = Inr 10" for c w
    using rl deal ne by (simp add: call_def fresh_kernel_def Let_def)
  then have "result (obtain_veth_with_netns ?K False (Some ''/proc/9/ns/net'')) init_world = Inr 10"
    by (simp add: obtain_veth_with_netns_def enter_netns_def call_def veth_commands_def fresh_kernel_def del: veth_loop.simps)
  moreover have dl: "result (dir_loop ?K 5 d i) w = Inr []" for d i w
    using dir_loop.simps(2) [of ?K 4 d i] by (simp add: fresh_kernel_def)
  ultimately have "result (obtain_container_veth ?K 5 False ''/proc/9/ns/mnt'' (Some ''/proc/9/ns/net'')) init_world
      = Inr (Some (16384, []))"
    using dl by (simp add: obtain_container_veth_def find_nic_def call_def fresh_kernel_def)
  from container_veth_restores [OF fresh_kernel_fresh _ _ _ _ this refl] show ?thesis
    unfolding Let_def L_def by simp
qed

definition no_file_kernel :: ns_kernel where
  "no_file_kernel h c = (case c of Fopen _ \<Rightarrow> (0, []) | _ \<Rightarrow> fresh_kernel (\<lambda>_. []) h c)"

theorem veth_mount_failure_stays_inside_witness:
  "let w = exec (obtain_container_veth no_file_kernel 5 False ''/proc/9/ns/mnt'' None) init_world
   in result (obtain_container_veth no_file_kernel 5 False ''/proc/9/ns/mnt'' None) init_world = Inr None
    \<and> size (fds (calls w)) = 1 \<and> cur (ns_after (calls w)) CLONE_NEWNS = ''/proc/9/ns/mnt''"
proof -
  have "0 \<le> sum_list (map (\<lambda>(c, a). \<bar>fst a\<bar>) h)" for h :: ns_hist by (rule sum_list_nonneg) auto
  then have nonneg: "1 + sum_list (map (\<lambda>(c, a). \<bar>fst a\<bar>) h) \<noteq> - 1" for h :: ns_hist by (metis add_nonneg_nonneg neg_0_le_iff_le not_one_le_zero zero_le_one)
  have "fresh_fds no_file_kernel"
    using fresh_kernel_fresh [of "\<lambda>_. []"] by (simp add: fresh_fds_def no_file_kernel_def)
  then show ?thesis
    unfolding Let_def
    by (rule veth_mount_failure_stays_inside) (simp_all add: no_file_kernel_def fresh_kernel_def nonneg)
qed

text \<open>A host whose descriptors and blocks are new ones at every call.\<close>

definition peer_kernel :: ns_kernel where
  "peer_kernel h c = (case c of
       Open _ \<Rightarrow> (3 + int (length h), []) | Malloc _ \<Rightarrow> (4096 + 512 * int (length h), [])
     | Popen _ \<Rightarrow> (1, []) | Opendir _ \<Rightarrow> (2, [])
     | Readdir d \<Rightarrow> if reads d h < 3 then (1, [''.'', ''lo'', ''veth1''] ! reads d h) else (0, [])
     | Fopen p \<Rightarrow> (if p = index_path ''lo'' then 11 else 12, [])
     | Fgets fp \<Rightarrow> (0, if fp = 1 then ''eth0@if'' @ dec 10 @ '':'' @ [NL] else if fp = 11 then dec 1 @ [NL] else dec 10 @ [NL])
     | _ \<Rightarrow> (0, []))"

theorem container_veth_finds_peer_witness:
  "\<exists>p. p \<noteq> 0 \<and> result (obtain_container_veth peer_kernel 4 True [] (Some ''/proc/9/ns/net'')) init_world =
    Inr (Some (p, case find (\<lambda>x. \<not> hidden x \<and> (if x = ''lo'' then 1 else 10) = (10::nat)) [''.'', ''lo'', ''veth1''] of
      None \<Rightarrow> [] | Some x \<Rightarrow> x))"
proof (rule container_veth_finds_peer [where pp = 1 and d = 2])
  show "host_dir peer_kernel 2 [''.'', ''lo'', ''veth1''] (\<lambda>x. if x = ''lo'' then 1 else 10)"
    by (auto simp: host_dir_def peer_kernel_def index_path_def)
qed (simp_all add: peer_kernel_def)

end
