(* ===== verification/ArrayTemplate.thy ===== *)
theory ArrayTemplate
  imports CString "HOL-Library.Multiset"
begin

section \<open>The array template (\<open>CPlusPlusThings/practical_exercises/array_template.cpp\<close>)\<close>

text \<open>
  A class template of arrays of five elements with a checked index and a selection sort, which
  compares by \<open><\<close> in general and by \<open>strcmp\<close> for \<open>char *\<close>.  An array is a list of \<open>MAXSIZE\<close>
  elements; a \<open>char *\<close> is an address and \<open>mem\<close> the strings in memory.
\<close>

definition MAXSIZE :: nat where
  "MAXSIZE = 5"

definition Array :: "'a \<Rightarrow> 'a list" where
  "Array zero = replicate MAXSIZE zero"

text \<open>\<open>operator[]\<close>: \<open>None\<close> is the exit of the program after its message.\<close>

definition index :: "'a list \<Rightarrow> int \<Rightarrow> 'a option res" where
  "index a i =
     (if i < 0 \<or> i > int MAXSIZE then Inr None
      else bindE (arr_get a i) (\<lambda>x. Inr (Some x)))"

definition index_set :: "'a list \<Rightarrow> int \<Rightarrow> 'a \<Rightarrow> 'a list option res" where
  "index_set a i x =
     (if i < 0 \<or> i > int MAXSIZE then Inr None
      else bindE (arr_set a i x) (\<lambda>a'. Inr (Some a')))"

text \<open>\<open>Sort\<close>: the inner loop finds the place of a maximum behind \<open>i\<close>, the outer one swaps it there.\<close>

function find_max :: "('a \<Rightarrow> 'a \<Rightarrow> bool res) \<Rightarrow> 'a list \<Rightarrow> nat \<Rightarrow> nat \<Rightarrow> nat res" where
  "find_max below a p j =
     (if j < MAXSIZE
      then bindE (arr_get a (int p)) (\<lambda>x. bindE (arr_get a (int j)) (\<lambda>y. bindE (below x y) (\<lambda>b.
             find_max below a (if b then j else p) (j + 1))))
      else Inr p)"
  by pat_completeness auto
termination by (relation "measure (\<lambda>(below, a, p, j). MAXSIZE - j)") auto

function sort_loop :: "('a \<Rightarrow> 'a \<Rightarrow> bool res) \<Rightarrow> 'a list \<Rightarrow> nat \<Rightarrow> 'a list res" where
  "sort_loop below a i =
     (if i < MAXSIZE
      then bindE (find_max below a i (i + 1)) (\<lambda>p.
           bindE (arr_get a (int i)) (\<lambda>t.
           bindE (arr_get a (int p)) (\<lambda>x.
           bindE (arr_set a (int i) x) (\<lambda>a1.
           bindE (arr_set a1 (int p) t) (\<lambda>a2. sort_loop below a2 (i + 1))))))
      else Inr a)"
  by pat_completeness auto
termination by (relation "measure (\<lambda>(below, a, i). MAXSIZE - i)") auto

declare find_max.simps [simp del] sort_loop.simps [simp del]

definition Sort_int :: "int list \<Rightarrow> int list res" where
  "Sort_int a = sort_loop (\<lambda>x y. Inr (x < y)) a 0"

definition str_less :: "string heap \<Rightarrow> addr \<Rightarrow> addr \<Rightarrow> bool res" where
  "str_less mem p q = bindE (deref mem p) (\<lambda>s. bindE (deref mem q) (\<lambda>t. Inr (strcmp s t < 0)))"

definition Sort_str :: "string heap \<Rightarrow> addr list \<Rightarrow> addr list res" where
  "Sort_str mem a = sort_loop (str_less mem) a 0"

text \<open>The program: two arrays are filled, sorted and printed.\<close>

fun fill :: "'a list \<Rightarrow> int \<Rightarrow> 'a list \<Rightarrow> 'a list option res" where
  "fill a i [] = Inr (Some a)"
| "fill a i (x # xs) = bindE (index_set a i x) (\<lambda>r. case r of None \<Rightarrow> Inr None | Some a' \<Rightarrow> fill a' (i + 1) xs)"

fun print_loop :: "'a list \<Rightarrow> int \<Rightarrow> nat \<Rightarrow> 'a list option res" where
  "print_loop a i 0 = Inr (Some [])"
| "print_loop a i (Suc k) = bindE (index a i) (\<lambda>r. case r of None \<Rightarrow> Inr None | Some x \<Rightarrow>
     bindE (print_loop a (i + 1) k) (\<lambda>r. case r of None \<Rightarrow> Inr None | Some xs \<Rightarrow> Inr (Some (x # xs))))"

definition then_some :: "'a option res \<Rightarrow> ('a \<Rightarrow> 'b option res) \<Rightarrow> 'b option res" where
  "then_some m f = bindE m (\<lambda>r. case r of None \<Rightarrow> Inr None | Some x \<Rightarrow> f x)"

definition array_main :: "string heap \<Rightarrow> addr list \<Rightarrow> (int list \<times> addr list) option res" where
  "array_main mem literals =
     then_some (fill (Array 0) 0 [1, 23, 6, 3, 9]) (\<lambda>a1.
     bindE (Sort_int a1) (\<lambda>a1.
     then_some (print_loop a1 0 5) (\<lambda>ints.
     then_some (fill (Array 0) 0 literals) (\<lambda>b1.
     bindE (Sort_str mem b1) (\<lambda>b1.
     then_some (print_loop b1 0 5) (\<lambda>strs.
       Inr (Some (ints, strs))))))))"

subsection \<open>Selection sort over any strict weak order\<close>

text \<open>
  What the sort needs of the comparison: on the elements at hand it is defined and is a strict
  weak order.
\<close>

locale compare =
  fixes below :: "'a \<Rightarrow> 'a \<Rightarrow> bool res" and good :: "'a \<Rightarrow> bool" and lt :: "'a \<Rightarrow> 'a \<Rightarrow> bool"
  assumes defined: "good x \<Longrightarrow> good y \<Longrightarrow> below x y = Inr (lt x y)"
    and irrefl: "good x \<Longrightarrow> \<not> lt x x"
    and lt_trans: "good x \<Longrightarrow> good y \<Longrightarrow> good z \<Longrightarrow> lt x y \<Longrightarrow> lt y z \<Longrightarrow> lt x z"
begin

definition max_at :: "'a list \<Rightarrow> nat \<Rightarrow> nat \<Rightarrow> nat \<Rightarrow> bool" where
  "max_at a i n q \<longleftrightarrow> (\<forall>k. i \<le> k \<and> k < n \<longrightarrow> \<not> lt (a ! q) (a ! k))"

lemma find_max_ok:
  assumes "length a = MAXSIZE" and "\<forall>x\<in>set a. good x" and "i \<le> p" and "p < j" and "j \<le> MAXSIZE" and "max_at a i j p"
  shows "\<exists>q. find_max below a p j = Inr q \<and> i \<le> q \<and> q < MAXSIZE \<and> max_at a i MAXSIZE q"
  using assms(3-)
proof (induction "MAXSIZE - j" arbitrary: p j)
  case 0
  then show ?case by (subst find_max.simps) auto
next
  case (Suc m)
  have g: "good (a ! k)" if "k < MAXSIZE" for k using assms(1,2) that by simp
  have j: "j < MAXSIZE" and p: "p < MAXSIZE" using Suc.hyps(2) Suc.prems by simp_all
  let ?p = "if lt (a ! p) (a ! j) then j else p"
  have "\<not> lt (a ! ?p) (a ! k)" if k: "i \<le> k" "k < Suc j" for k
  proof (cases "k = j")
    case True
    then show ?thesis using irrefl [OF g] j by auto
  next
    case False
    then have "\<not> lt (a ! p) (a ! k)" "k < MAXSIZE" using Suc.prems(4) k j by (auto simp: max_at_def)
    then show ?thesis using lt_trans [of "a ! p" "a ! j" "a ! k"] g p j by auto
  qed
  then have "max_at a i (Suc j) ?p" by (simp add: max_at_def)
  moreover have "below (a ! p) (a ! j) = Inr (lt (a ! p) (a ! j))" using g p j by (intro defined) simp_all
  then have "find_max below a p j = find_max below a ?p (Suc j)"
    using j p assms(1) by (subst find_max.simps) (simp add: c_simps)
  ultimately show ?case
    using Suc.hyps(1) [of "Suc j" ?p] Suc.hyps(2) Suc.prems j by auto
qed

text \<open>After \<open>i\<close> rounds the first \<open>i\<close> elements are in order, and none of them is below one behind them.\<close>

definition sorted_to :: "nat \<Rightarrow> 'a list \<Rightarrow> bool" where
  "sorted_to i a \<longleftrightarrow> (\<forall>m k. m < i \<and> m < k \<and> k < length a \<longrightarrow> \<not> lt (a ! m) (a ! k))"

lemma swap_step:
  assumes "length a = MAXSIZE" and "sorted_to i a" and "i \<le> q" and "q < MAXSIZE" and "max_at a i MAXSIZE q"
  shows "sorted_to (Suc i) (a[i := a ! q, q := a ! i])"
  unfolding sorted_to_def
proof (intro allI impI)
  fix m k
  assume mk: "m < Suc i \<and> m < k \<and> k < length (a[i := a ! q, q := a ! i])"
  let ?b = "a[i := a ! q, q := a ! i]"
  have b: "?b ! x = (if x = q then a ! i else if x = i then a ! q else a ! x)" if "x < length a" for x
    using that assms(1,3,4) by (auto simp: nth_list_update)
  show "\<not> lt (?b ! m) (?b ! k)"
  proof (cases "m = i")
    case True
    have "\<exists>k'. i \<le> k' \<and> k' < MAXSIZE \<and> ?b ! k = a ! k'"
      using mk True b [of k] assms(1,3,4) by (cases "k = q") (auto intro: exI [of _ i] exI [of _ k])
    moreover have "?b ! m = a ! q" using True b [of i] assms(1,3,4) by simp
    ultimately show ?thesis using assms(5) by (auto simp: max_at_def)
  next
    case False
    then have "m < i" "?b ! m = a ! m" using mk b [of m] assms(3) by auto
    moreover have "\<exists>k'. m < k' \<and> k' < length a \<and> ?b ! k = a ! k'"
      using mk b [of k] \<open>m < i\<close> assms(1,3,4)
      by (intro exI [of _ "if k = q then i else if k = i then q else k"]) auto
    ultimately show ?thesis using assms(2) by (auto simp: sorted_to_def)
  qed
qed

lemma sort_loop_ok:
  assumes "length a = MAXSIZE" and "\<forall>x\<in>set a. good x" and "sorted_to i a" and "i \<le> MAXSIZE"
  shows "\<exists>b. sort_loop below a i = Inr b \<and> mset b = mset a \<and> sorted_wrt (\<lambda>x y. \<not> lt x y) b"
  using assms
proof (induction "MAXSIZE - i" arbitrary: a i)
  case 0
  then have "sorted_wrt (\<lambda>x y. \<not> lt x y) a" by (simp add: sorted_to_def sorted_wrt_iff_nth_less)
  then show ?case using 0 by (subst sort_loop.simps) simp
next
  case (Suc n)
  then have i: "i < MAXSIZE" by simp
  have "good (a ! i)" using Suc.prems(1,2) i by simp
  then have "max_at a i (Suc i) i" using irrefl by (auto simp: max_at_def le_less_Suc_eq)
  from find_max_ok [OF Suc.prems(1,2) order.refl lessI _ this] i obtain q where
    q: "find_max below a i (Suc i) = Inr q" "i \<le> q" "q < MAXSIZE" "max_at a i MAXSIZE q" by auto
  let ?a = "a[i := a ! q, q := a ! i]"
  have run: "sort_loop below a i = sort_loop below ?a (Suc i)"
    using i q(1,3) Suc.prems(1) by (subst sort_loop.simps) (simp add: c_simps)
  have ms: "mset ?a = mset a" using Suc.prems(1) i q(3) by (simp add: mset_swap)
  then have gd: "\<forall>x\<in>set ?a. good x" using Suc.prems(2) by (metis set_mset_mset)
  have "\<exists>b. sort_loop below ?a (Suc i) = Inr b \<and> mset b = mset ?a \<and> sorted_wrt (\<lambda>x y. \<not> lt x y) b"
    by (rule Suc.hyps(1)) (use Suc.hyps(2) Suc.prems(1,3) i gd swap_step [OF Suc.prems(1,3) q(2-4)] in auto)
  then show ?case unfolding run ms .
qed

lemma sort_ok:
  "length a = MAXSIZE \<Longrightarrow> \<forall>x\<in>set a. good x \<Longrightarrow>
   \<exists>b. sort_loop below a 0 = Inr b \<and> mset b = mset a \<and> sorted_wrt (\<lambda>x y. \<not> lt x y) b"
  by (rule sort_loop_ok) (simp_all add: sorted_to_def)

end

interpretation int_cmp: compare "\<lambda>x y :: int. Inr (x < y)" "\<lambda>_. True" "(<)"
  by unfold_locales auto

text \<open>Pointers to strings in memory are compared by their strings.\<close>

definition at :: "string heap \<Rightarrow> addr \<Rightarrow> string" where
  "at mem p = (case mem p of None \<Rightarrow> [] | Some s \<Rightarrow> s)"

definition points :: "string heap \<Rightarrow> addr \<Rightarrow> bool" where
  "points mem p \<longleftrightarrow> p \<noteq> 0 \<and> (\<exists>s. mem p = Some s \<and> no_nul s)"

interpretation str_cmp: compare "str_less mem" "points mem" "\<lambda>p q. strcmp (at mem p) (at mem q) < 0" for mem
proof
  fix x y z
  show "points mem x \<Longrightarrow> points mem y \<Longrightarrow> str_less mem x y = Inr (strcmp (at mem x) (at mem y) < 0)"
    by (auto simp: points_def at_def str_less_def c_simps)
  show "points mem x \<Longrightarrow> \<not> strcmp (at mem x) (at mem x) < 0"
    using strcmp_anti [of "at mem x" "at mem x"] by simp
  show "points mem x \<Longrightarrow> points mem y \<Longrightarrow> points mem z \<Longrightarrow> strcmp (at mem x) (at mem y) < 0 \<Longrightarrow>
      strcmp (at mem y) (at mem z) < 0 \<Longrightarrow> strcmp (at mem x) (at mem z) < 0"
    by (rule strcmp_trans [of _ "at mem y"]) (auto simp: points_def at_def)
qed

subsection \<open>Properties\<close>

text \<open>
  C29: Sort is equivalent to the library's sort, descending: on every array of ints it ends,
  without an access outside the array, and yields the elements in non-increasing order.
\<close>
theorem sort_int_equals_reference:
  assumes "length a = MAXSIZE"
  shows "Sort_int a = Inr (rev (sort a))"
proof -
  from int_cmp.sort_ok [OF assms] obtain b where
    b: "Sort_int a = Inr b" "mset b = mset a" "sorted_wrt (\<lambda>x y. \<not> x < y) b" by (auto simp: Sort_int_def)
  have "sorted_wrt (\<ge>) b" using b(3) by (rule sorted_wrt_mono_rel [rotated]) simp
  then have "sorted (rev b)" by (simp add: sorted_wrt_rev)
  then have "sort a = rev b" by (rule properties_for_sort [rotated]) (simp add: b(2))
  then show ?thesis using b(1) by simp
qed

theorem sort_int_equals_reference_witness: "Sort_int [1, 23, 6, 3, 9] = Inr (rev (sort [1, 23, 6, 3, 9]))"
  by (rule sort_int_equals_reference) (simp add: MAXSIZE_def)

text \<open>
  The specialisation for char * permutes the pointers so that their strings are in
  non-increasing order of strcmp, for any five pointers to strings (equal strings and shared
  pointers included).
\<close>
theorem sort_str_orders_strings:
  assumes "length a = MAXSIZE" and "\<forall>p\<in>set a. points mem p"
  shows "\<exists>b. Sort_str mem a = Inr b \<and> mset b = mset a
    \<and> sorted_wrt (\<lambda>p q. strcmp (at mem q) (at mem p) \<le> 0) b"
proof -
  from str_cmp.sort_ok [OF assms] obtain b where
    b: "Sort_str mem a = Inr b" "mset b = mset a" "sorted_wrt (\<lambda>p q. \<not> strcmp (at mem p) (at mem q) < 0) b"
    by (auto simp: Sort_str_def)
  have "strcmp (at mem q) (at mem p) \<le> 0" if "\<not> strcmp (at mem p) (at mem q) < 0" for p q
    using that strcmp_anti [of "at mem p" "at mem q"] by linarith
  then have "sorted_wrt (\<lambda>p q. strcmp (at mem q) (at mem p) \<le> 0) b"
    by (rule sorted_wrt_mono_rel [rotated, OF b(3)]) simp
  then show ?thesis using b by blast
qed

text \<open>
  The index check is off by one: an index below 0 or above 5 ends the program, but index 5 of
  the five elements passes the check and is read and written beyond the array.
\<close>
theorem index_check_off_by_one:
  assumes "length a = MAXSIZE"
  shows "index a i = (if i < 0 \<or> 5 < i then Inr None else if i = 5 then Inl OutOfBounds else Inr (Some (a ! nat i)))
    \<and> index_set a i x = (if i < 0 \<or> 5 < i then Inr None else if i = 5 then Inl OutOfBounds else Inr (Some (a[nat i := x])))"
  using assms by (auto simp: index_def index_set_def MAXSIZE_def arr_get_def arr_set_def)

definition demo_mem :: "string heap" where
  "demo_mem = [10 \<mapsto> ''x1'', 20 \<mapsto> ''ya'', 30 \<mapsto> ''ad'', 40 \<mapsto> ''be'', 50 \<mapsto> ''bc'']"

theorem sort_str_orders_strings_witness:
  "\<exists>b. Sort_str demo_mem [10, 20, 30, 40, 50] = Inr b \<and> mset b = mset [10, 20, 30, 40, 50]
    \<and> sorted_wrt (\<lambda>p q. strcmp (at demo_mem q) (at demo_mem p) \<le> 0) b"
  by (rule sort_str_orders_strings) (simp_all add: MAXSIZE_def points_def demo_mem_def no_nul_def NUL_def)

theorem index_check_off_by_one_witness:
  "index [1, 23, 6, 3, 9 :: int] 5 = (if (5::int) < 0 \<or> 5 < (5::int) then Inr None
      else if (5::int) = 5 then Inl OutOfBounds else Inr (Some ([1, 23, 6, 3, 9] ! nat 5)))
    \<and> index_set [1, 23, 6, 3, 9 :: int] 5 0 = (if (5::int) < 0 \<or> 5 < (5::int) then Inr None
      else if (5::int) = 5 then Inl OutOfBounds else Inr (Some ([1, 23, 6, 3, 9][nat 5 := 0])))"
  by (rule index_check_off_by_one) (simp add: MAXSIZE_def)

text \<open>
  The program prints 23 9 6 3 1 and ya x1 be bc ad.
\<close>
theorem array_main_output:
  "array_main demo_mem [10, 20, 30, 40, 50] = Inr (Some ([23, 9, 6, 3, 1], [20, 10, 40, 50, 30]))"
  by code_simp

end
