(* ===== verification/Salary.thy ===== *)
theory Salary
  imports CString
begin

section \<open>The salary table (\<open>CPlusPlusThings/practical_exercises/bracket_overloading.cpp\<close>)\<close>

text \<open>
  A class whose \<open>operator[]\<close> looks up an employee by name, adding one that is not there, and
  returns a reference to the salary: here the index of the element.  The type of the salaries is
  a parameter (with the 0 of \<open>p->salary = 0\<close>).  An element that was never filled is
  \<open>None\<close>; \<open>live\<close> counts the blocks that \<open>new\<close> has handed out and \<open>delete\<close> has not taken back.
\<close>

record 'd salary_manage =
  smax :: int
  sn :: int
  employ :: "(string \<times> 'd) option list"
  live :: nat

definition SalaryManage :: "int \<Rightarrow> 'd salary_manage" where
  "SalaryManage mx = \<lparr>smax = mx, sn = 0, employ = replicate (nat mx) None, live = 1\<rparr>"

text \<open>The loop over the elements in use, from index \<open>p\<close>.\<close>

function find_employee :: "(string \<times> 'd) option list \<Rightarrow> int \<Rightarrow> string \<Rightarrow> int \<Rightarrow> int option res" where
  "find_employee es n Name p =
     (if p < n
      then bindE (arr_get es p) (\<lambda>e. case e of
          None \<Rightarrow> Inl UninitRead
        | Some (name, _) \<Rightarrow> if strcmp name Name = 0 then Inr (Some p) else find_employee es n Name (p + 1))
      else Inr None)"
  by pat_completeness auto
termination by (relation "measure (\<lambda>(es, n, Name, p). nat (n - p))") auto

declare find_employee.simps [simp del]

definition op_index :: "string \<Rightarrow> ('d :: zero) salary_manage \<Rightarrow> (int \<times> 'd salary_manage) res" where
  "op_index Name s =
     bindE (find_employee (employ s) (sn s) Name 0) (\<lambda>r. case r of
         Some p \<Rightarrow> Inr (p, s)
       | None \<Rightarrow>
           bindE (i32 (sn s + 1)) (\<lambda>n'.
           bindE (arr_set (employ s) (sn s) (Some (Name, 0))) (\<lambda>es.
             Inr (sn s, s\<lparr>sn := n', employ := es, live := Suc (live s)\<rparr>))))"

text \<open>\<open>s[Name]\<close> read, and \<open>s[Name] = v\<close>.\<close>

definition read_salary :: "string \<Rightarrow> ('d :: zero) salary_manage \<Rightarrow> ('d \<times> 'd salary_manage) res" where
  "read_salary Name s =
     bindE (op_index Name s) (\<lambda>(p, s').
     bindE (arr_get (employ s') p) (\<lambda>e. case e of
        None \<Rightarrow> Inl UninitRead | Some (_, v) \<Rightarrow> Inr (v, s')))"

definition set_salary :: "string \<Rightarrow> 'd \<Rightarrow> ('d :: zero) salary_manage \<Rightarrow> 'd salary_manage res" where
  "set_salary Name v s =
     bindE (op_index Name s) (\<lambda>(p, s').
     bindE (arr_get (employ s') p) (\<lambda>e. case e of
        None \<Rightarrow> Inl UninitRead
      | Some (name, _) \<Rightarrow>
          bindE (arr_set (employ s') p (Some (name, v))) (\<lambda>es. Inr (s'\<lparr>employ := es\<rparr>))))"

fun display_loop :: "(string \<times> 'd) option list \<Rightarrow> int \<Rightarrow> nat \<Rightarrow> (string \<times> 'd) list res" where
  "display_loop es i 0 = Inr []"
| "display_loop es i (Suc k) =
     bindE (arr_get es i) (\<lambda>e. case e of None \<Rightarrow> Inl UninitRead
       | Some x \<Rightarrow> bindE (display_loop es (i + 1) k) (\<lambda>xs. Inr (x # xs)))"

definition display :: "'d salary_manage \<Rightarrow> (string \<times> 'd) list res" where
  "display s = display_loop (employ s) 0 (nat (sn s))"

text \<open>The destructor frees the array, not the names.\<close>

definition destroy :: "'d salary_manage \<Rightarrow> nat" where
  "destroy s = live s - 1"

text \<open>The program: three salaries are set, read back and displayed.\<close>

fun set_all :: "(string \<times> 'd) list \<Rightarrow> ('d :: zero) salary_manage \<Rightarrow> 'd salary_manage res" where
  "set_all [] s = Inr s"
| "set_all ((name, v) # ops) s = bindE (set_salary name v s) (set_all ops)"

fun read_all :: "string list \<Rightarrow> ('d :: zero) salary_manage \<Rightarrow> ('d list \<times> 'd salary_manage) res" where
  "read_all [] s = Inr ([], s)"
| "read_all (name # ns) s = bindE (read_salary name s) (\<lambda>(v, s1).
     bindE (read_all ns s1) (\<lambda>(vs, s2). Inr (v # vs, s2)))"

definition salary_main :: "'d \<Rightarrow> 'd \<Rightarrow> 'd \<Rightarrow> (('d :: zero) list \<times> (string \<times> 'd) list \<times> nat) res" where
  "salary_main a b c =
     bindE (set_all [(''zhang san'', a), (''li si'', b), (''wang wu'', c)] (SalaryManage 3)) (\<lambda>s.
     bindE (read_all [''zhang san'', ''li si'', ''wang wu''] s) (\<lambda>(vs, s).
     bindE (display s) (\<lambda>ds. Inr (vs, ds, destroy s))))"

subsection \<open>The table as a map\<close>

text \<open>The entries in use, in order; the map that they stand for.\<close>

definition entries :: "'d salary_manage \<Rightarrow> (string \<times> 'd) list" where
  "entries s = map the (take (nat (sn s)) (employ s))"

definition salary_map :: "'d salary_manage \<Rightarrow> (string \<rightharpoonup> 'd)" where
  "salary_map s = map_of (entries s)"

definition table_ok :: "'d salary_manage \<Rightarrow> bool" where
  "table_ok s \<longleftrightarrow> 0 \<le> sn s \<and> sn s \<le> int (length (employ s)) \<and> int (length (employ s)) < 2147483647
     \<and> None \<notin> set (take (nat (sn s)) (employ s)) \<and> distinct (map fst (entries s))
     \<and> (\<forall>x\<in>set (entries s). no_nul (fst x)) \<and> live s = Suc (nat (sn s))"

lemma map_of_update:
  "distinct (map fst xs) \<Longrightarrow> k < length xs \<Longrightarrow> fst (xs ! k) = a \<Longrightarrow>
   map_of (xs[k := (a, v)]) = (map_of xs)(a \<mapsto> v)"
proof (induction xs arbitrary: k)
  case (Cons x xs)
  show ?case
  proof (cases k)
    case 0
    with Cons.prems show ?thesis by (cases x) auto
  next
    case (Suc j)
    with Cons.prems have "a \<in> fst ` set xs" by (metis Suc_less_eq image_eqI length_Cons nth_Cons_Suc nth_mem)
    with Cons.prems(1) have "fst x \<noteq> a" by auto
    with Suc Cons show ?thesis by (cases x) (auto simp: fun_eq_iff)
  qed
qed simp

lemma employ_at:
  assumes "table_ok s" and "i < nat (sn s)"
  shows "i < length (employ s)" and "employ s ! i = Some (entries s ! i)" and "i < length (entries s)"
proof -
  show i: "i < length (employ s)" using assms by (auto simp: table_ok_def)
  have "employ s ! i \<in> set (take (nat (sn s)) (employ s))"
    using assms(2) i by (metis in_set_conv_nth length_take min_less_iff_conj nth_take)
  then have "employ s ! i \<noteq> None" using assms(1) by (metis table_ok_def)
  then show "employ s ! i = Some (entries s ! i)" using assms(2) i by (simp add: entries_def)
  show "i < length (entries s)" using assms(2) i by (simp add: entries_def)
qed

lemma length_entries: "table_ok s \<Longrightarrow> length (entries s) = nat (sn s)"
  by (auto simp: table_ok_def entries_def)

lemma find_employee_ok:
  assumes s: "table_ok s" and name: "no_nul Name" and "i \<le> nat (sn s)"
  shows "find_employee (employ s) (sn s) Name (int i) =
    Inr (map_option int (find (\<lambda>k. fst (entries s ! k) = Name) [i..<nat (sn s)]))"
  using assms(3)
proof (induction "nat (sn s) - i" arbitrary: i)
  case 0
  then have "\<not> int i < sn s" by linarith
  then show ?case using 0 by (subst find_employee.simps) simp
next
  case (Suc m)
  then have i: "i < nat (sn s)" by simp
  note e = employ_at [OF s i]
  obtain nm v where nv: "entries s ! i = (nm, v)" by (cases "entries s ! i")
  have "entries s ! i \<in> set (entries s)" using e(3) by simp
  then have "no_nul nm" using s nv by (force simp: table_ok_def)
  then have eq: "strcmp nm Name = 0 \<longleftrightarrow> nm = Name" using name by (rule strcmp_eq)
  have "find_employee (employ s) (sn s) Name (int (Suc i)) =
      Inr (map_option int (find (\<lambda>k. fst (entries s ! k) = Name) [Suc i..<nat (sn s)]))"
    by (rule Suc.hyps(1)) (use Suc.hyps(2) i in simp_all)
  moreover have "int i < sn s" using i by linarith
  ultimately show ?case
    using e(1,2) nv eq i by (subst find_employee.simps) (simp add: c_simps upt_conv_Cons add.commute)
qed

text \<open>One assignment, on a table with the name or with room for it.\<close>

lemma find_entry:
  assumes s: "table_ok s" and name: "no_nul Name"
  shows "find_employee (employ s) (sn s) Name 0
    = Inr (map_option int (find (\<lambda>k. fst (entries s ! k) = Name) [0..<nat (sn s)]))"
  using find_employee_ok [OF s name, of 0] by simp

lemma dom_salary_map: "dom (salary_map s) = fst ` set (entries s)"
  by (simp add: salary_map_def dom_map_of_conv_image_fst)

text \<open>A new name: an entry is appended, if there is room.\<close>

lemma set_salary_new:
  fixes v :: "'d :: zero"
  assumes s: "table_ok s" and name: "no_nul Name" and new: "Name \<notin> dom (salary_map s)"
    and room: "sn s < int (length (employ s))"
  shows "\<exists>s'. set_salary Name v s = Inr s' \<and> table_ok s' \<and> salary_map s' = (salary_map s)(Name \<mapsto> v)
    \<and> length (employ s') = length (employ s) \<and> map fst (entries s') = map fst (entries s) @ [Name]"
proof -
  let ?i = "nat (sn s)"
  define s' where "s' = s\<lparr>sn := sn s + 1, employ := (employ s)[?i := Some (Name, v)], live := Suc (live s)\<rparr>"
  have none: "find (\<lambda>k. fst (entries s ! k) = Name) [0..<nat (sn s)] = None"
    using new length_entries [OF s] by (auto simp: dom_salary_map find_None_iff)
  have sn: "0 \<le> sn s" using s by (simp add: table_ok_def)
  have ok: "int_ok (sn s + 1)" using s room by (intro int_okI) (auto simp: table_ok_def)
  have il: "?i < length (employ s)" using room sn by linarith
  have n1: "nat (sn s + 1) = Suc ?i" using sn by (simp add: nat_add_distrib)
  have tk: "take (Suc ?i) ((employ s)[?i := Some (Name, v)]) = take ?i (employ s) @ [Some (Name, v)]"
    using il by (simp add: take_Suc_conv_app_nth)
  have en: "entries s' = entries s @ [(Name, v)]" by (simp add: entries_def s'_def n1 tk)
  have "set_salary Name v s = Inr s'"
    using none find_entry [OF s name] ok il sn room by (simp add: set_salary_def op_index_def c_simps s'_def)
  moreover have "table_ok s'"
    using s room new name en unfolding table_ok_def dom_salary_map by (auto simp: s'_def n1 tk)
  moreover have "map_of (entries s) Name = None" using new by (simp add: salary_map_def domIff)
  then have "salary_map s' = (salary_map s)(Name \<mapsto> v)"
    by (auto simp: salary_map_def en map_add_def fun_eq_iff split: option.split)
  moreover have "map fst (entries s') = map fst (entries s) @ [Name]" by (simp add: en)
  ultimately show ?thesis by (auto simp: s'_def)
qed

text \<open>A known name: its entry is overwritten.\<close>

lemma set_salary_known:
  fixes v :: "'d :: zero"
  assumes s: "table_ok s" and name: "no_nul Name" and known: "Name \<in> dom (salary_map s)"
  shows "\<exists>s'. set_salary Name v s = Inr s' \<and> table_ok s' \<and> salary_map s' = (salary_map s)(Name \<mapsto> v)
    \<and> length (employ s') = length (employ s) \<and> map fst (entries s') = map fst (entries s)"
proof -
  have "\<exists>k < nat (sn s). fst (entries s ! k) = Name"
    using known length_entries [OF s] unfolding dom_salary_map by (fastforce simp: in_set_conv_nth)
  then have "find (\<lambda>k. fst (entries s ! k) = Name) [0..<nat (sn s)] \<noteq> None" by (auto simp: find_None_iff)
  then obtain k where f: "find (\<lambda>k. fst (entries s ! k) = Name) [0..<nat (sn s)] = Some k" by blast
  then have k: "k < nat (sn s)" "fst (entries s ! k) = Name" by (auto simp: find_Some_iff)
  note e = employ_at [OF s k(1)]
  obtain v0 where nv: "entries s ! k = (Name, v0)" using k(2) by (cases "entries s ! k") simp
  define s' where "s' = s\<lparr>employ := (employ s)[k := Some (Name, v)]\<rparr>"
  have en: "entries s' = (entries s)[k := (Name, v)]"
    using k(1) by (simp add: entries_def s'_def take_update_swap map_update)
  have fs: "map fst (entries s') = map fst (entries s)"
    using nv e(3) by (simp add: en map_update) (metis fst_conv list_update_id map_update)
  have "set_salary Name v s = Inr s'"
    using f find_entry [OF s name] e(1,2) nv by (simp add: set_salary_def op_index_def c_simps s'_def)
  moreover have "None \<notin> set (take (nat (sn s)) ((employ s)[k := Some (Name, v)]))"
    using s by (auto simp: table_ok_def take_update_swap dest!: subsetD [OF set_update_subset_insert])
  moreover have "\<forall>x\<in>set (entries s'). no_nul (fst x)"
    using s name by (auto simp: table_ok_def en dest!: subsetD [OF set_update_subset_insert])
  then have "table_ok s'" using s fs calculation(2) by (simp add: table_ok_def s'_def)
  moreover have "salary_map s' = (salary_map s)(Name \<mapsto> v)"
    unfolding salary_map_def en by (rule map_of_update) (use s e(3) nv in \<open>simp_all add: table_ok_def\<close>)
  ultimately show ?thesis using fs by (simp add: s'_def)
qed

text \<open>A new name on a full table.\<close>

lemma op_index_full:
  assumes s: "table_ok s" and name: "no_nul Name" and new: "Name \<notin> dom (salary_map s)"
    and full: "\<not> sn s < int (length (employ s))"
  shows "op_index Name s = Inl OutOfBounds"
proof -
  have "int_ok (sn s + 1)" using s by (intro int_okI) (auto simp: table_ok_def)
  moreover have "find (\<lambda>k. fst (entries s ! k) = Name) [0..<nat (sn s)] = None"
    using new length_entries [OF s] by (auto simp: dom_salary_map find_None_iff)
  ultimately show ?thesis
    using find_entry [OF s name] full by (simp add: op_index_def c_simps arr_set_def)
qed

text \<open>Reading a known salary changes nothing; reading an unknown one enters it as 0.\<close>

lemma read_salary_known:
  assumes s: "table_ok s" and name: "no_nul Name" and known: "salary_map s Name = Some v"
  shows "read_salary Name s = Inr (v, s)"
proof -
  from known have "(Name, v) \<in> set (entries s)" by (simp add: salary_map_def map_of_SomeD)
  then obtain j where "j < length (entries s)" "entries s ! j = (Name, v)" by (auto simp: in_set_conv_nth)
  then have "j < nat (sn s)" "fst (entries s ! j) = Name" using length_entries [OF s] by simp_all
  then have "find (\<lambda>k. fst (entries s ! k) = Name) [0..<nat (sn s)] \<noteq> None"
    unfolding find_None_iff by force
  then obtain k where f: "find (\<lambda>k. fst (entries s ! k) = Name) [0..<nat (sn s)] = Some k" by blast
  then have k: "k < nat (sn s)" "fst (entries s ! k) = Name" by (auto simp: find_Some_iff)
  note e = employ_at [OF s k(1)]
  have "entries s ! k \<in> set (entries s)" using e(3) by simp
  then have "salary_map s Name = Some (snd (entries s ! k))"
    using s k(2) unfolding salary_map_def table_ok_def by (metis map_of_eq_Some_iff prod.collapse)
  then have "entries s ! k = (Name, v)" using k(2) known by (cases "entries s ! k") simp
  then show ?thesis
    using f find_entry [OF s name] e(1,2) by (simp add: read_salary_def op_index_def c_simps)
qed

lemma read_salary_unknown:
  assumes s: "table_ok s" and name: "no_nul Name" and new: "Name \<notin> dom (salary_map s)"
  shows "read_salary Name s = bindE (set_salary Name 0 s) (\<lambda>s'. Inr (0, s'))"
proof (cases "sn s < int (length (employ s))")
  case True
  have "find (\<lambda>k. fst (entries s ! k) = Name) [0..<nat (sn s)] = None"
    using new length_entries [OF s] by (auto simp: dom_salary_map find_None_iff)
  moreover have "int_ok (sn s + 1)" "0 \<le> sn s" "nat (sn s) < length (employ s)"
    using s True by (auto simp: table_ok_def int_ok_def)
  ultimately show ?thesis
    using find_entry [OF s name] True by (simp add: read_salary_def set_salary_def op_index_def c_simps)
next
  case False
  with op_index_full [OF s name new] show ?thesis by (simp add: read_salary_def set_salary_def)
qed

lemma display_entries:
  assumes "table_ok s"
  shows "display s = Inr (entries s)"
proof -
  have "display_loop (employ s) (int i) k = Inr (take k (drop i (entries s)))" if "i + k \<le> nat (sn s)" for i k
    using that
  proof (induction k arbitrary: i)
    case (Suc k)
    then have i: "i < nat (sn s)" by simp
    note e = employ_at [OF assms i]
    have "display_loop (employ s) (int i + 1) k = Inr (take k (drop (Suc i) (entries s)))"
      using Suc.IH [of "Suc i"] Suc.prems by (simp add: add.commute)
    with e show ?case by (simp add: c_simps take_Suc_conv_app_nth Cons_nth_drop_Suc [symmetric])
  qed simp
  from this [of 0 "nat (sn s)"] length_entries [OF assms] show ?thesis by (simp add: display_def)
qed

subsection \<open>Scripts on a table\<close>

text \<open>
  A client assigns (\<open>s[Name] = v\<close>) and reads (\<open>s[Name]\<close>) in any order; the values it reads are
  collected.  The contract is a finite map, in which a name that is read for the first time gets
  the salary 0, and the order in which the names were used first.
\<close>

datatype 'd table_op = Put string 'd | Get string

primrec op_name :: "'d table_op \<Rightarrow> string" where
  "op_name (Put n v) = n"
| "op_name (Get n) = n"

fun run_op :: "'d table_op \<Rightarrow> ('d :: zero) salary_manage \<Rightarrow> ('d list \<times> 'd salary_manage) res" where
  "run_op (Put n v) s = bindE (set_salary n v s) (\<lambda>s'. Inr ([], s'))"
| "run_op (Get n) s = bindE (read_salary n s) (\<lambda>(v, s'). Inr ([v], s'))"

fun run_ops :: "'d table_op list \<Rightarrow> ('d :: zero) salary_manage \<Rightarrow> ('d list \<times> 'd salary_manage) res" where
  "run_ops [] s = Inr ([], s)"
| "run_ops (op # ops) s = bindE (run_op op s) (\<lambda>(vs, s1).
     bindE (run_ops ops s1) (\<lambda>(ws, s2). Inr (vs @ ws, s2)))"

fun spec_op :: "'d table_op \<Rightarrow> (string \<rightharpoonup> ('d :: zero)) \<Rightarrow> 'd list \<times> (string \<rightharpoonup> 'd)" where
  "spec_op (Put n v) m = ([], m(n \<mapsto> v))"
| "spec_op (Get n) m = (let v = (case m n of None \<Rightarrow> 0 | Some v \<Rightarrow> v) in ([v], m(n \<mapsto> v)))"

fun spec_ops :: "'d table_op list \<Rightarrow> (string \<rightharpoonup> ('d :: zero)) \<Rightarrow> 'd list \<times> (string \<rightharpoonup> 'd)" where
  "spec_ops [] m = ([], m)"
| "spec_ops (op # ops) m = (let (vs, m1) = spec_op op m; (ws, m2) = spec_ops ops m1 in (vs @ ws, m2))"

definition use_name :: "string \<Rightarrow> string list \<Rightarrow> string list" where
  "use_name n ns = (if n \<in> set ns then ns else ns @ [n])"

definition first_uses :: "'d table_op list \<Rightarrow> string list" where
  "first_uses ops = fold use_name (map op_name ops) []"

lemma run_op_ok:
  assumes s: "table_ok s" and name: "no_nul (op_name op)"
  shows "if op_name op \<in> dom (salary_map s) \<or> sn s < int (length (employ s))
    then \<exists>s'. run_op op s = Inr (fst (spec_op op (salary_map s)), s') \<and> table_ok s'
      \<and> salary_map s' = snd (spec_op op (salary_map s)) \<and> length (employ s') = length (employ s)
      \<and> map fst (entries s') = use_name (op_name op) (map fst (entries s))
    else run_op op s = Inl OutOfBounds"
proof -
  have names: "n \<in> set (map fst (entries s)) \<longleftrightarrow> n \<in> dom (salary_map s)" for n by (simp add: dom_salary_map)
  show ?thesis
  proof (cases op)
    case (Put n v)
    show ?thesis
    proof (cases "n \<in> dom (salary_map s)")
      case True
      with set_salary_known [OF s _ True, of v] name Put show ?thesis
        by (auto simp: use_name_def names simp del: set_map)
    next
      case False
      with set_salary_new [OF s _ False, of v] op_index_full [OF s _ False] name Put show ?thesis
        by (auto simp: use_name_def names set_salary_def simp del: set_map)
    qed
  next
    case (Get n)
    show ?thesis
    proof (cases "n \<in> dom (salary_map s)")
      case True
      then obtain v where v: "salary_map s n = Some v" by blast
      with read_salary_known [OF s _ v] name Get True s show ?thesis
        by (auto simp: use_name_def names fun_upd_idem simp del: set_map)
    next
      case False
      then have "salary_map s n = None" by blast
      with read_salary_unknown [OF s _ False] set_salary_new [OF s _ False, of 0] op_index_full [OF s _ False]
        name Get False show ?thesis
        by (auto simp: use_name_def names set_salary_def simp del: set_map)
    qed
  qed
qed

lemma dom_spec_op: "dom (snd (spec_op op m)) = insert (op_name op) (dom m)"
  by (cases op) (simp_all add: Let_def)

lemma sn_card: "table_ok s \<Longrightarrow> sn s = int (card (dom (salary_map s)))"
proof -
  assume s: "table_ok s"
  have "dom (salary_map s) = set (map fst (entries s))" by (simp add: salary_map_def dom_map_of_conv_image_fst)
  then have "card (dom (salary_map s)) = length (entries s)"
    using s distinct_card [of "map fst (entries s)"] by (simp add: table_ok_def)
  then show ?thesis using s length_entries [OF s] by (simp add: table_ok_def)
qed

lemma run_ops_ok:
  assumes "table_ok s" and "\<forall>op\<in>set ops. no_nul (op_name op)"
  shows "if card (dom (salary_map s) \<union> op_name ` set ops) \<le> length (employ s)
    then \<exists>s'. run_ops ops s = Inr (fst (spec_ops ops (salary_map s)), s') \<and> table_ok s'
      \<and> salary_map s' = snd (spec_ops ops (salary_map s))
      \<and> map fst (entries s') = fold use_name (map op_name ops) (map fst (entries s))
    else run_ops ops s = Inl OutOfBounds"
  using assms
proof (induction ops arbitrary: s)
  case Nil
  have "sn s \<le> int (length (employ s))" using Nil.prems(1) unfolding table_ok_def by blast
  then have "card (dom (salary_map s)) \<le> length (employ s)" using sn_card [OF Nil.prems(1)] by linarith
  then show ?case using Nil.prems(1) by simp
next
  case (Cons op ops)
  let ?D = "dom (salary_map s)" and ?n = "op_name op"
  have nn: "no_nul ?n" "\<forall>op\<in>set ops. no_nul (op_name op)" using Cons.prems(2) by simp_all
  have un: "?D \<union> op_name ` set (op # ops) = insert ?n ?D \<union> op_name ` set ops" by simp
  have fin: "finite ?D" by (simp add: salary_map_def finite_dom_map_of)
  note step = run_op_ok [OF Cons.prems(1) nn(1)]
  show ?case
  proof (cases "?n \<in> ?D \<or> sn s < int (length (employ s))")
    case True
    with step obtain s1 where s1: "run_op op s = Inr (fst (spec_op op (salary_map s)), s1)" "table_ok s1"
      "salary_map s1 = snd (spec_op op (salary_map s))" "length (employ s1) = length (employ s)"
      "map fst (entries s1) = use_name ?n (map fst (entries s))" by auto
    have e1: "dom (salary_map s1) \<union> op_name ` set ops = ?D \<union> op_name ` set (op # ops)"
      unfolding un by (simp add: s1(3) dom_spec_op)
    note IH = Cons.IH [OF s1(2) nn(2), unfolded e1, unfolded s1(3-5)]
    show ?thesis
      using IH s1(1) by (auto simp: Let_def case_prod_beta split: if_splits)
  next
    case False
    then have full: "card ?D = length (employ s)" "?n \<notin> ?D"
      using sn_card [OF Cons.prems(1)] Cons.prems(1) by (auto simp: table_ok_def)
    have "card (insert ?n ?D) \<le> card (?D \<union> op_name ` set (op # ops))"
      unfolding un using fin by (intro card_mono) auto
    then have "\<not> card (?D \<union> op_name ` set (op # ops)) \<le> length (employ s)" using full fin by simp
    moreover have "run_op op s = Inl OutOfBounds" using step False by simp
    ultimately show ?thesis by simp
  qed
qed

text \<open>The entries are the map, listed in the order of the names.\<close>

lemma entries_of_map:
  assumes "table_ok s"
  shows "entries s = map (\<lambda>n. (n, the (salary_map s n))) (map fst (entries s))"
proof -
  have "(fst x, the (map_of (entries s) (fst x))) = x" if "x \<in> set (entries s)" for x
  proof -
    have "distinct (map fst (entries s))" using assms by (simp add: table_ok_def)
    from map_of_is_SomeI [OF this, of "fst x" "snd x"] that show ?thesis by simp
  qed
  then show ?thesis unfolding salary_map_def map_map o_def by (simp add: map_idI)
qed

subsection \<open>Properties\<close>

text \<open>
  C28: the class implements a finite map as long as it has room.  Any script of assignments
  s[name] = v and look-ups s[name] on a new table runs without undefined behaviour exactly if it
  uses at most as many different names as the table has elements.  Then every look-up returns the
  last salary given to its name, and 0 for a name used for the first time, which it enters; display
  prints every name once, in the order of first use, with its salary; and the destructor leaves the
  copies of the names allocated.  With one name more the new employee is written beyond the array.
\<close>
theorem salary_table_refines_map:
  fixes ops :: "('d :: zero) table_op list"
  assumes "0 \<le> mx" and "mx < 2147483647" and "\<forall>op\<in>set ops. no_nul (op_name op)"
  shows "if int (card (op_name ` set ops)) \<le> mx
    then \<exists>s. run_ops ops (SalaryManage mx) = Inr (fst (spec_ops ops Map.empty), s)
      \<and> display s = Inr (map (\<lambda>n. (n, the (snd (spec_ops ops Map.empty) n))) (first_uses ops))
      \<and> destroy s = card (op_name ` set ops)
    else run_ops ops (SalaryManage mx) = Inl OutOfBounds"
proof -
  let ?new = "SalaryManage mx :: 'd salary_manage"
  have ok: "table_ok ?new" and emp: "salary_map ?new = Map.empty" "length (employ ?new) = nat mx" "entries ?new = []"
    using assms(1,2) by (simp_all add: table_ok_def SalaryManage_def entries_def salary_map_def)
  show ?thesis
  proof (cases "int (card (op_name ` set ops)) \<le> mx")
    case True
    then have "card (op_name ` set ops) \<le> nat mx" by linarith
    with run_ops_ok [OF ok assms(3)] emp obtain s where
      s: "run_ops ops ?new = Inr (fst (spec_ops ops Map.empty), s)" "table_ok s"
        "salary_map s = snd (spec_ops ops Map.empty)" "map fst (entries s) = first_uses ops"
      by (auto simp: first_uses_def)
    have "dom (snd (spec_ops ops m)) = dom m \<union> op_name ` set ops" for m :: "string \<rightharpoonup> 'd"
      by (induction ops arbitrary: m) (simp_all add: Let_def case_prod_beta dom_spec_op)
    then have "destroy s = card (op_name ` set ops)"
      using sn_card [OF s(2)] s(2) by (simp add: destroy_def table_ok_def s(3))
    moreover have "display s = Inr (map (\<lambda>n. (n, the (snd (spec_ops ops Map.empty) n))) (first_uses ops))"
      using display_entries [OF s(2)] entries_of_map [OF s(2)] s(3,4) by simp
    ultimately show ?thesis using s(1) True by auto
  next
    case False
    then have "\<not> card (op_name ` set ops) \<le> nat mx" using assms(1) by linarith
    with run_ops_ok [OF ok assms(3)] emp False show ?thesis by simp
  qed
qed

definition demo_script :: "nat table_op list" where
  "demo_script = [Put ''li si'' 5, Get ''wang wu'', Put ''li si'' 7, Get ''li si'']"

theorem salary_table_refines_map_witness:
  "\<exists>s. run_ops demo_script (SalaryManage 2) = Inr ([0, 7], s)
    \<and> display s = Inr [(''li si'', 7), (''wang wu'', 0)] \<and> destroy s = 2"
proof -
  have "op_name ` set demo_script = {''li si'', ''wang wu''}" by (auto simp: demo_script_def)
  then have "card (op_name ` set demo_script) = 2" by simp
  moreover have "fst (spec_ops demo_script Map.empty) = [0, 7]" "first_uses demo_script = [''li si'', ''wang wu'']"
    "snd (spec_ops demo_script Map.empty) ''li si'' = Some 7" "snd (spec_ops demo_script Map.empty) ''wang wu'' = Some 0"
    by (simp_all add: demo_script_def Let_def first_uses_def use_name_def)
  moreover have "\<forall>op\<in>set demo_script. no_nul (op_name op)" by (simp add: demo_script_def no_nul_def NUL_def)
  ultimately show ?thesis using salary_table_refines_map [of 2 demo_script] by simp
qed

text \<open>
  The program prints the three salaries that it sets (in hundredths), by look-up and by
  display, in the order in which it set them, and leaks the three names.
\<close>
theorem salary_main_output:
  "salary_main (218888 :: int) 123007 320097 = Inr ([218888, 123007, 320097],
     [(''zhang san'', 218888), (''li si'', 123007), (''wang wu'', 320097)], 3)"
  by code_simp

end
