(* ===== verification/StringMap.thy ===== *)
theory StringMap
  imports CString
begin

section \<open>The string map (\<open>CPlusPlusThings/practical_exercises/map_insert_look.cpp\<close>)\<close>

text \<open>
  A \<open>std::map<const char *, const char *>\<close>: its keys and values are addresses, its order is the
  order of the addresses, and its look-up compares addresses, not strings.  Where the compiler
  puts the arrays and the string literals is a parameter, the record \<open>layout\<close>; the two
  occurrences of \<open>"addr"\<close> may share an address or not.  Output is a list of strings, one for each
  statement that prints; an input is the rest of \<open>cin\<close> and whether the stream is still good.
\<close>

record layout =
  key_at :: int
  value_at :: int
  lit_insert :: int
  lit_find :: int
  lit_china :: int

type_synonym entry = "int \<times> int"

definition TAB :: char where "TAB = CHR 0x09"

definition utf8 :: "nat list \<Rightarrow> string" where
  "utf8 bs = map char_of bs"

definition china :: string where
  "china = utf8 [0xE4, 0xB8, 0xAD, 0xE5, 0x9B, 0xBD]"

definition keys :: "string list" where
  "keys = [''img'', ''system'', ''ip'']"

definition vals :: "string list" where
  "vals = [''d:/a.img'', ''win7'', ''193.68.6.3'']"

text \<open>The rows of the two arrays have 20 characters.\<close>

definition key_ptr :: "layout \<Rightarrow> nat \<Rightarrow> int" where
  "key_ptr L i = key_at L + 20 * int i"

definition value_ptr :: "layout \<Rightarrow> nat \<Rightarrow> int" where
  "value_ptr L i = value_at L + 20 * int i"

definition cells :: "layout \<Rightarrow> (int \<times> string) list" where
  "cells L = [(lit_insert L, ''addr''), (lit_find L, ''addr''), (lit_china L, china),
     (key_ptr L 0, keys ! 0), (key_ptr L 1, keys ! 1), (key_ptr L 2, keys ! 2),
     (value_ptr L 0, vals ! 0), (value_ptr L 1, vals ! 1), (value_ptr L 2, vals ! 2)]"

definition str_at :: "layout \<Rightarrow> int \<Rightarrow> string res" where
  "str_at L p = (case map_of (cells L) p of None \<Rightarrow> Inl WildDeref | Some s \<Rightarrow> Inr s)"

subsection \<open>The map\<close>

text \<open>\<open>insert\<close> leaves an existing element, \<open>mp[k] = v\<close> replaces its value.\<close>

fun map_insert :: "entry \<Rightarrow> entry list \<Rightarrow> entry list" where
  "map_insert e [] = [e]"
| "map_insert e (x # m) =
     (if fst e < fst x then e # x # m else if fst e = fst x then x # m else x # map_insert e m)"

fun map_assign :: "int \<Rightarrow> int \<Rightarrow> entry list \<Rightarrow> entry list" where
  "map_assign k v [] = [(k, v)]"
| "map_assign k v (x # m) =
     (if k < fst x then (k, v) # x # m else if k = fst x then (k, v) # m else x # map_assign k v m)"

definition map_find :: "int \<Rightarrow> entry list \<Rightarrow> entry option" where
  "map_find k m = find (\<lambda>e. fst e = k) m"

definition map_erase :: "entry \<Rightarrow> entry list \<Rightarrow> entry list" where
  "map_erase e m = filter (\<lambda>x. fst x \<noteq> fst e) m"

definition ordered :: "entry list \<Rightarrow> bool" where
  "ordered m \<longleftrightarrow> sorted_wrt (<) (map fst m)"

subsection \<open>The program\<close>

text \<open>
  \<open>cin.getline (b, n)\<close>: the line without its newline.  A line of \<open>n\<close> characters or more is cut
  and fails the stream, after which every \<open>getline\<close> stores the empty string.
\<close>

definition getline :: "nat \<Rightarrow> string \<times> bool \<Rightarrow> string \<times> string \<times> bool" where
  "getline n inp = (case inp of (s, good) \<Rightarrow>
     let l = takeWhile (\<lambda>c. c \<noteq> NL) s; rest = dropWhile (\<lambda>c. c \<noteq> NL) s in
     if \<not> good then ([], s, False)
     else if length l < n then (if rest = [] then (l, [], False) else (l, tl rest, True))
     else (take (n - 1) l, drop (n - 1) s, False))"

text \<open>\<open>strcmp\<close> and \<open><<\<close> see what the buffer holds up to its first NUL.\<close>

definition buf_str :: "string \<Rightarrow> string" where
  "buf_str l = takeWhile (\<lambda>c. c \<noteq> NUL) l"

definition insert_all :: "layout \<Rightarrow> entry list" where
  "insert_all L =
     (let mp = fold (\<lambda>i mp. map_insert (key_ptr L i, value_ptr L i) mp) [0 ..< 2] [];
          mp = map_insert (key_ptr L 2, value_ptr L 2) mp
      in map_assign (lit_insert L) (lit_china L) mp)"

definition pair_line :: "string \<Rightarrow> string \<Rightarrow> string" where
  "pair_line k v = k @ [TAB] @ v @ [NL]"

fun show_all :: "layout \<Rightarrow> entry list \<Rightarrow> string list res" where
  "show_all L [] = Inr []"
| "show_all L (e # m) =
     bindE (str_at L (fst e)) (\<lambda>k.
     bindE (str_at L (snd e)) (\<lambda>v.
     bindE (show_all L m) (\<lambda>ls. Inr (pair_line k v # ls))))"

definition found_line :: "string \<Rightarrow> string \<Rightarrow> string" where
  "found_line k v = k @ ''found it!'' @ ''it's value :'' @ v @ [NL]"

fun search_all :: "layout \<Rightarrow> string \<Rightarrow> entry list \<Rightarrow> string list res" where
  "search_all L key1 [] = Inr []"
| "search_all L key1 (e # m) =
     bindE (str_at L (fst e)) (\<lambda>k.
     bindE (if strcmp k key1 = 0 then bindE (str_at L (snd e)) (\<lambda>v. Inr [found_line k v]) else Inr []) (\<lambda>out1.
     bindE (search_all L key1 m) (\<lambda>ls. Inr (out1 @ ls))))"

definition addr_lines :: "string \<Rightarrow> string \<Rightarrow> string list" where
  "addr_lines k v = [k @ ''found by key !'' @ ''It's value :'' @ v @ [NL], ''begin delete element!'' @ [NL]]"

definition drop_addr :: "layout \<Rightarrow> entry list \<Rightarrow> (string list \<times> entry list) res" where
  "drop_addr L mp =
     (case map_find (lit_find L) mp of
        None \<Rightarrow> Inr ([], mp)
      | Some e \<Rightarrow>
          bindE (str_at L (fst e)) (\<lambda>k.
          bindE (str_at L (snd e)) (\<lambda>v. Inr (addr_lines k v, map_erase e mp))))"

definition ask_key :: string where
  "ask_key = utf8 [0xE8, 0xAF, 0xB7, 0xE8, 0xBE, 0x93, 0xE5, 0x85, 0xA5, 0xE6, 0x8C, 0x89] @ ''key''
     @ utf8 [0xE5, 0x88, 0xA0, 0xE9, 0x99, 0xA4, 0xEF, 0xBC, 0x9A]"

definition ask_value :: string where
  "ask_value = utf8 [0xE8, 0xAF, 0xB7, 0xE8, 0xBE, 0x93, 0xE5, 0x85, 0xA5, 0xE6, 0x8C, 0x89] @ ''value''
     @ utf8 [0xE5, 0x88, 0xA0, 0xE9, 0x99, 0xA4, 0xEF, 0xBC, 0x9A]"

definition found_out :: string where
  "found_out = utf8 [0xE6, 0x9F, 0xA5, 0xE6, 0x89, 0xBE, 0xE5, 0x87, 0xBA, 0xE6, 0x9D, 0xA5, 0xE4, 0xBA, 0x86, 0xEF, 0xBC, 0x81]"

definition matching :: string where
  "matching = utf8 [0xE5, 0xAF, 0xB9, 0xE5, 0xBA, 0x94, 0xE7, 0x9A, 0x84]"

definition is_colon :: string where
  "is_colon = utf8 [0xE4, 0xB8, 0xBA, 0xEF, 0xBC, 0x9A]"

definition begin_delete :: string where
  "begin_delete = utf8 [0xE5, 0xBC, 0x80, 0xE5, 0xA7, 0x8B, 0xE5, 0x88, 0xA0, 0xE9, 0x99, 0xA4, 0xE5, 0x85, 0x83,
     0xE7, 0xB4, 0xA0, 0xEF, 0xBC, 0x81, 0x0A]"

definition key_lines :: "string \<Rightarrow> string \<Rightarrow> string list" where
  "key_lines k v = [k @ utf8 [0xE6, 0x8C, 0x89, 0xE7, 0x85, 0xA7] @ ''key'' @ found_out @ matching @ ''value'' @ is_colon
     @ v @ [NL], begin_delete]"

definition value_lines :: "string \<Rightarrow> string \<Rightarrow> string list" where
  "value_lines k v = [v @ ''value'' @ found_out @ matching @ ''key'' @ is_colon @ k @ [NL], begin_delete]"

text \<open>The loop that deletes one element: \<open>mp\<close> is the whole map, the list what is still to visit.\<close>

fun drop_loop :: "layout \<Rightarrow> string \<Rightarrow> string \<Rightarrow> entry list \<Rightarrow> entry list \<Rightarrow> (string list \<times> entry list) res" where
  "drop_loop L dk dv mp [] = Inr ([], mp)"
| "drop_loop L dk dv mp (e # rest) =
     bindE (str_at L (fst e)) (\<lambda>k.
     bindE (str_at L (snd e)) (\<lambda>v.
       if strcmp k dk = 0 then Inr (key_lines k v, map_erase e mp)
       else if strcmp v dv = 0 then Inr (value_lines k v, map_erase e mp)
       else drop_loop L dk dv mp rest))"

definition after_delete :: string where
  "after_delete = ''------'' @ utf8 [0xE5, 0x88, 0xA0, 0xE9, 0x99, 0xA4, 0xE5, 0x85, 0x83, 0xE7, 0xB4, 0xA0, 0xE4,
     0xBB, 0xA5, 0xE5, 0x90, 0x8E] @ ''--------'' @ [NL]"

definition map_look_main :: "layout \<Rightarrow> string \<Rightarrow> (string list \<times> entry list) res" where
  "map_look_main L stdin =
     (let mp = insert_all L in
      bindE (show_all L mp) (\<lambda>all.
      let (key1, inp) = getline 20 (stdin, True) in
      bindE (search_all L (buf_str key1) mp) (\<lambda>found.
      bindE (drop_addr L mp) (\<lambda>(addr, mp).
      let (drop_key, inp) = getline 20 inp; (drop_value, inp) = getline 20 inp in
      bindE (drop_loop L (buf_str drop_key) (buf_str drop_value) mp mp) (\<lambda>(dropped, mp).
      bindE (show_all L mp) (\<lambda>rest.
        Inr (all @ [''please input key for find''] @ found @ addr @ [ask_key, ask_value] @ dropped
          @ [after_delete] @ rest, mp)))))))"

subsection \<open>The order of the elements\<close>

lemma map_insert_keys: "set (map fst (map_insert e m)) = insert (fst e) (set (map fst m))"
  by (induction m) auto

lemma map_assign_keys: "set (map fst (map_assign k v m)) = insert k (set (map fst m))"
  by (induction m) auto

lemma ordered_insert: "ordered m \<Longrightarrow> ordered (map_insert e m)"
  unfolding ordered_def
proof (induction m)
  case (Cons x m)
  show ?case using Cons map_insert_keys [of e m] by (auto simp del: set_map)
qed simp

lemma ordered_assign: "ordered m \<Longrightarrow> ordered (map_assign k v m)"
  unfolding ordered_def
proof (induction m)
  case (Cons x m)
  show ?case using Cons map_assign_keys [of k v m] by (auto simp del: set_map)
qed simp

lemma ordered_erase: "ordered m \<Longrightarrow> ordered (map_erase e m)"
  unfolding ordered_def map_erase_def by (induction m) auto

lemma ordered_distinct: "ordered m \<Longrightarrow> distinct (map fst m)"
  by (simp add: ordered_def strict_sorted_iff)

lemma ordered_insert_all: "ordered (insert_all L)"
  unfolding insert_all_def Let_def
  by (simp add: ordered_assign ordered_insert upt_rec) (simp add: ordered_def)

lemma map_insert_lookup:
  "ordered m \<Longrightarrow> map_of (map_insert (k, v) m) k' = (if k' = k \<and> map_of m k = None then Some v else map_of m k')"
  unfolding ordered_def
proof (induction m)
  case (Cons x m)
  have "map_of m k = None" if "k < fst x" using that Cons.prems by (auto simp: map_of_eq_None_iff)
  moreover have "map_of m (fst x) = None" using Cons.prems by (auto simp: map_of_eq_None_iff)
  ultimately show ?case using Cons by (cases x) auto
qed simp

lemma map_assign_lookup: "ordered m \<Longrightarrow> map_of (map_assign k v m) = (map_of m)(k \<mapsto> v)"
  unfolding ordered_def by (induction m) auto

subsection \<open>The strings behind the addresses\<close>

text \<open>The objects of the program do not overlap; only the two literals \<open>"addr"\<close> may be one.\<close>

definition apart :: "layout \<Rightarrow> int \<Rightarrow> bool" where
  "apart L p \<longleftrightarrow> (p < key_at L \<or> key_at L + 60 \<le> p) \<and> (p < value_at L \<or> value_at L + 60 \<le> p)"

definition layout_ok :: "layout \<Rightarrow> bool" where
  "layout_ok L \<longleftrightarrow> (key_at L + 60 \<le> value_at L \<or> value_at L + 60 \<le> key_at L)
     \<and> apart L (lit_insert L) \<and> apart L (lit_find L) \<and> apart L (lit_china L)
     \<and> lit_china L \<noteq> lit_insert L \<and> lit_china L \<noteq> lit_find L"

lemma key_ptrs: "key_ptr L 0 = key_at L" "key_ptr L (Suc 0) = key_at L + 20" "key_ptr L 1 = key_at L + 20"
    "key_ptr L 2 = key_at L + 40"
  and value_ptrs: "value_ptr L 0 = value_at L" "value_ptr L (Suc 0) = value_at L + 20" "value_ptr L 1 = value_at L + 20"
    "value_ptr L 2 = value_at L + 40"
  by (simp_all add: key_ptr_def value_ptr_def)

lemma apart_neq:
  assumes "apart L p"
  shows "p \<noteq> key_at L" "p \<noteq> key_at L + 20" "p \<noteq> key_at L + 40"
    "p \<noteq> value_at L" "p \<noteq> value_at L + 20" "p \<noteq> value_at L + 40"
  using assms by (auto simp: apart_def)

lemma rows_neq:
  assumes "layout_ok L"
  shows "key_at L \<noteq> value_at L" "key_at L \<noteq> value_at L + 20" "key_at L \<noteq> value_at L + 40"
    "key_at L + 20 \<noteq> value_at L" "key_at L + 20 \<noteq> value_at L + 40"
    "key_at L + 40 \<noteq> value_at L" "key_at L + 40 \<noteq> value_at L + 20"
  using assms by (auto simp: layout_ok_def)

lemma str_ats:
  assumes "layout_ok L"
  shows "str_at L (lit_insert L) = Inr ''addr''" "str_at L (lit_china L) = Inr china"
    "str_at L (key_at L) = Inr ''img''" "str_at L (key_at L + 20) = Inr ''system''" "str_at L (key_at L + 40) = Inr ''ip''"
    "str_at L (value_at L) = Inr ''d:/a.img''" "str_at L (value_at L + 20) = Inr ''win7''"
    "str_at L (value_at L + 40) = Inr ''193.68.6.3''"
proof -
  have a: "apart L (lit_insert L)" "apart L (lit_find L)" "apart L (lit_china L)" "lit_china L \<noteq> lit_insert L"
    "lit_china L \<noteq> lit_find L"
    using assms by (simp_all add: layout_ok_def)
  note n = apart_neq [OF a(1)] apart_neq [OF a(2)] apart_neq [OF a(3)] rows_neq [OF assms] a(4,5)
  note d = str_at_def cells_def key_ptrs value_ptrs keys_def vals_def
  show "str_at L (lit_insert L) = Inr ''addr''" by (simp add: d)
  show "str_at L (lit_china L) = Inr china" using n by (simp add: d)
  show "str_at L (key_at L) = Inr ''img''" using n by (simp add: d)
  show "str_at L (key_at L + 20) = Inr ''system''" using n by (simp add: d)
  show "str_at L (key_at L + 40) = Inr ''ip''" using n by (simp add: d)
  show "str_at L (value_at L) = Inr ''d:/a.img''" using n by (simp add: d)
  show "str_at L (value_at L + 20) = Inr ''win7''" using n by (simp add: d)
  show "str_at L (value_at L + 40) = Inr ''193.68.6.3''" using n by (simp add: d)
qed

text \<open>\<open>texts L m ns\<close>: the elements of \<open>m\<close> spell the pairs of strings \<open>ns\<close>.\<close>

definition spells :: "layout \<Rightarrow> entry \<Rightarrow> string \<times> string \<Rightarrow> bool" where
  "spells L e n \<longleftrightarrow> str_at L (fst e) = Inr (fst n) \<and> str_at L (snd e) = Inr (snd n) \<and> no_nul (fst n) \<and> no_nul (snd n)"

abbreviation texts :: "layout \<Rightarrow> entry list \<Rightarrow> (string \<times> string) list \<Rightarrow> bool" where
  "texts L \<equiv> list_all2 (spells L)"

lemma no_nul_buf_str: "no_nul (buf_str l)"
  by (auto simp: no_nul_def buf_str_def dest: set_takeWhileD)

lemma show_all_texts: "texts L m ns \<Longrightarrow> show_all L m = Inr (map (\<lambda>(k, v). pair_line k v) ns)"
  by (induction rule: list_all2_induct) (auto simp: spells_def)

lemma search_all_texts:
  "texts L m ns \<Longrightarrow> no_nul key1 \<Longrightarrow>
   search_all L key1 m = Inr (map (\<lambda>(k, v). found_line k v) (filter (\<lambda>(k, v). k = key1) ns))"
  by (induction rule: list_all2_induct) (auto simp: spells_def strcmp_eq)

subsection \<open>The program on strings\<close>

text \<open>The reference: the same program on a list of pairs of strings.\<close>

fun drop_first :: "string \<Rightarrow> string \<Rightarrow> (string \<times> string) list \<Rightarrow> string list \<times> (string \<times> string) list" where
  "drop_first dk dv [] = ([], [])"
| "drop_first dk dv ((k, v) # ns) =
     (if k = dk then (key_lines k v, ns)
      else if v = dv then (value_lines k v, ns)
      else (case drop_first dk dv ns of (ls, ns') \<Rightarrow> (ls, (k, v) # ns')))"

definition base_pairs :: "(string \<times> string) list" where
  "base_pairs = [(''img'', ''d:/a.img''), (''system'', ''win7''), (''ip'', ''193.68.6.3'')]"

definition all_pairs :: "bool \<Rightarrow> (string \<times> string) list" where
  "all_pairs low = (if low then (''addr'', china) # base_pairs else base_pairs @ [(''addr'', china)])"

definition reference :: "bool \<Rightarrow> bool \<Rightarrow> string \<Rightarrow> string \<Rightarrow> string \<Rightarrow> string list" where
  "reference low merged key1 dk dv =
     (case drop_first dk dv (if merged then base_pairs else all_pairs low) of (dropped, rest) \<Rightarrow>
        map (\<lambda>(k, v). pair_line k v) (all_pairs low) @ [''please input key for find'']
        @ map (\<lambda>(k, v). found_line k v) (filter (\<lambda>(k, v). k = key1) (all_pairs low))
        @ (if merged then addr_lines ''addr'' china else []) @ [ask_key, ask_value] @ dropped
        @ [after_delete] @ map (\<lambda>(k, v). pair_line k v) rest)"

lemma drop_loop_texts:
  assumes "texts L m ns" and "distinct (map fst (pre @ m))" and "no_nul dk" and "no_nul dv"
  shows "\<exists>m'. drop_loop L dk dv (pre @ m) m = Inr (fst (drop_first dk dv ns), pre @ m')
    \<and> texts L m' (snd (drop_first dk dv ns))"
  using assms(1,2)
proof (induction arbitrary: pre rule: list_all2_induct)
  case Nil
  then show ?case by simp
next
  case (Cons e m n ns)
  have s: "str_at L (fst e) = Inr (fst n)" "str_at L (snd e) = Inr (snd n)" "no_nul (fst n)" "no_nul (snd n)"
    using Cons.hyps(1) by (simp_all add: spells_def)
  have "fst e \<notin> fst ` set pre" "fst e \<notin> fst ` set m" using Cons.prems by auto
  then have "\<forall>x\<in>set pre. fst x \<noteq> fst e" "\<forall>x\<in>set m. fst x \<noteq> fst e" by (metis image_iff)+
  then have er: "map_erase e (pre @ e # m) = pre @ m" by (simp add: map_erase_def)
  obtain k v where n: "n = (k, v)" by (cases n)
  show ?case
  proof (cases "k = dk \<or> v = dv")
    case True
    then show ?thesis using s Cons.hyps(2) by (auto simp: n er strcmp_eq assms(3,4))
  next
    case False
    obtain m' where m': "drop_loop L dk dv ((pre @ [e]) @ m) m = Inr (fst (drop_first dk dv ns), (pre @ [e]) @ m')"
      "texts L m' (snd (drop_first dk dv ns))"
      using Cons.IH [of "pre @ [e]"] Cons.prems by auto
    then have "drop_loop L dk dv (pre @ e # m) (e # m) = Inr (fst (drop_first dk dv (n # ns)), pre @ (e # m'))"
      using False s by (simp add: n strcmp_eq assms(3,4) split: prod.split)
    moreover have "texts L (e # m') (snd (drop_first dk dv (n # ns)))"
      using False m'(2) Cons.hyps(1) by (cases "drop_first dk dv ns") (simp add: n)
    ultimately show ?thesis by blast
  qed
qed

lemma drop_loop_ordered: "drop_loop L dk dv mp rest = Inr (ls, m') \<Longrightarrow> ordered mp \<Longrightarrow> ordered m'"
  by (induction rest) (auto simp: bindE_eq_Inr_iff ordered_erase split: if_splits)

lemma insert_all_low:
  "lit_insert L < key_at L \<Longrightarrow> insert_all L = [(lit_insert L, lit_china L), (key_at L, value_at L),
    (key_at L + 20, value_at L + 20), (key_at L + 40, value_at L + 40)]"
  by (simp add: insert_all_def upt_rec key_ptrs value_ptrs)

lemma insert_all_high:
  "key_at L + 60 \<le> lit_insert L \<Longrightarrow> insert_all L = [(key_at L, value_at L),
    (key_at L + 20, value_at L + 20), (key_at L + 40, value_at L + 40), (lit_insert L, lit_china L)]"
  by (simp add: insert_all_def upt_rec key_ptrs value_ptrs)

lemma no_nul_pairs: "no_nul ''addr''" "no_nul china" "no_nul ''img''" "no_nul ''system''" "no_nul ''ip''"
    "no_nul ''d:/a.img''" "no_nul ''win7''" "no_nul ''193.68.6.3''"
  by (simp_all add: no_nul_def NUL_def china_def utf8_def char_of_def)

lemma texts_insert_all:
  assumes "layout_ok L"
  shows "texts L (insert_all L) (all_pairs (lit_insert L < key_at L))"
proof (cases "lit_insert L < key_at L")
  case True
  then show ?thesis
    by (simp add: insert_all_low all_pairs_def base_pairs_def spells_def str_ats [OF assms] no_nul_pairs)
next
  case False
  then have "key_at L + 60 \<le> lit_insert L" using assms by (simp add: layout_ok_def apart_def)
  then show ?thesis using False
    by (simp add: insert_all_high all_pairs_def base_pairs_def spells_def str_ats [OF assms] no_nul_pairs)
qed

lemma drop_addr_texts:
  assumes "layout_ok L"
  shows "\<exists>m. drop_addr L (insert_all L) = Inr (if lit_find L = lit_insert L then addr_lines ''addr'' china else [], m)
    \<and> ordered m \<and> texts L m (if lit_find L = lit_insert L then base_pairs else all_pairs (lit_insert L < key_at L))"
proof -
  have a: "apart L (lit_insert L)" "apart L (lit_find L)" using assms by (simp_all add: layout_ok_def)
  note n = apart_neq [OF a(1)] apart_neq [OF a(2)]
  note st = str_ats [OF assms]
  have shape: "insert_all L = (if lit_insert L < key_at L then [(lit_insert L, lit_china L)] else [])
      @ [(key_at L, value_at L), (key_at L + 20, value_at L + 20), (key_at L + 40, value_at L + 40)]
      @ (if lit_insert L < key_at L then [] else [(lit_insert L, lit_china L)])"
    using a(1) insert_all_low insert_all_high by (auto simp: apart_def)
  show ?thesis
  proof (cases "lit_find L = lit_insert L")
    case True
    have "map_find (lit_find L) (insert_all L) = Some (lit_insert L, lit_china L)"
      unfolding shape True map_find_def using n by simp
    moreover have "map_erase (lit_insert L, lit_china L) (insert_all L)
        = [(key_at L, value_at L), (key_at L + 20, value_at L + 20), (key_at L + 40, value_at L + 40)]"
      unfolding shape map_erase_def using n by simp
    ultimately show ?thesis using True ordered_erase [OF ordered_insert_all, of "(lit_insert L, lit_china L)" L]
      by (simp add: drop_addr_def st base_pairs_def spells_def no_nul_pairs)
  next
    case False
    then have "map_find (lit_find L) (insert_all L) = None"
      unfolding shape map_find_def using n by (simp add: find_None_iff)
    then show ?thesis using False ordered_insert_all texts_insert_all [OF assms] by (simp add: drop_addr_def)
  qed
qed

lemma map_look_main_reads:
  assumes "layout_ok L" and "getline 20 (stdin, True) = (l1, i1)" and "getline 20 i1 = (l2, i2)"
    and "getline 20 i2 = (l3, i3)"
  shows "\<exists>m. map_look_main L stdin = Inr (reference (lit_insert L < key_at L) (lit_find L = lit_insert L)
    (buf_str l1) (buf_str l2) (buf_str l3), m) \<and> ordered m"
proof -
  let ?low = "lit_insert L < key_at L" and ?merged = "lit_find L = lit_insert L"
  note t = texts_insert_all [OF assms(1)]
  obtain m where m: "drop_addr L (insert_all L) = Inr (if ?merged then addr_lines ''addr'' china else [], m)"
    "ordered m" "texts L m (if ?merged then base_pairs else all_pairs ?low)"
    using drop_addr_texts [OF assms(1)] by blast
  obtain m' where m': "drop_loop L (buf_str l2) (buf_str l3) m m
      = Inr (fst (drop_first (buf_str l2) (buf_str l3) (if ?merged then base_pairs else all_pairs ?low)), m')"
    "texts L m' (snd (drop_first (buf_str l2) (buf_str l3) (if ?merged then base_pairs else all_pairs ?low)))"
    using drop_loop_texts [OF m(3), of "[]" "buf_str l2" "buf_str l3"] ordered_distinct [OF m(2)]
    by (auto simp: no_nul_buf_str)
  have "ordered m'" using drop_loop_ordered [OF m'(1) m(2)] .
  moreover have "map_look_main L stdin = Inr (reference ?low ?merged (buf_str l1) (buf_str l2) (buf_str l3), m')"
    unfolding map_look_main_def Let_def show_all_texts [OF t] search_all_texts [OF t no_nul_buf_str] bindE_simps
      assms(2) prod.case m(1) assms(3,4) m'(1) show_all_texts [OF m'(2)]
    by (simp add: reference_def split: prod.split)
  ultimately show ?thesis by blast
qed

subsection \<open>Properties of the program\<close>

lemma getline_line:
  assumes "NL \<notin> set l" and "length l < n"
  shows "getline n (l @ NL # rst, True) = (l, rst, True)"
proof -
  have "takeWhile (\<lambda>c. c \<noteq> NL) (l @ NL # rst) = l" "dropWhile (\<lambda>c. c \<noteq> NL) (l @ NL # rst) = NL # rst"
    using assms(1) by (subst takeWhile_append2, auto) (subst dropWhile_append2, auto)
  then show ?thesis using assms(2) by (simp add: getline_def)
qed

lemma getline_long:
  assumes "NL \<notin> set l" and "n \<le> length l"
  shows "\<exists>s. getline n (l @ rst, True) = (take (n - 1) l, s, False)"
proof -
  have "takeWhile (\<lambda>c. c \<noteq> NL) (l @ rst) = l @ takeWhile (\<lambda>c. c \<noteq> NL) rst"
    using assms(1) by (subst takeWhile_append2) auto
  then show ?thesis using assms(2) by (simp add: getline_def Let_def)
qed

text \<open>
  C30: the program on addresses does what it means on strings.  Wherever the compiler puts the
  arrays and literals, for any three input lines of at most 19 characters, it prints what the
  reference on pairs of strings prints: all four pairs, the pairs of the first line's key, and
  what is left after the pair "addr" and the first pair that has the key of the second line or
  the value of the third are deleted.  The map stays ordered.  "addr" is deleted only if its two
  literals share an address, and stands first or last depending on where its literal is.
\<close>
theorem map_look_equals_reference:
  assumes "layout_ok L" and "stdin = l1 @ NL # l2 @ NL # l3 @ NL # rst"
    and "NL \<notin> set l1 \<union> set l2 \<union> set l3" and "length l1 < 20" and "length l2 < 20" and "length l3 < 20"
  shows "\<exists>m. map_look_main L stdin = Inr (reference (lit_insert L < key_at L) (lit_find L = lit_insert L)
    (buf_str l1) (buf_str l2) (buf_str l3), m) \<and> ordered m"
proof (rule map_look_main_reads [OF assms(1)])
  show "getline 20 (stdin, True) = (l1, l2 @ NL # l3 @ NL # rst, True)"
    unfolding assms(2) using assms(3,4) by (intro getline_line) simp_all
  show "getline 20 (l2 @ NL # l3 @ NL # rst, True) = (l2, l3 @ NL # rst, True)"
    using assms(3,5) by (intro getline_line) simp_all
  show "getline 20 (l3 @ NL # rst, True) = (l3, rst, True)"
    using assms(3,6) by (intro getline_line) simp_all
qed

definition demo_layout :: layout where
  "demo_layout = \<lparr>key_at = 9000, value_at = 9064, lit_insert = 4000, lit_find = 4000, lit_china = 4008\<rparr>"

theorem map_look_equals_reference_witness:
  "\<exists>m. map_look_main demo_layout (''ip'' @ NL # ''img'' @ NL # ''win7'' @ NL # []) =
      Inr (reference (lit_insert demo_layout < key_at demo_layout) (lit_find demo_layout = lit_insert demo_layout)
        (buf_str ''ip'') (buf_str ''img'') (buf_str ''win7''), m) \<and> ordered m"
  by (rule map_look_equals_reference) (simp_all add: demo_layout_def layout_ok_def apart_def NL_def)

text \<open>
  A first line of 20 characters or rst fails the stream: the next two lines are never read, and
  no pair but "addr" is deleted, whatever they say.
\<close>
theorem long_line_deletes_nothing:
  assumes "layout_ok L" and "NL \<notin> set l1" and "20 \<le> length l1"
  shows "\<exists>m. map_look_main L (l1 @ rst) = Inr (reference (lit_insert L < key_at L) (lit_find L = lit_insert L)
      (buf_str (take 19 l1)) [] [], m)
    \<and> drop_first [] [] (all_pairs low) = ([], all_pairs low) \<and> drop_first [] [] base_pairs = ([], base_pairs)"
proof -
  obtain s where s: "getline 20 (l1 @ rst, True) = (take 19 l1, s, False)"
    using getline_long [OF assms(2,3), of rst] by auto
  have f: "getline 20 (s, False) = ([], s, False)" by (simp add: getline_def)
  have d: "drop_first [] [] (all_pairs low) = ([], all_pairs low)" "drop_first [] [] base_pairs = ([], base_pairs)"
    by (simp_all add: all_pairs_def base_pairs_def china_def utf8_def)
  show ?thesis using map_look_main_reads [OF assms(1) s f f] d by (auto simp: buf_str_def)
qed

end
