(* ===== verification/Seccomp.thy ===== *)
theory Seccomp
  imports CString "HOL-Library.Multiset"
begin

section \<open>System call filters (\<open>seccomp/seccomp_bpf_mode.c\<close>, \<open>seccomp/seccomp_strict_mode.c\<close>)\<close>

text \<open>
  Two programs that put a filter on their own system calls and go on.  A program is the list of
  its actions; a process runs them one after the other, every system call (those of the stdio
  buffer and of the exit included) past the filter in force.  The meaning of a libseccomp rule
  is the documented one: the action of a rule whose comparisons all hold, else the default
  action; arguments are 64-bit unsigned values.
\<close>

datatype sysno = sys_exit_group | sys_getpid | sys_brk | sys_write | sys_read | sys_exit_thread | sys_sigreturn | sys_openat | sys_othercall nat

datatype action = SCMP_ACT_KILL | SCMP_ACT_ALLOW | SCMP_ACT_ERRNO int

datatype compare_op = SCMP_CMP_EQ | SCMP_CMP_NE | SCMP_CMP_LE

record scall =
  nr :: sysno
  arg :: "nat \<Rightarrow> 64 word"

record rule =
  act :: action
  rnr :: sysno
  conds :: "(nat \<times> compare_op \<times> 64 word) list"

definition EBADF :: int where
  "EBADF = 9"

fun cond_holds :: "(nat \<times> compare_op \<times> 64 word) \<Rightarrow> scall \<Rightarrow> bool" where
  "cond_holds (i, SCMP_CMP_EQ, v) c = (arg c i = v)"
| "cond_holds (i, SCMP_CMP_NE, v) c = (arg c i \<noteq> v)"
| "cond_holds (i, SCMP_CMP_LE, v) c = (arg c i \<le> v)"

definition matches :: "rule \<Rightarrow> scall \<Rightarrow> bool" where
  "matches r c \<longleftrightarrow> rnr r = nr c \<and> list_all (\<lambda>x. cond_holds x c) (conds r)"

definition decide :: "action \<Rightarrow> rule list \<Rightarrow> scall \<Rightarrow> action" where
  "decide deflt rs c = (case find (\<lambda>r. matches r c) rs of None \<Rightarrow> deflt | Some r \<Rightarrow> act r)"

text \<open>The strict mode of the kernel: read, write, _exit and sigreturn.\<close>

definition strict_filter :: "scall \<Rightarrow> action" where
  "strict_filter c = (if nr c \<in> {sys_read, sys_write, sys_exit_thread, sys_sigreturn} then SCMP_ACT_ALLOW else SCMP_ACT_KILL)"

subsection \<open>Processes\<close>

text \<open>
  Standard output is line-buffered on a terminal and fully buffered otherwise (no program here
  prints as much as a buffer holds).  \<open>Call\<close> is a system call of the program or of the library
  on its behalf; \<open>PrintPid\<close> is \<open>printf (text, getpid ())\<close>.  A call that the filter fails
  with an error returns the negated number, which \<open>getpid\<close> of glibc passes on unchecked.
\<close>

datatype step =
    Print string
  | PrintPid string
  | Call scall
  | AddRule rule
  | Load action
  | Strict
  | Return

datatype status = Running | Killed | Exited

record proc =
  filt :: "scall \<Rightarrow> action"
  rules :: "rule list"
  obuf :: string
  shown :: string
  stat :: status

definition start :: proc where
  "start = \<lparr>filt = (\<lambda>_. SCMP_ACT_ALLOW), rules = [], obuf = [], shown = [], stat = Running\<rparr>"

definition mk_call :: "sysno \<Rightarrow> 64 word \<Rightarrow> 64 word \<Rightarrow> 64 word \<Rightarrow> scall" where
  "mk_call k a0 a1 a2 = \<lparr>nr = k, arg = (\<lambda>i. if i = 0 then a0 else if i = 1 then a1 else if i = 2 then a2 else 0)\<rparr>"

text \<open>\<open>write (1, buffer, length)\<close> of the buffered text; the address of the buffer does not matter.\<close>

definition flush :: "proc \<Rightarrow> proc" where
  "flush s =
     (if obuf s = [] then s
      else (case filt s (mk_call sys_write 1 0 (word_of_nat (length (obuf s)))) of
          SCMP_ACT_KILL \<Rightarrow> s\<lparr>stat := Killed\<rparr>
        | SCMP_ACT_ALLOW \<Rightarrow> s\<lparr>shown := shown s @ obuf s, obuf := []\<rparr>
        | SCMP_ACT_ERRNO e \<Rightarrow> s\<lparr>obuf := []\<rparr>))"

definition print :: "bool \<Rightarrow> string \<Rightarrow> proc \<Rightarrow> proc" where
  "print tty t s = (let s1 = s\<lparr>obuf := obuf s @ t\<rparr> in if tty \<and> NL \<in> set t then flush s1 else s1)"

definition show_int :: "int \<Rightarrow> string" where
  "show_int i = (if i < 0 then ''-'' @ dec (nat (- i)) else dec (nat i))"

definition run_step :: "bool \<Rightarrow> int \<Rightarrow> step \<Rightarrow> proc \<Rightarrow> proc" where
  "run_step tty pid a s = (if stat s \<noteq> Running then s else (case a of
       Print t \<Rightarrow> print tty t s
     | PrintPid t \<Rightarrow> (case filt s (mk_call sys_getpid 0 0 0) of
           SCMP_ACT_KILL \<Rightarrow> s\<lparr>stat := Killed\<rparr>
         | SCMP_ACT_ALLOW \<Rightarrow> print tty (t @ show_int pid @ [NL]) s
         | SCMP_ACT_ERRNO e \<Rightarrow> print tty (t @ show_int (- e) @ [NL]) s)
     | Call c \<Rightarrow> (if filt s c = SCMP_ACT_KILL then s\<lparr>stat := Killed\<rparr> else s)
     | AddRule r \<Rightarrow> s\<lparr>rules := rules s @ [r]\<rparr>
     | Load d \<Rightarrow> s\<lparr>filt := decide d (rules s)\<rparr>
     | Strict \<Rightarrow> s\<lparr>filt := strict_filter\<rparr>
     | Return \<Rightarrow> (let s1 = flush s in
         if stat s1 \<noteq> Running then s1
         else if filt s1 (mk_call sys_exit_group 0 0 0) = SCMP_ACT_ALLOW then s1\<lparr>stat := Exited\<rparr>
         else s1\<lparr>stat := Killed\<rparr>)))"

definition run_proc :: "bool \<Rightarrow> int \<Rightarrow> step list \<Rightarrow> proc" where
  "run_proc tty pid steps = fold (run_step tty pid) steps start"

subsection \<open>The two programs\<close>

definition rule_exit :: rule where
  "rule_exit = \<lparr>act = SCMP_ACT_ALLOW, rnr = sys_exit_group, conds = []\<rparr>"

definition rule_getpid :: rule where
  "rule_getpid = \<lparr>act = SCMP_ACT_ERRNO EBADF, rnr = sys_getpid, conds = []\<rparr>"

definition rule_brk :: rule where
  "rule_brk = \<lparr>act = SCMP_ACT_ALLOW, rnr = sys_brk, conds = []\<rparr>"

definition rule_write_small :: rule where
  "rule_write_small = \<lparr>act = SCMP_ACT_ALLOW, rnr = sys_write,
     conds = [(0, SCMP_CMP_EQ, 1), (2, SCMP_CMP_LE, 512)]\<rparr>"

definition rule_write_other :: rule where
  "rule_write_other = \<lparr>act = SCMP_ACT_ERRNO EBADF, rnr = sys_write, conds = [(0, SCMP_CMP_NE, 1)]\<rparr>"

text \<open>\<open>release\<close> are the system calls that \<open>seccomp_release\<close> makes to give memory back.\<close>

definition bpf_main :: "scall list \<Rightarrow> step list" where
  "bpf_main release =
    [Print ''Adding rule : Allow exit_group\<newline>'',
     AddRule rule_exit,
     Print ''Adding rule : Deny getpid\<newline>'',
     AddRule rule_getpid,
     Print ''Adding rule : Allow brk\<newline>'',
     AddRule rule_brk,
     Print ''Adding rule : Allow write upto 512 bytes to FD 1\<newline>'',
     AddRule rule_write_small,
     Print ''Adding rule : Deny write to any FD except 1 \<newline>'',
     AddRule rule_write_other,
     Print ''Load rules and enforce \<newline>'',
     Load SCMP_ACT_KILL]
    @ map Call release
    @ [PrintPid ''this process is '', Return]"

definition bpf_rules :: "rule list" where
  "bpf_rules = [rule_exit, rule_getpid, rule_brk, rule_write_small, rule_write_other]"

text \<open>\<open>output\<close> is the descriptor that the first \<open>open\<close> returned, -1 when it failed.\<close>

definition strict_main :: "64 word \<Rightarrow> step list" where
  "strict_main output =
    [Call (mk_call sys_openat 0 0 0),
     Print ''Calling prctl() to set seccomp strict mode...\<newline>'',
     Strict,
     Print ''Writing to an already open file...\<newline>'',
     Call (mk_call sys_write output 0 5),
     Print ''Trying to open file for reading...\<newline>'',
     Call (mk_call sys_openat 0 0 0),
     Print ''You will not see this message--the process will be killed first\<newline>'',
     Return]"

subsection \<open>Properties\<close>

lemmas rule_defs = rule_exit_def rule_getpid_def rule_brk_def rule_write_small_def rule_write_other_def

definition policy :: "scall \<Rightarrow> action" where
  "policy c = (case nr c of
       sys_exit_group \<Rightarrow> SCMP_ACT_ALLOW
     | sys_brk \<Rightarrow> SCMP_ACT_ALLOW
     | sys_getpid \<Rightarrow> SCMP_ACT_ERRNO EBADF
     | sys_write \<Rightarrow> if arg c 0 = 1 then (if arg c 2 \<le> 512 then SCMP_ACT_ALLOW else SCMP_ACT_KILL) else SCMP_ACT_ERRNO EBADF
     | _ \<Rightarrow> SCMP_ACT_KILL)"

lemma find_unique:
  assumes "mset xs = mset ys" and "\<And>x y. x \<in> set ys \<Longrightarrow> y \<in> set ys \<Longrightarrow> P x \<Longrightarrow> P y \<Longrightarrow> x = y"
  shows "find P xs = find P ys"
proof -
  have s: "set xs = set ys" using assms(1) by (metis set_mset_mset)
  show ?thesis
  proof (cases "find P ys")
    case None
    then have "find P xs = None" using s by (simp add: find_None_iff)
    then show ?thesis using None by simp
  next
    case (Some y)
    then have y: "y \<in> set ys" "P y" by (auto simp: find_Some_iff)
    then obtain x where x: "find P xs = Some x" using s by (cases "find P xs") (auto simp: find_None_iff)
    then have "x \<in> set ys" "P x" using s by (auto simp: find_Some_iff)
    then show ?thesis using x Some y assms(2) by simp
  qed
qed

lemma decide_policy: "decide SCMP_ACT_KILL bpf_rules c = policy c"
  by (cases "nr c") (simp_all add: decide_def bpf_rules_def matches_def rule_defs policy_def)

text \<open>
  C31: the rules that the program adds say what its messages say, in whatever order libseccomp
  tries them: exit_group and brk pass, getpid fails with EBADF, a write to descriptor 1 passes up
  to 512 bytes and kills beyond, a write to any other descriptor fails with EBADF, and every
  other system call kills the process.
\<close>
theorem bpf_rules_equal_policy:
  assumes "mset rs = mset bpf_rules"
  shows "decide SCMP_ACT_KILL rs c = policy c"
proof -
  have "find (\<lambda>r. matches r c) rs = find (\<lambda>r. matches r c) bpf_rules"
    by (rule find_unique [OF assms]) (auto simp: bpf_rules_def matches_def rule_defs)
  then show ?thesis using decide_policy [of c] by (simp add: decide_def)
qed

theorem bpf_rules_equal_policy_witness:
  "decide SCMP_ACT_KILL (rev bpf_rules) (mk_call sys_write 1 0 513) = policy (mk_call sys_write 1 0 513)"
  by (rule bpf_rules_equal_policy) simp

lemma run_release:
  "\<forall>c\<in>set release. filt s c \<noteq> SCMP_ACT_KILL \<Longrightarrow> fold (run_step tty pid) (map Call release) s = s"
  by (induction release) (auto simp: run_step_def)

lemma show_minus_9: "show_int (- EBADF) = ''-9''"
  by code_simp

definition bpf_text :: string where
  "bpf_text = ''Adding rule : Allow exit_group\<newline>'' @ ''Adding rule : Deny getpid\<newline>'' @ ''Adding rule : Allow brk\<newline>''
     @ ''Adding rule : Allow write upto 512 bytes to FD 1\<newline>'' @ ''Adding rule : Deny write to any FD except 1 \<newline>''
     @ ''Load rules and enforce \<newline>''"

definition bpf_prefix :: "step list" where
  "bpf_prefix = take 12 (bpf_main [])"

lemma bpf_setup:
  "fold (run_step tty pid) bpf_prefix start =
     \<lparr>filt = policy, rules = bpf_rules, obuf = (if tty then [] else bpf_text),
      shown = (if tty then bpf_text else []), stat = Running\<rparr>"
proof -
  have "decide SCMP_ACT_KILL bpf_rules = policy" by (rule ext) (rule decide_policy)
  then have d: "decide SCMP_ACT_KILL [rule_exit, rule_getpid, rule_brk, rule_write_small, rule_write_other] = policy"
    by (simp add: bpf_rules_def)
  show ?thesis
    by (cases tty) (simp_all add: bpf_prefix_def bpf_main_def run_step_def print_def flush_def start_def Let_def NL_def
        d bpf_rules_def bpf_text_def)
qed

text \<open>
  The BPF program survives its own filter, on a terminal and with redirected output, as long
  as the library's clean-up makes no other call than brk: it exits, all its lines are written,
  and the last one shows -9, the error of the denied getpid, instead of its process id.
\<close>
theorem bpf_program_survives:
  assumes "\<forall>c\<in>set release. nr c = sys_brk"
  shows "stat (run_proc tty pid (bpf_main release)) = Exited
    \<and> shown (run_proc tty pid (bpf_main release)) = bpf_text @ ''this process is -9\<newline>''"
proof -
  have main: "bpf_main release = bpf_prefix @ map Call release @ [PrintPid ''this process is '', Return]"
    by (simp add: bpf_main_def bpf_prefix_def)
  let ?s = "\<lparr>filt = policy, rules = bpf_rules, obuf = (if tty then [] else bpf_text),
      shown = (if tty then bpf_text else []), stat = Running\<rparr>"
  have rel: "fold (run_step tty pid) (map Call release) ?s = ?s"
    by (rule run_release) (use assms in \<open>simp add: policy_def\<close>)
  show ?thesis
    unfolding run_proc_def main fold_append o_apply bpf_setup rel
    by (cases tty) (simp_all add: run_step_def print_def flush_def Let_def NL_def policy_def mk_call_def
        show_minus_9 bpf_text_def)
qed

theorem bpf_program_survives_witness:
  "stat (run_proc False 4711 (bpf_main [mk_call sys_brk 0 0 0])) = Exited
    \<and> shown (run_proc False 4711 (bpf_main [mk_call sys_brk 0 0 0])) = bpf_text @ ''this process is -9\<newline>''"
  by (rule bpf_program_survives) (simp add: mk_call_def)

text \<open>
  The strict program is killed by its second open whatever the first one returned; the last
  message is never printed.  On a terminal the three messages before are; with redirected output
  nothing is, because the process dies with its buffer.
\<close>
theorem strict_program_killed:
  "stat (run_proc tty pid (strict_main output)) = Killed
    \<and> shown (run_proc tty pid (strict_main output)) =
        (if tty then ''Calling prctl() to set seccomp strict mode...\<newline>'' @ ''Writing to an already open file...\<newline>''
           @ ''Trying to open file for reading...\<newline>'' else [])"
  by (cases tty) (simp_all add: run_proc_def strict_main_def run_step_def print_def flush_def start_def Let_def NL_def
      strict_filter_def mk_call_def)

end
