(* ===== verification/PacketFanout.thy ===== *)
theory PacketFanout
  imports Syscalls
begin

section \<open>Packet fanout (\<open>packet_mmap/packet_mmap.c\<close>)\<close>

text \<open>
  The program forks four processes, each of which opens a packet socket, joins the fanout group
  of the parent and reads 10000 packets.  The model follows one process: at a \<open>fork\<close> the
  kernel's answer says whether it goes on as the parent or as the child.  Its result is the exit
  status.  Writing more than the 16 bytes of \<open>ifr_name\<close> is undefined.
\<close>

datatype pkt_call =
    PSocket int int int
  | Siocgifindex int string
  | PBind int int
  | PacketFanout int int
  | Read int
  | PClose int
  | Getpid
  | Fork
  | Wait

type_synonym pkt_ans = "int \<times> int"
type_synonym pkt_kernel = "(pkt_call, pkt_ans) kernel"
type_synonym 'r pkt_prog = "(pkt_call, pkt_ans, 'r) prog"

text \<open>An answer is the value returned and, for \<open>SIOCGIFINDEX\<close>, the index stored.\<close>

definition pcall :: "pkt_kernel \<Rightarrow> pkt_call \<Rightarrow> int pkt_prog" where
  "pcall K c = do { a \<leftarrow> sys K c; ret (fst a) }"

text \<open>The global variables of the program.\<close>

record globals =
  device_name :: string
  fanout_type :: int
  fanout_id :: int

definition AF_PACKET :: int where "AF_PACKET = 17"
definition SOCK_RAW :: int where "SOCK_RAW = 3"
definition HTONS_ETH_P_IP :: int where "HTONS_ETH_P_IP = 8"
definition PACKET_FANOUT_HASH :: int where "PACKET_FANOUT_HASH = 0"
definition PACKET_FANOUT_LB :: int where "PACKET_FANOUT_LB = 1"
definition EXIT_FAILURE :: int where "EXIT_FAILURE = 1"

definition fanout_arg :: "globals \<Rightarrow> int" where
  "fanout_arg g = or (fanout_id g) (push_bit 16 (fanout_type g))"

definition setup_socket :: "pkt_kernel \<Rightarrow> globals \<Rightarrow> int res pkt_prog" where
  "setup_socket K g = do {
     fd \<leftarrow> pcall K (PSocket AF_PACKET SOCK_RAW HTONS_ETH_P_IP);
     if fd < 0 then do { printf ''socket'' []; ret (Inr EXIT_FAILURE) }
     else if 16 \<le> length (device_name g) then ret (Inl OutOfBounds)
     else do {
       a \<leftarrow> sys K (Siocgifindex fd (device_name g));
       if fst a < 0 then do { printf ''SIOCGIFINDEX'' []; ret (Inr EXIT_FAILURE) }
       else do {
         err \<leftarrow> pcall K (PBind fd (snd a));
         if err < 0 then do { printf ''bind'' []; ret (Inr EXIT_FAILURE) }
         else do {
           err \<leftarrow> pcall K (PacketFanout fd (fanout_arg g));
           if err \<noteq> 0 then do { printf ''setsockopt'' []; ret (Inr EXIT_FAILURE) }
           else ret (Inr fd)
         }
       }
     }
   }"

text \<open>The read loop: \<open>Some\<close> status when it ends the process.\<close>

fun read_loop :: "pkt_kernel \<Rightarrow> int \<Rightarrow> nat \<Rightarrow> int option pkt_prog" where
  "read_loop K fd 0 = ret None"
| "read_loop K fd (Suc limit) = do {
     err \<leftarrow> pcall K (Read fd);
     if err < 0 then do { printf ''read'' []; ret (Some EXIT_FAILURE) }
     else do {
       only_if (limit mod 10 = 0) (do { pid \<leftarrow> pcall K Getpid; printf ''(%d) \<newline>'' [PInt pid] });
       read_loop K fd limit
     }
   }"

definition fanout_thread :: "pkt_kernel \<Rightarrow> globals \<Rightarrow> int res pkt_prog" where
  "fanout_thread K g =
     tryE (setup_socket K g) (\<lambda>fd.
       if fd < 0 then ret (Inr fd)
       else do {
         r \<leftarrow> read_loop K fd 10000;
         (case r of
            Some status \<Rightarrow> ret (Inr status)
          | None \<Rightarrow> do {
              pid \<leftarrow> pcall K Getpid;
              printf ''%d: Received 10000 packets\<newline>'' [PInt pid];
              pcall K (PClose fd);
              ret (Inr 0)
            })
       })"

text \<open>The loop of forks: \<open>Some\<close> status when this process is a child or fork failed.\<close>

fun fork_loop :: "pkt_kernel \<Rightarrow> globals \<Rightarrow> nat \<Rightarrow> int option res pkt_prog" where
  "fork_loop K g 0 = ret (Inr None)"
| "fork_loop K g (Suc i) = do {
     pid \<leftarrow> pcall K Fork;
     if pid = 0 then tryE (fanout_thread K g) (\<lambda>status. ret (Inr (Some status)))
     else if pid = - 1 then do { printf ''fork'' []; ret (Inr (Some EXIT_FAILURE)) }
     else fork_loop K g i
   }"

fun wait_loop :: "pkt_kernel \<Rightarrow> nat \<Rightarrow> unit pkt_prog" where
  "wait_loop K 0 = ret ()"
| "wait_loop K (Suc i) = do { pcall K Wait; wait_loop K i }"

definition packet_main :: "pkt_kernel \<Rightarrow> string list \<Rightarrow> int res pkt_prog" where
  "packet_main K argp =
     (if length argp \<noteq> 3 then do {
        printf ''Usage: %s INTERFACE {hash|lb}\<newline>'' [PStr (case argp of [] \<Rightarrow> ''(null)'' | a # _ \<Rightarrow> a)];
        ret (Inr EXIT_FAILURE) }
      else if argp ! 2 \<noteq> ''hash'' \<and> argp ! 2 \<noteq> ''lb'' then do {
        printf ''Unknown fanout type [%s]\<newline>'' [PStr (argp ! 2)];
        ret (Inr EXIT_FAILURE) }
      else do {
        pid \<leftarrow> pcall K Getpid;
        tryE (fork_loop K \<lparr>device_name = argp ! 1,
              fanout_type = (if argp ! 2 = ''hash'' then PACKET_FANOUT_HASH else PACKET_FANOUT_LB),
              fanout_id = and pid 0xffff\<rparr> 4) (\<lambda>r. case r of
            Some status \<Rightarrow> ret (Inr status)
          | None \<Rightarrow> do { wait_loop K 4; ret (Inr 0) })
      })"

subsection \<open>The fanout argument\<close>

text \<open>
  The kernel reads back from the fanout argument the group id and the type that went into it,
  for the id that main computes of any process id and for both types.
\<close>
theorem fanout_arg_roundtrip:
  assumes "fanout_id g = and pid 0xffff" and "fanout_type g \<in> {PACKET_FANOUT_HASH, PACKET_FANOUT_LB}"
  shows "take_bit 16 (fanout_arg g) = fanout_id g \<and> drop_bit 16 (fanout_arg g) = fanout_type g
    \<and> 0 \<le> fanout_arg g \<and> fanout_arg g < 131072"
proof -
  have m: "and pid 0xffff = take_bit 16 pid" by (simp add: take_bit_eq_mask mask_eq_exp_minus_1)
  have i: "take_bit 16 (fanout_id g) = fanout_id g" "drop_bit 16 (fanout_id g) = 0"
    unfolding assms(1) m by (simp_all add: drop_bit_take_bit)
  have b: "0 \<le> fanout_id g" "fanout_id g < 2 ^ 17"
    using take_bit_int_less_exp [of 16 pid] unfolding assms(1) m by simp_all
  have t: "push_bit 16 (fanout_type g) = 0 \<or> push_bit 16 (fanout_type g) = 65536"
    using assms(2) by (auto simp: PACKET_FANOUT_HASH_def PACKET_FANOUT_LB_def push_bit_eq_mult)
  have "0 \<le> fanout_type g" using assms(2) by (auto simp: PACKET_FANOUT_HASH_def PACKET_FANOUT_LB_def)
  then have "0 \<le> fanout_arg g" using b(1) by (simp add: fanout_arg_def)
  moreover have "fanout_arg g < 2 ^ 17"
    unfolding fanout_arg_def using b t by (intro OR_upper) auto
  moreover have "take_bit 16 (push_bit 16 (fanout_type g)) = 0" "drop_bit 16 (push_bit 16 (fanout_type g)) = fanout_type g"
    by (simp_all add: push_bit_eq_mult take_bit_eq_mod drop_bit_eq_div)
  ultimately show ?thesis using i by (simp add: fanout_arg_def take_bit_or drop_bit_or)
qed

theorem fanout_arg_roundtrip_witness:
  "take_bit 16 (fanout_arg \<lparr>device_name = ''eth0'', fanout_type = 1, fanout_id = and 70000 0xffff\<rparr>)
      = fanout_id \<lparr>device_name = ''eth0'', fanout_type = 1, fanout_id = and 70000 0xffff\<rparr>
    \<and> drop_bit 16 (fanout_arg \<lparr>device_name = ''eth0'', fanout_type = 1, fanout_id = and 70000 0xffff\<rparr>)
      = fanout_type \<lparr>device_name = ''eth0'', fanout_type = 1, fanout_id = and 70000 0xffff\<rparr>
    \<and> 0 \<le> fanout_arg \<lparr>device_name = ''eth0'', fanout_type = 1, fanout_id = and 70000 0xffff\<rparr>
    \<and> fanout_arg \<lparr>device_name = ''eth0'', fanout_type = 1, fanout_id = and 70000 0xffff\<rparr> < 131072"
  by (rule fanout_arg_roundtrip [where pid = 70000]) (simp_all add: PACKET_FANOUT_LB_def)

subsection \<open>The read loop\<close>

text \<open>How often a call occurs in a history.\<close>

definition ncalls :: "pkt_call \<Rightarrow> (pkt_call \<times> pkt_ans) list \<Rightarrow> nat" where
  "ncalls c h = length (filter (\<lambda>e. fst e = c) h)"

lemma ncalls_append [simp]: "ncalls c (h @ t) = ncalls c h + ncalls c t"
  by (simp add: ncalls_def)

lemma ncalls_simps [simp]: "ncalls c [] = 0" "ncalls c (e # h) = (if fst e = c then Suc (ncalls c h) else ncalls c h)"
  by (simp_all add: ncalls_def)

lemma read_loop_ok:
  assumes "\<forall>h. 0 \<le> fst (K h (Read fd))"
  shows "result (read_loop K fd n) w = None
    \<and> ncalls (Read fd) (calls (exec (read_loop K fd n) w)) = ncalls (Read fd) (calls w) + n
    \<and> (\<forall>c. c \<noteq> Read fd \<and> c \<noteq> Getpid \<longrightarrow> ncalls c (calls (exec (read_loop K fd n) w)) = ncalls c (calls w))
    \<and> length (out (exec (read_loop K fd n) w)) = length (out w) + (n + 9) div 10"
proof (induction n arbitrary: w)
  case (Suc n)
  have "fst (K h (Read fd)) \<ge> 0" for h using assms by blast
  then have nn: "\<not> fst (K h (Read fd)) < 0" for h by (simp add: not_less)
  have d: "(Suc n + 9) div 10 = (if n mod 10 = 0 then 1 else 0) + (n + 9) div 10" by presburger
  show ?case using nn unfolding d by (simp add: pcall_def Suc.IH)
qed simp

text \<open>
  A process whose socket can be set up and whose reads succeed reads exactly 10000 times from
  that socket, prints 1000 progress lines and the final one, closes the socket once and exits
  with status 0; nothing it reads matters.
\<close>
theorem fanout_thread_reads_10000:
  assumes "length (device_name g) < 16" and "\<forall>h. fst (K h (PSocket AF_PACKET SOCK_RAW HTONS_ETH_P_IP)) = fd" and "0 \<le> fd"
    and "\<forall>h. 0 \<le> fst (K h (Siocgifindex fd (device_name g)))" and "\<forall>h i. 0 \<le> fst (K h (PBind fd i))"
    and "\<forall>h. fst (K h (PacketFanout fd (fanout_arg g))) = 0" and "\<forall>h. 0 \<le> fst (K h (Read fd))"
  shows "result (fanout_thread K g) init_world = Inr 0
    \<and> ncalls (Read fd) (calls (exec (fanout_thread K g) init_world)) = 10000
    \<and> ncalls (PClose fd) (calls (exec (fanout_thread K g) init_world)) = 1
    \<and> length (out (exec (fanout_thread K g) init_world)) = 1001"
proof -
  note r = read_loop_ok [where K = K and fd = fd, OF assms(7), of 10000]
  have nn: "\<not> fst (K h (Siocgifindex fd (device_name g))) < 0" "\<not> fst (K h (PBind fd i)) < 0" for h i
    using assms(4,5) by (simp_all add: not_less)
  have run: "result (setup_socket K g) init_world = Inr fd"
    "ncalls (Read fd) (calls (exec (setup_socket K g) init_world)) = 0"
    "ncalls (PClose fd) (calls (exec (setup_socket K g) init_world)) = 0"
    "out (exec (setup_socket K g) init_world) = []"
    using assms(1-3,6) nn by (simp_all add: setup_socket_def pcall_def)
  show ?thesis using run r assms(3) by (simp add: fanout_thread_def pcall_def del: read_loop.simps)
qed

definition pkt_demo :: "int \<Rightarrow> pkt_kernel" where
  "pkt_demo sock h c = (case c of PSocket _ _ _ \<Rightarrow> (sock, 0) | Getpid \<Rightarrow> (70000, 0) | Read _ \<Rightarrow> (60, 0) | _ \<Rightarrow> (0, 2))"

theorem fanout_thread_reads_10000_witness:
  "result (fanout_thread (pkt_demo 3) \<lparr>device_name = ''eth0'', fanout_type = 1, fanout_id = 4464\<rparr>) init_world = Inr 0
    \<and> ncalls (Read 3) (calls (exec (fanout_thread (pkt_demo 3) \<lparr>device_name = ''eth0'', fanout_type = 1, fanout_id = 4464\<rparr>) init_world)) = 10000
    \<and> ncalls (PClose 3) (calls (exec (fanout_thread (pkt_demo 3) \<lparr>device_name = ''eth0'', fanout_type = 1, fanout_id = 4464\<rparr>) init_world)) = 1
    \<and> length (out (exec (fanout_thread (pkt_demo 3) \<lparr>device_name = ''eth0'', fanout_type = 1, fanout_id = 4464\<rparr>) init_world)) = 1001"
  by (rule fanout_thread_reads_10000) (simp_all add: pkt_demo_def)

text \<open>
  A failed set-up goes unnoticed: setup_socket returns EXIT_FAILURE, which is 1, and only
  negative values are tested.  When the socket cannot be made the process reads 10000 times from
  its standard output, and if those reads succeed it closes it and reports success.
\<close>
theorem setup_failure_reads_stdout:
  assumes "\<forall>h. fst (K h (PSocket AF_PACKET SOCK_RAW HTONS_ETH_P_IP)) = - 1" and "\<forall>h. 0 \<le> fst (K h (Read 1))"
  shows "result (fanout_thread K g) init_world = Inr 0
    \<and> ncalls (Read 1) (calls (exec (fanout_thread K g) init_world)) = 10000
    \<and> ncalls (PClose 1) (calls (exec (fanout_thread K g) init_world)) = 1"
proof -
  note r = read_loop_ok [where K = K and fd = 1, OF assms(2), of 10000]
  have run: "result (setup_socket K g) init_world = Inr 1"
    "ncalls (Read 1) (calls (exec (setup_socket K g) init_world)) = 0"
    "ncalls (PClose 1) (calls (exec (setup_socket K g) init_world)) = 0"
    using assms(1) by (simp_all add: setup_socket_def pcall_def EXIT_FAILURE_def)
  show ?thesis using run r by (simp add: fanout_thread_def pcall_def del: read_loop.simps)
qed

theorem setup_failure_reads_stdout_witness:
  "result (fanout_thread (pkt_demo (- 1)) \<lparr>device_name = ''eth0'', fanout_type = 1, fanout_id = 4464\<rparr>) init_world = Inr 0
    \<and> ncalls (Read 1) (calls (exec (fanout_thread (pkt_demo (- 1)) \<lparr>device_name = ''eth0'', fanout_type = 1, fanout_id = 4464\<rparr>) init_world)) = 10000
    \<and> ncalls (PClose 1) (calls (exec (fanout_thread (pkt_demo (- 1)) \<lparr>device_name = ''eth0'', fanout_type = 1, fanout_id = 4464\<rparr>) init_world)) = 1"
  by (rule setup_failure_reads_stdout) (simp_all add: pkt_demo_def)

subsection \<open>The parent\<close>

lemma wait_loop_ncalls: "ncalls c (calls (exec (wait_loop K n) w)) = ncalls c (calls w) + (if c = Wait then n else 0)"
  by (induction n arbitrary: w) (simp_all add: pcall_def)

lemma fork_loop_parent:
  assumes "\<forall>h. 0 < fst (K h Fork)"
  shows "result (fork_loop K g n) w = Inr None
    \<and> ncalls c (calls (exec (fork_loop K g n) w)) = ncalls c (calls w) + (if c = Fork then n else 0)"
proof (induction n arbitrary: w)
  case (Suc n)
  have "0 < fst (K h Fork)" for h using assms by blast
  then have p: "fst (K h Fork) \<noteq> 0" "fst (K h Fork) \<noteq> - 1" for h by (metis less_irrefl, metis less_minus_one_simps(3) not_less_iff_gr_or_eq)
  show ?case using p by (simp add: pcall_def Suc.IH)
qed simp

text \<open>
  With valid arguments, the parent forks exactly four children, waits for four and exits with
  status 0 without opening, reading or closing anything itself; with a wrong number of arguments
  or an unknown fanout type it makes no call at all and exits with status 1.
\<close>
theorem packet_main_parent:
  assumes "\<forall>h. 0 < fst (K h Fork)" and "argp = [prog, dev, typ]"
  shows "result (packet_main K argp) init_world = Inr (if typ = ''hash'' \<or> typ = ''lb'' then 0 else EXIT_FAILURE)
    \<and> (\<forall>c. ncalls c (calls (exec (packet_main K argp) init_world)) =
        (if typ = ''hash'' \<or> typ = ''lb'' then (if c = Fork then 4 else if c = Wait then 4 else if c = Getpid then 1 else 0) else 0))"
proof (cases "typ = ''hash'' \<or> typ = ''lb''")
  case True
  then show ?thesis
    using fork_loop_parent [where K = K, OF assms(1)] wait_loop_ncalls
    by (auto simp: packet_main_def assms(2) pcall_def simp del: fork_loop.simps wait_loop.simps)
next
  case False
  then show ?thesis by (simp add: packet_main_def assms(2))
qed

theorem packet_main_parent_witness:
  "result (packet_main (\<lambda>h c. (5, 0)) [''fanout'', ''eth0'', ''lb'']) init_world
      = Inr (if ''lb'' = ''hash'' \<or> ''lb'' = ''lb'' then 0 else EXIT_FAILURE)
    \<and> (\<forall>c. ncalls c (calls (exec (packet_main (\<lambda>h c. (5, 0)) [''fanout'', ''eth0'', ''lb'']) init_world)) =
        (if ''lb'' = ''hash'' \<or> ''lb'' = ''lb'' then (if c = Fork then 4 else if c = Wait then 4 else if c = Getpid then 1 else 0) else 0))"
  by (rule packet_main_parent) simp_all

end
