(* ===== verification/Getdents.thy ===== *)
theory Getdents
  imports Syscalls
begin

section \<open>Directory records (\<open>getdents64/getdents64_test.c\<close>)\<close>

text \<open>
  The program asks the kernel for directory records, up to 1024 bytes at a time, and walks over
  them: each record says in its \<open>d_reclen\<close> where the next one starts.  The buffer is a list of
  bytes, the host little-endian.  The kernel's answer to \<open>Getdents\<close> is the value returned and
  the buffer after the call.
\<close>

type_synonym bytes = "8 word list"

datatype dir_call = OpenDir string | Getdents int

type_synonym dir_ans = "int \<times> bytes"
type_synonym dir_kernel = "(dir_call, dir_ans) kernel"
type_synonym 'r dir_prog = "(dir_call, dir_ans, 'r) prog"

record linux_dirent64 =
  d_ino :: int
  d_off :: int
  d_reclen :: int
  d_type :: int
  d_name :: bytes

definition le_val :: "bytes \<Rightarrow> int" where
  "le_val bs = foldr (\<lambda>b v. uint b + 256 * v) bs 0"

definition get_bytes :: "bytes \<Rightarrow> int \<Rightarrow> nat \<Rightarrow> bytes res" where
  "get_bytes buf i n =
     (if 0 \<le> i \<and> i + int n \<le> int (length buf) then Inr (take n (drop (nat i) buf)) else Inl OutOfBounds)"

text \<open>The string at an offset of the buffer; without a NUL the program reads beyond the buffer.\<close>

definition get_string :: "bytes \<Rightarrow> int \<Rightarrow> bytes res" where
  "get_string buf i =
     (if 0 \<le> i \<and> 0 \<in> set (drop (nat i) buf) then Inr (takeWhile (\<lambda>b. b \<noteq> 0) (drop (nat i) buf))
      else Inl OutOfBounds)"

text \<open>The fields at the offsets that the struct declaration gives them: 0, 8, 16, 18 and 19.\<close>

definition dirent_at :: "bytes \<Rightarrow> int \<Rightarrow> linux_dirent64 res" where
  "dirent_at buf i =
     bindE (get_bytes buf i 8) (\<lambda>ino.
     bindE (get_bytes buf (i + 8) 8) (\<lambda>off.
     bindE (get_bytes buf (i + 16) 2) (\<lambda>len.
     bindE (get_bytes buf (i + 18) 1) (\<lambda>typ.
     bindE (get_string buf (i + 19)) (\<lambda>name.
       Inr \<lparr>d_ino = signed_take_bit 63 (le_val ino), d_off = signed_take_bit 63 (le_val off),
         d_reclen = le_val len, d_type = le_val typ, d_name = name\<rparr>)))))"

text \<open>\<open>char d_type = d->d_type\<close> is signed; no type of the list is negative.\<close>

definition type_name :: "int \<Rightarrow> string" where
  "type_name t = (let c = signed_take_bit 7 t in
     if c = 8 then ''regular'' else if c = 4 then ''directory'' else if c = 1 then ''FIFO''
     else if c = 12 then ''socket'' else if c = 10 then ''symlink'' else if c = 6 then ''block dev''
     else if c = 2 then ''char dev'' else ''???'')"

definition chars :: "bytes \<Rightarrow> string" where
  "chars bs = map (\<lambda>b. char_of (uint b)) bs"

definition print_dirent :: "linux_dirent64 \<Rightarrow> unit dir_prog" where
  "print_dirent d = do {
     printf ''%8ld  '' [PInt (d_ino d)];
     printf ''%-10s '' [PStr (type_name (d_type d))];
     printf ''%4d %10lld  %s\<newline>'' [PInt (d_reclen d), PInt (d_off d), PStr (chars (d_name d))]
   }"

fun walk_loop :: "nat \<Rightarrow> bytes \<Rightarrow> int \<Rightarrow> int \<Rightarrow> unit res dir_prog" where
  "walk_loop 0 buf nread bpos = ret (Inl OutOfFuel)"
| "walk_loop (Suc n) buf nread bpos =
     (if bpos < nread
      then (case dirent_at buf bpos of
          Inl e \<Rightarrow> ret (Inl e)
        | Inr d \<Rightarrow> do { print_dirent d; walk_loop n buf nread (bpos + d_reclen d) })
      else ret (Inr ()))"

text \<open>The exit status; the outer loop runs until the kernel has no more records.\<close>

fun read_dir_loop :: "dir_kernel \<Rightarrow> nat \<Rightarrow> int \<Rightarrow> int res dir_prog" where
  "read_dir_loop K 0 fd = ret (Inl OutOfFuel)"
| "read_dir_loop K (Suc n) fd = do {
     a \<leftarrow> sys K (Getdents fd);
     if fst a = - 1 then do { printf ''getdents'' []; ret (Inr 1) }
     else if fst a = 0 then ret (Inr 0)
     else do {
       printf ''--------------- nread=%d ---------------\<newline>'' [PInt (fst a)];
       printf ''i-node#  file type  d_reclen  d_off   d_name\<newline>'' [];
       tryE (walk_loop n (snd a) (fst a) 0) (\<lambda>_. read_dir_loop K n fd)
     }
   }"

definition getdents_main :: "dir_kernel \<Rightarrow> nat \<Rightarrow> string list \<Rightarrow> int res dir_prog" where
  "getdents_main K n argv = do {
     a \<leftarrow> sys K (OpenDir (if 1 < length argv then argv ! 1 else ''.''));
     if fst a = - 1 then do { printf ''open'' []; ret (Inr 1) }
     else read_dir_loop K n (fst a)
   }"

subsection \<open>The records that the kernel writes\<close>

text \<open>getdents(2): the fields, the name with its NUL, and padding up to \<open>d_reclen\<close>.\<close>

fun le_bytes :: "nat \<Rightarrow> int \<Rightarrow> bytes" where
  "le_bytes 0 v = []"
| "le_bytes (Suc n) v = word_of_int v # le_bytes n (v div 256)"

definition encode :: "linux_dirent64 \<Rightarrow> bytes" where
  "encode d = le_bytes 8 (d_ino d) @ le_bytes 8 (d_off d) @ le_bytes 2 (d_reclen d) @ le_bytes 1 (d_type d)
     @ d_name d @ [0] @ replicate (nat (d_reclen d) - 20 - length (d_name d)) 0"

definition dirent_ok :: "linux_dirent64 \<Rightarrow> bool" where
  "dirent_ok d \<longleftrightarrow> - (2 ^ 63) \<le> d_ino d \<and> d_ino d < 2 ^ 63 \<and> - (2 ^ 63) \<le> d_off d \<and> d_off d < 2 ^ 63
     \<and> 20 + int (length (d_name d)) \<le> d_reclen d \<and> d_reclen d < 65536
     \<and> 0 \<le> d_type d \<and> d_type d < 256 \<and> 0 \<notin> set (d_name d)"

lemma length_le_bytes [simp]: "length (le_bytes n v) = n"
  by (induction n arbitrary: v) simp_all

lemma le_val_bytes: "le_val (le_bytes n v) = v mod 256 ^ n"
proof (induction n arbitrary: v)
  case (Suc n)
  have "uint (word_of_int v :: 8 word) = v mod 256" by (simp add: uint_word_of_int)
  moreover have "le_val (le_bytes n (v div 256)) = v div 256 mod 256 ^ n" by (rule Suc.IH)
  moreover have "v mod 256 + 256 * (v div 256 mod 256 ^ n) = v mod (256 * 256 ^ n)"
    by (simp add: zmod_zmult2_eq)
  ultimately show ?case by (simp add: le_val_def)
qed (simp add: le_val_def)

lemma le_signed: "- (2 ^ 63) \<le> v \<Longrightarrow> v < 2 ^ 63 \<Longrightarrow> signed_take_bit 63 (le_val (le_bytes 8 v)) = v"
proof -
  assume v: "- (2 ^ 63) \<le> v" "v < 2 ^ 63"
  have "le_val (le_bytes 8 v) = take_bit 64 v" by (simp add: le_val_bytes take_bit_eq_mod)
  moreover have "signed_take_bit 63 (take_bit 64 v) = signed_take_bit 63 v"
    by (simp add: signed_take_bit_take_bit)
  ultimately show ?thesis using v by (simp add: signed_take_bit_int_eq_self)
qed

lemma length_encode: "dirent_ok d \<Longrightarrow> int (length (encode d)) = d_reclen d"
  by (auto simp: encode_def dirent_ok_def)

lemma get_bytes_at:
  "length xs = n \<Longrightarrow> get_bytes (pre @ xs @ post) (int (length pre)) n = Inr xs"
  by (simp add: get_bytes_def)

lemma dirent_at_encode:
  assumes d: "dirent_ok d"
  shows "dirent_at (pre @ encode d @ post) (int (length pre)) = Inr d"
proof -
  let ?a = "le_bytes 8 (d_ino d)" and ?b = "le_bytes 8 (d_off d)" and ?c = "le_bytes 2 (d_reclen d)"
    and ?t = "le_bytes 1 (d_type d)" and ?p = "replicate (nat (d_reclen d) - 20 - length (d_name d)) (0 :: 8 word)"
  let ?r = "d_name d @ [0] @ ?p"
  let ?buf = "pre @ encode d @ post"
  have e: "?buf = pre @ ?a @ ?b @ ?c @ ?t @ ?r @ post" by (simp add: encode_def)
  have f1: "get_bytes ?buf (int (length pre)) 8 = Inr ?a"
    unfolding e by (rule get_bytes_at) simp
  have f2: "get_bytes ?buf (int (length pre) + 8) 8 = Inr ?b"
    unfolding e using get_bytes_at [of ?b 8 "pre @ ?a" "?c @ ?t @ ?r @ post"] by simp
  have f3: "get_bytes ?buf (int (length pre) + 16) 2 = Inr ?c"
    unfolding e using get_bytes_at [of ?c 2 "pre @ ?a @ ?b" "?t @ ?r @ post"] by simp
  have f4: "get_bytes ?buf (int (length pre) + 18) 1 = Inr ?t"
    unfolding e using get_bytes_at [of ?t 1 "pre @ ?a @ ?b @ ?c" "?r @ post"] by simp
  have "drop (nat (int (length pre) + 19)) ?buf = ?r @ post"
    unfolding e using append_eq_conv_conj [of "pre @ ?a @ ?b @ ?c @ ?t" "?r @ post"] by (simp add: nat_add_distrib)
  moreover have "takeWhile (\<lambda>b. b \<noteq> 0) (?r @ post) = d_name d"
    using d by (simp add: dirent_ok_def takeWhile_append2) (subst takeWhile_append2, auto)
  ultimately have f5: "get_string ?buf (int (length pre) + 19) = Inr (d_name d)"
    by (simp add: get_string_def)
  have "d_reclen d mod 65536 = d_reclen d" "d_type d mod 256 = d_type d"
    using d by (auto simp: dirent_ok_def)
  then have v: "le_val ?c = d_reclen d" "le_val ?t = d_type d" by (simp_all only: le_val_bytes) simp_all
  have s: "signed_take_bit 63 (le_val ?a) = d_ino d" "signed_take_bit 63 (le_val ?b) = d_off d"
    using d unfolding dirent_ok_def by (intro le_signed; blast)+
  show ?thesis unfolding dirent_at_def f1 f2 f3 f4 f5 bindE_simps v s by simp
qed

subsection \<open>The walk over a buffer\<close>

definition dirent_lines :: "linux_dirent64 \<Rightarrow> (string \<times> parg list) list" where
  "dirent_lines d =
    [(''%8ld  '', [PInt (d_ino d)]),
     (''%-10s '', [PStr (type_name (d_type d))]),
     (''%4d %10lld  %s\<newline>'', [PInt (d_reclen d), PInt (d_off d), PStr (chars (d_name d))])]"

definition encode_all :: "linux_dirent64 list \<Rightarrow> bytes" where
  "encode_all es = concat (map encode es)"

lemma walk_loop_ok:
  assumes "\<forall>d\<in>set es. dirent_ok d" and "length es < n"
  shows "result (walk_loop n (pre @ encode_all es @ post) (int (length pre + length (encode_all es))) (int (length pre))) w = Inr ()
    \<and> exec (walk_loop n (pre @ encode_all es @ post) (int (length pre + length (encode_all es))) (int (length pre))) w
      = w\<lparr>out := out w @ concat (map dirent_lines es)\<rparr>"
  using assms
proof (induction es arbitrary: n pre w)
  case Nil
  then obtain k where "n = Suc k" by (cases n) auto
  then show ?case by (simp add: encode_all_def)
next
  case (Cons d es)
  then obtain k where k: "n = Suc k" "length es < k" by (cases n) auto
  have d: "dirent_ok d" using Cons.prems(1) by simp
  have ea: "encode_all (d # es) = encode d @ encode_all es" by (simp add: encode_all_def)
  have pos: "0 < length (encode d)" by (simp add: encode_def)
  have at: "dirent_at (pre @ encode_all (d # es) @ post) (int (length pre)) = Inr d"
    unfolding ea using dirent_at_encode [OF d, of pre "encode_all es @ post"] by simp
  have IH: "result (walk_loop k ((pre @ encode d) @ encode_all es @ post)
        (int (length (pre @ encode d) + length (encode_all es))) (int (length (pre @ encode d)))) w' = Inr ()
      \<and> exec (walk_loop k ((pre @ encode d) @ encode_all es @ post)
        (int (length (pre @ encode d) + length (encode_all es))) (int (length (pre @ encode d)))) w'
      = w'\<lparr>out := out w' @ concat (map dirent_lines es)\<rparr>" for w'
    using Cons.prems(1) k(2) by (intro Cons.IH) simp_all
  have lt: "int (length pre) < int (length pre + length (encode_all (d # es)))"
    unfolding ea of_nat_less_iff length_append using pos by linarith
  have len: "int (length pre) + d_reclen d = int (length (pre @ encode d))"
    using length_encode [OF d] by simp
  have print: "exec (print_dirent d) w = w\<lparr>out := out w @ dirent_lines d\<rparr>"
    by (simp add: print_dirent_def dirent_lines_def)
  show ?case
    using IH [of "w\<lparr>out := out w @ dirent_lines d\<rparr>"] lt
    by (simp add: k(1) at print len) (simp add: ea add.assoc)
qed

definition gets :: "(dir_call \<times> dir_ans) list \<Rightarrow> nat" where
  "gets h = length (filter (\<lambda>(c, _). case c of Getdents _ \<Rightarrow> True | _ \<Rightarrow> False) h)"

definition batch_lines :: "linux_dirent64 list \<Rightarrow> (string \<times> parg list) list" where
  "batch_lines es =
     (''--------------- nread=%d ---------------\<newline>'', [PInt (int (length (encode_all es)))])
     # (''i-node#  file type  d_reclen  d_off   d_name\<newline>'', []) # concat (map dirent_lines es)"

definition delivers :: "dir_kernel \<Rightarrow> int \<Rightarrow> linux_dirent64 list list \<Rightarrow> bytes \<Rightarrow> bool" where
  "delivers K fd bs rest \<longleftrightarrow> (\<forall>h. K h (Getdents fd) =
     (if gets h < length bs then (int (length (encode_all (bs ! gets h))), encode_all (bs ! gets h) @ rest) else (0, rest)))"

lemma read_dir_loop_ok:
  assumes K: "delivers K fd bs rest" and ok: "\<forall>es\<in>set bs. es \<noteq> [] \<and> (\<forall>d\<in>set es. dirent_ok d)"
    and "\<forall>es\<in>set bs. length es + length bs < n + gets (calls w)" and "gets (calls w) \<le> length bs"
    and "length bs < n + gets (calls w)"
  shows "result (read_dir_loop K n fd) w = Inr 0
    \<and> out (exec (read_dir_loop K n fd) w) = out w @ concat (map batch_lines (drop (gets (calls w)) bs))"
  using assms(3-)
proof (induction n arbitrary: w)
  case (Suc n)
  let ?i = "gets (calls w)"
  show ?case
  proof (cases "?i < length bs")
    case False
    then show ?thesis using K by (simp add: delivers_def)
  next
    case True
    define es where "es = bs ! ?i"
    have es: "es \<in> set bs" using True by (simp add: es_def)
    let ?c = "(int (length (encode_all es)), encode_all es @ rest)"
    have a: "K (calls w) (Getdents fd) = ?c"
      using K True by (simp add: delivers_def es_def)
    obtain d es' where "es = d # es'" using ok es by (cases es) auto
    then have pos: "encode_all es \<noteq> []" by (simp add: encode_all_def encode_def)
    let ?w = "w\<lparr>calls := calls w @ [(Getdents fd, ?c)], out := out w
        @ [(''--------------- nread=%d ---------------\<newline>'', [PInt (int (length (encode_all es)))]),
           (''i-node#  file type  d_reclen  d_off   d_name\<newline>'', [])]\<rparr>"
    let ?w2 = "?w\<lparr>out := out ?w @ concat (map dirent_lines es)\<rparr>"
    have "length es < n" using Suc.prems(1) es True by fastforce
    then have wl: "result (walk_loop n (encode_all es @ rest) (int (length (encode_all es))) 0) ?w = Inr ()"
      "exec (walk_loop n (encode_all es @ rest) (int (length (encode_all es))) 0) ?w = ?w2"
      using walk_loop_ok [of es n "[]" rest ?w] ok es by simp_all
    have run: "result (read_dir_loop K (Suc n) fd) w = result (read_dir_loop K n fd) ?w2"
      "exec (read_dir_loop K (Suc n) fd) w = exec (read_dir_loop K n fd) ?w2"
      using a pos wl by simp_all
    have g: "gets (calls ?w2) = Suc ?i" by (simp add: gets_def)
    have IH: "result (read_dir_loop K n fd) ?w2 = Inr 0
        \<and> out (exec (read_dir_loop K n fd) ?w2) = out ?w2 @ concat (map batch_lines (drop (Suc ?i) bs))"
      using Suc.IH [of ?w2] Suc.prems True unfolding g by simp
    have dr: "drop ?i bs = es # drop (Suc ?i) bs" using True by (simp add: Cons_nth_drop_Suc es_def)
    show ?thesis unfolding run dr using IH by (simp add: batch_lines_def [of es])
  qed
qed simp

text \<open>
  C27: the program reads back what the kernel encodes: whatever records the kernel delivers in
  however many batches (names, numbers and paddings arbitrary, negative inode numbers included),
  it prints exactly these records, in order, each once, under one header per batch, never touches
  a byte outside the buffer, ends and exits with 0.
\<close>
theorem getdents_prints_records:
  assumes "\<forall>h p. fst (K h (OpenDir p)) = fd" and "fd \<noteq> - 1"
    and "delivers K fd bs rest" and "\<forall>es\<in>set bs. es \<noteq> [] \<and> (\<forall>d\<in>set es. dirent_ok d)"
    and "\<forall>es\<in>set bs. length es + length bs < n" and "length bs < n"
  shows "result (getdents_main K n argv) init_world = Inr 0
    \<and> out (exec (getdents_main K n argv) init_world) = concat (map batch_lines bs)"
proof -
  have g: "gets [(OpenDir p, x)] = 0" for p x by (simp add: gets_def)
  have "result (read_dir_loop K n fd) \<lparr>calls = [(OpenDir p, x)], out = []\<rparr> = Inr 0
    \<and> out (exec (read_dir_loop K n fd) \<lparr>calls = [(OpenDir p, x)], out = []\<rparr>) = concat (map batch_lines bs)" for p x
    using read_dir_loop_ok [OF assms(3,4), of n "\<lparr>calls = [(OpenDir p, x)], out = []\<rparr>"] assms(5,6) g by simp
  then show ?thesis using assms(1,2) by (simp add: getdents_main_def)
qed

definition demo_dirent :: linux_dirent64 where
  "demo_dirent = \<lparr>d_ino = - 5, d_off = 12, d_reclen = 24, d_type = 4, d_name = [0x2e, 0x2e]\<rparr>"

definition demo_dir_kernel :: dir_kernel where
  "demo_dir_kernel h c = (case c of
      OpenDir _ \<Rightarrow> (3, [])
    | Getdents _ \<Rightarrow> if gets h < 1 then (int (length (encode_all [demo_dirent, demo_dirent])), encode_all [demo_dirent, demo_dirent] @ [7])
        else (0, [7]))"

theorem getdents_prints_records_witness:
  "result (getdents_main demo_dir_kernel 5 [''prog'']) init_world = Inr 0
    \<and> out (exec (getdents_main demo_dir_kernel 5 [''prog'']) init_world) = concat (map batch_lines [[demo_dirent, demo_dirent]])"
proof (rule getdents_prints_records)
  show "delivers demo_dir_kernel 3 [[demo_dirent, demo_dirent]] [7]"
    by (simp add: delivers_def demo_dir_kernel_def)
qed (simp_all add: demo_dir_kernel_def demo_dirent_def dirent_ok_def)

text \<open>
  A record of length 0 stalls the program: the walk does not advance, and prints the same
  record for ever, whatever bound is put on its rounds.
\<close>
theorem zero_reclen_loops:
  assumes "dirent_at buf bpos = Inr d" and "d_reclen d = 0" and "bpos < nread"
  shows "result (walk_loop n buf nread bpos) w = Inl OutOfFuel
    \<and> out (exec (walk_loop n buf nread bpos) w) = out w @ concat (replicate n (dirent_lines d))"
proof (induction n arbitrary: w)
  case (Suc n)
  have "exec (print_dirent d) w = w\<lparr>out := out w @ dirent_lines d\<rparr>"
    by (simp add: print_dirent_def dirent_lines_def)
  then show ?case using Suc assms by simp
qed simp

theorem zero_reclen_loops_witness:
  "result (walk_loop 1000 (replicate 24 0) 24 0) init_world = Inl OutOfFuel
    \<and> out (exec (walk_loop 1000 (replicate 24 0) 24 0) init_world)
      = out (init_world :: (dir_call, dir_ans) world) @ concat (replicate 1000
          (dirent_lines \<lparr>d_ino = 0, d_off = 0, d_reclen = 0, d_type = 0, d_name = []\<rparr>))"
  by (rule zero_reclen_loops)
     (simp_all add: dirent_at_def get_bytes_def get_string_def le_val_def numeral_eq_Suc)

end
