(* ===== verification/Pipes.thy ===== *)
theory Pipes
  imports Syscalls CString
begin

section \<open>Named pipes and the echo over a Unix socket (\<open>named_pipe/\<close>, \<open>unix_client_server/\<close>)\<close>

text \<open>
  Two pairs of programs that exchange data.  An answer of the kernel is the value returned and
  the characters delivered.  The loops of the pipe programs end when the kernel lets them: fuel
  bounds their rounds.
\<close>

datatype io_call =
    Access string
  | Mkfifo string
  | OpenFifo string
  | IoRead int int
  | IoWrite int string
  | IoClose int
  | Sleep int
  | Time
  | IoGetpid
  | USocket
  | Connect int string
  | UBind int string
  | Listen int int
  | Accept int
  | Stdin
  | Unlink string

type_synonym io_ans = "int \<times> string"
type_synonym io_kernel = "(io_call, io_ans) kernel"
type_synonym 'r io_prog = "(io_call, io_ans, 'r) prog"

definition ioc :: "io_kernel \<Rightarrow> io_call \<Rightarrow> int io_prog" where
  "ioc K c = do { a \<leftarrow> sys K c; ret (fst a) }"

lemma run_ioc [simp]:
  "result (ioc K c) w = fst (K (calls w) c)"
  "exec (ioc K c) w = w\<lparr>calls := calls w @ [(c, K (calls w) c)]\<rparr>"
  by (simp_all add: ioc_def)

subsection \<open>The named pipe\<close>

definition FIFO_NAME :: string where "FIFO_NAME = ''/tmp/testp''"
definition BUF_SIZE :: int where "BUF_SIZE = 1024"
definition MAX_SIZE :: int where "MAX_SIZE = 1024 * 10"

text \<open>The buffer of the server: \<open>haolipeng\<close> and zeros, 1024 bytes of which are written.\<close>

definition server_buffer :: string where
  "server_buffer = ''haolipeng'' @ replicate (nat BUF_SIZE - 9) NUL"

fun send_loop :: "io_kernel \<Rightarrow> nat \<Rightarrow> int \<Rightarrow> int \<Rightarrow> int res io_prog" where
  "send_loop K 0 fd bytes_send = ret (Inl OutOfFuel)"
| "send_loop K (Suc n) fd bytes_send =
     (if bytes_send < MAX_SIZE
      then do {
        ioc K (Sleep 3);
        res \<leftarrow> ioc K (IoWrite fd server_buffer);
        if res = - 1 then do { printf ''write error in pipe\<newline>'' []; send_loop K n fd bytes_send }
        else send_loop K n fd (bytes_send + res)
      }
      else ret (Inr bytes_send))"

definition pipe_server :: "io_kernel \<Rightarrow> nat \<Rightarrow> int res io_prog" where
  "pipe_server K n = do {
     r \<leftarrow> ioc K (Access FIFO_NAME);
     res \<leftarrow> (if r = - 1 then ioc K (Mkfifo FIFO_NAME) else ret 0);
     if res \<noteq> 0 then do { printf ''Could not create fifo %s\<newline>'' [PStr FIFO_NAME]; ret (Inr (- 1)) }
     else do {
       pipe_fd \<leftarrow> ioc K (OpenFifo FIFO_NAME);
       if pipe_fd \<noteq> - 1
       then tryE (send_loop K n pipe_fd 0) (\<lambda>_. do { ioc K (IoClose pipe_fd); ret (Inr 0) })
       else do { printf ''open %s failed\<newline>'' [PStr FIFO_NAME]; ret (Inr (- 1)) }
     }
   }"

text \<open>The client adds every result of \<open>read\<close>, the last one included, into an \<open>int\<close>.\<close>

fun recv_loop :: "io_kernel \<Rightarrow> nat \<Rightarrow> int \<Rightarrow> int \<Rightarrow> int res io_prog" where
  "recv_loop K 0 fd bytes_read = ret (Inl OutOfFuel)"
| "recv_loop K (Suc n) fd bytes_read = do {
     beginTime \<leftarrow> ioc K Time;
     res \<leftarrow> ioc K (IoRead fd BUF_SIZE);
     (case i32 (bytes_read + res) of
        Inl e \<Rightarrow> ret (Inl e)
      | Inr b \<Rightarrow> do {
          endTime \<leftarrow> ioc K Time;
          printf ''read operation cost time:%lds\<newline>'' [PInt (endTime - beginTime)];
          if res > 0 then recv_loop K n fd b else ret (Inr b)
        })
   }"

definition pipe_client :: "io_kernel \<Rightarrow> nat \<Rightarrow> int res io_prog" where
  "pipe_client K n = do {
     pipe_fd \<leftarrow> ioc K (OpenFifo FIFO_NAME);
     if pipe_fd \<noteq> - 1
     then tryE (recv_loop K n pipe_fd 0) (\<lambda>bytes_read. do {
       ioc K (IoClose pipe_fd);
       pid \<leftarrow> ioc K IoGetpid;
       printf ''Process %d finished read %d bytes\<newline>'' [PInt pid, PInt bytes_read];
       ret (Inr 0) })
     else do { printf ''open %s failed\<newline>'' [PStr FIFO_NAME]; ret (Inr (- 1)) }
   }"

subsection \<open>The echo\<close>

definition UNIX_SOCKET_PATH :: string where "UNIX_SOCKET_PATH = ''/tmp/echo_unix_socket''"
definition MSG_MAX_LENGTH :: int where "MSG_MAX_LENGTH = 100"

text \<open>The zeroed buffer of 101 bytes after \<open>r\<close> bytes were read into it (none when it failed).\<close>

definition filled :: "string \<Rightarrow> int \<Rightarrow> string \<Rightarrow> string" where
  "filled buf r s = (if r \<le> 0 then buf else take (nat r) s @ drop (length (take (nat r) s)) buf)"

definition zero_buf :: string where
  "zero_buf = replicate (nat MSG_MAX_LENGTH + 1) NUL"

definition c_str :: "string \<Rightarrow> string" where
  "c_str b = takeWhile (\<lambda>c. c \<noteq> NUL) b"

definition unix_server :: "io_kernel \<Rightarrow> int io_prog" where
  "unix_server K = do {
     listen_fd \<leftarrow> ioc K USocket;
     if listen_fd = - 1 then ret (- 1)
     else do {
       r \<leftarrow> ioc K (UBind listen_fd UNIX_SOCKET_PATH);
       if r = - 1 then ret (- 1)
       else do {
         r \<leftarrow> ioc K (Listen listen_fd 5);
         if r = - 1 then ret (- 1)
         else do {
           client_fd \<leftarrow> ioc K (Accept listen_fd);
           if client_fd < 0 then ret (- 1)
           else do {
             a \<leftarrow> sys K (IoRead client_fd MSG_MAX_LENGTH);
             let buf = filled zero_buf (fst a) (snd a);
             printf ''read from client:%s\<newline>'' [PStr (c_str buf)];
             ioc K (IoWrite client_fd (take (nat MSG_MAX_LENGTH) buf));
             printf ''write to client:%s\<newline>'' [PStr (c_str buf)];
             ioc K (Unlink UNIX_SOCKET_PATH);
             ret 0
           }
         }
       }
     }
   }"

text \<open>\<open>Stdin\<close> delivers what standard input holds.\<close>

definition unix_client :: "io_kernel \<Rightarrow> int io_prog" where
  "unix_client K = do {
     socket_fd \<leftarrow> ioc K USocket;
     if socket_fd = - 1 then ret (- 1)
     else do {
       r \<leftarrow> ioc K (Connect socket_fd UNIX_SOCKET_PATH);
       if r < 0 then ret (- 1)
       else do {
         inp \<leftarrow> sys K Stdin;
         let buf = (case fgets (nat MSG_MAX_LENGTH) (snd inp) of None \<Rightarrow> zero_buf
            | Some l \<Rightarrow> filled zero_buf (int (length l)) l);
         let len = int (length (c_str buf));
         r \<leftarrow> ioc K (IoWrite socket_fd (c_str buf));
         if r \<noteq> len then do { printf ''write error\<newline>'' []; ret (- 1) }
         else do {
           a \<leftarrow> sys K (IoRead socket_fd len);
           if fst a \<noteq> len then do { printf ''read error\<newline>'' []; ret (- 1) }
           else do {
             printf ''read from server:%s\<newline>'' [PStr (c_str (filled buf (fst a) (snd a)))];
             ioc K (Unlink UNIX_SOCKET_PATH);
             ret 0
           }
         }
       }
     }
   }"

subsection \<open>What the pipe programs count\<close>

text \<open>The bytes that the kernel took of all writes of a history.\<close>

definition taken :: "(io_call \<times> io_ans) list \<Rightarrow> int" where
  "taken h = sum_list (map (\<lambda>(c, a). case c of IoWrite _ _ \<Rightarrow> if fst a = - 1 then 0 else fst a | _ \<Rightarrow> 0) h)"

lemma taken_append [simp]: "taken (h @ t) = taken h + taken t"
  by (simp add: taken_def)

lemma taken_simps [simp]:
  "taken [] = 0"
  "taken ((c, a) # h) = (case c of IoWrite _ _ \<Rightarrow> if fst a = - 1 then 0 else fst a | _ \<Rightarrow> 0) + taken h"
  by (simp_all add: taken_def)

lemma send_loop_ok:
  assumes "\<forall>h. 0 < fst (K h (IoWrite fd server_buffer)) \<and> fst (K h (IoWrite fd server_buffer)) \<le> BUF_SIZE"
    and "max 0 (MAX_SIZE - b) < int n" and "b < MAX_SIZE + BUF_SIZE"
  shows "\<exists>T. result (send_loop K n fd b) w = Inr T \<and> MAX_SIZE \<le> T \<and> T < MAX_SIZE + BUF_SIZE
    \<and> taken (calls (exec (send_loop K n fd b) w)) = taken (calls w) + (T - b)"
  using assms(2,3)
proof (induction n arbitrary: b w)
  case (Suc n)
  show ?case
  proof (cases "b < MAX_SIZE")
    case False
    then show ?thesis using Suc.prems by simp
  next
    case True
    let ?h = "calls w @ [(Sleep 3, K (calls w) (Sleep 3))]"
    define r where "r = fst (K ?h (IoWrite fd server_buffer))"
    have r: "0 < r" "r \<le> BUF_SIZE" using assms(1) by (simp_all add: r_def)
    let ?w = "w\<lparr>calls := ?h @ [(IoWrite fd server_buffer, K ?h (IoWrite fd server_buffer))]\<rparr>"
    have "max 0 (MAX_SIZE - (b + r)) < int n" "b + r < MAX_SIZE + BUF_SIZE"
      using Suc.prems True r by linarith+
    from Suc.IH [OF this, of ?w] obtain T where
      T: "result (send_loop K n fd (b + r)) ?w = Inr T" "MAX_SIZE \<le> T" "T < MAX_SIZE + BUF_SIZE"
        "taken (calls (exec (send_loop K n fd (b + r)) ?w)) = taken (calls ?w) + (T - (b + r))" by blast
    have tk: "taken (calls ?w) = taken (calls w) + r" using r by (simp add: r_def)
    have "result (send_loop K (Suc n) fd b) w = result (send_loop K n fd (b + r)) ?w"
      "exec (send_loop K (Suc n) fd b) w = exec (send_loop K n fd (b + r)) ?w"
      using True r by (simp_all add: r_def)
    then show ?thesis using T tk by simp
  qed
qed simp

text \<open>
  The server of the pipe sends 10 KiB and no full buffer more: whatever part of each buffer
  the kernel takes (at least one byte), the loop ends after at most 10240 rounds, the kernel has
  taken between 10240 and 11263 bytes in all, and the program exits with 0.
\<close>
theorem pipe_server_bounds:
  assumes "\<forall>h. 0 < fst (K h (IoWrite fd server_buffer)) \<and> fst (K h (IoWrite fd server_buffer)) \<le> BUF_SIZE"
    and "\<forall>h. fst (K h (Access FIFO_NAME)) = 0" and "\<forall>h. fst (K h (OpenFifo FIFO_NAME)) = fd" and "fd \<noteq> - 1" and "10240 < n"
  shows "result (pipe_server K n) init_world = Inr 0
    \<and> 10240 \<le> taken (calls (exec (pipe_server K n) init_world))
    \<and> taken (calls (exec (pipe_server K n) init_world)) < 11264"
proof -
  let ?w = "\<lparr>calls = [(Access FIFO_NAME, K [] (Access FIFO_NAME)),
      (OpenFifo FIFO_NAME, K [(Access FIFO_NAME, K [] (Access FIFO_NAME))] (OpenFifo FIFO_NAME))], out = []\<rparr>"
  from send_loop_ok [where K = K and fd = fd, OF assms(1), of 0 n ?w] assms(5) obtain T where
    T: "result (send_loop K n fd 0) ?w = Inr T" "MAX_SIZE \<le> T" "T < MAX_SIZE + BUF_SIZE"
      "taken (calls (exec (send_loop K n fd 0) ?w)) = T" by (auto simp: MAX_SIZE_def BUF_SIZE_def)
  show ?thesis using T assms(2-4) by (simp add: pipe_server_def MAX_SIZE_def BUF_SIZE_def)
qed

definition io_demo :: io_kernel where
  "io_demo h c = (case c of IoWrite _ _ \<Rightarrow> (700, []) | Access _ \<Rightarrow> (0, []) | _ \<Rightarrow> (5, []))"

theorem pipe_server_bounds_witness:
  "result (pipe_server io_demo 20000) init_world = Inr 0
    \<and> 10240 \<le> taken (calls (exec (pipe_server io_demo 20000) init_world))
    \<and> taken (calls (exec (pipe_server io_demo 20000) init_world)) < 11264"
  by (rule pipe_server_bounds [where fd = 5]) (simp_all add: io_demo_def BUF_SIZE_def)

definition nreads :: "(io_call \<times> io_ans) list \<Rightarrow> nat" where
  "nreads h = length (filter (\<lambda>(c, _). case c of IoRead _ _ \<Rightarrow> True | _ \<Rightarrow> False) h)"

lemma nreads_append [simp]: "nreads (h @ t) = nreads h + nreads t"
  by (simp add: nreads_def)

lemma nreads_simps [simp]:
  "nreads [] = 0"
  "nreads ((c, a) # h) = (case c of IoRead _ _ \<Rightarrow> Suc (nreads h) | _ \<Rightarrow> nreads h)"
  by (simp_all add: nreads_def split: io_call.split)

lemma recv_loop_ok:
  assumes K: "\<forall>h. fst (K h (IoRead fd BUF_SIZE)) = (rs @ [f]) ! nreads h" and "f \<le> 0" and "- 1 \<le> f"
    and pos: "\<forall>r\<in>set rs. 0 < r" and "sum_list rs < 2147483648"
    and "nreads (calls w) = i" and "i \<le> length rs" and "length rs - i < n"
  shows "result (recv_loop K n fd (sum_list (take i rs))) w = Inr (sum_list rs + f)"
  using assms(6-8)
proof (induction n arbitrary: w i)
  case (Suc n)
  let ?h = "calls w @ [(Time, K (calls w) Time)]"
  have r: "fst (K ?h (IoRead fd BUF_SIZE)) = (rs @ [f]) ! i" using K Suc.prems(1) by simp
  have part: "0 \<le> sum_list (take k rs)" "sum_list (take k rs) \<le> sum_list rs" for k
  proof -
    show "0 \<le> sum_list (take k rs)" using pos by (intro sum_list_nonneg) (auto dest!: in_set_takeD)
    have "0 \<le> sum_list (drop k rs)" using pos by (intro sum_list_nonneg) (auto dest!: in_set_dropD)
    moreover have "sum_list rs = sum_list (take k rs) + sum_list (drop k rs)"
      by (metis append_take_drop_id sum_list_append)
    ultimately show "sum_list (take k rs) \<le> sum_list rs" by simp
  qed
  show ?case
  proof (cases "i = length rs")
    case True
    then have "int_ok (sum_list rs + f)" using assms(2,3,5) part(1) [of "length rs"] by (intro int_okI) simp_all
    then show ?thesis using True r assms(2) by (simp add: i32_ok)
  next
    case False
    then have i: "i < length rs" using Suc.prems(2) by simp
    then have nth: "(rs @ [f]) ! i = rs ! i" "0 < rs ! i" using pos by (simp_all add: nth_append)
    have s: "sum_list (take i rs) + rs ! i = sum_list (take (Suc i) rs)" using i by (simp add: take_Suc_conv_app_nth)
    have "int_ok (sum_list (take (Suc i) rs))" using part [of "Suc i"] assms(5) by (intro int_okI) linarith+
    moreover have "result (recv_loop K n fd (sum_list (take (Suc i) rs))) w' = Inr (sum_list rs + f)"
      if "nreads (calls w') = Suc i" for w'
      using that i Suc.prems by (intro Suc.IH) simp_all
    ultimately show ?thesis using r nth s Suc.prems(1) by (simp add: i32_ok)
  qed
qed simp

text \<open>
  The client of the pipe prints the bytes it received plus the result of the read that ended
  its loop: after reads of rs bytes it prints their sum when the writer is gone (0), and one byte
  less when the last read failed (-1, an empty pipe opened without blocking).
\<close>
theorem pipe_client_count:
  assumes "\<forall>h. fst (K h (IoRead fd BUF_SIZE)) = (rs @ [f]) ! nreads h" and "f = 0 \<or> f = - 1"
    and "\<forall>r\<in>set rs. 0 < r" and "sum_list rs < 2147483648" and "length rs < n"
    and "\<forall>h. fst (K h (OpenFifo FIFO_NAME)) = fd" and "fd \<noteq> - 1" and "\<forall>h. fst (K h IoGetpid) = pid"
  shows "result (pipe_client K n) init_world = Inr 0
    \<and> last (out (exec (pipe_client K n) init_world))
      = (''Process %d finished read %d bytes\<newline>'', [PInt pid, PInt (sum_list rs + f)])"
proof -
  have "result (recv_loop K n fd (sum_list (take 0 rs))) \<lparr>calls = [(OpenFifo FIFO_NAME, x)], out = []\<rparr> = Inr (sum_list rs + f)" for x
    by (rule recv_loop_ok [where K = K and fd = fd and rs = rs and f = f and i = 0, OF assms(1)]) (use assms(2-5) in auto)
  then show ?thesis using assms(6-8) by (simp add: pipe_client_def)
qed

subsection \<open>The echo\<close>

lemma fgets_length: "fgets n s = Some l \<Longrightarrow> 1 < n \<Longrightarrow> l \<noteq> [] \<and> length l < n"
  by (auto simp: fgets_def split: if_splits list.splits)

lemma filled_again: "l \<noteq> [] \<Longrightarrow> filled (l @ replicate k NUL) (int (length l)) l = l @ replicate k NUL"
  by (simp add: filled_def)

lemma filled_zero:
  assumes "l \<noteq> []" and "length l < 100" and "NUL \<notin> set l"
  shows "filled zero_buf (int (length l)) l = l @ replicate (101 - length l) NUL"
    and "c_str (l @ replicate (101 - length l) NUL) = l"
    and "take 100 (l @ replicate (101 - length l) NUL) = l @ replicate (100 - length l) NUL"
proof -
  show "filled zero_buf (int (length l)) l = l @ replicate (101 - length l) NUL"
    using assms(1) by (simp add: filled_def zero_buf_def MSG_MAX_LENGTH_def)
  obtain k where "101 - length l = Suc k" using assms(2) by (cases "101 - length l") auto
  moreover have "\<forall>c\<in>set l. c \<noteq> NUL" using assms(3) by auto
  ultimately show "c_str (l @ replicate (101 - length l) NUL) = l" by (simp add: c_str_def takeWhile_append2)
  show "take 100 (l @ replicate (101 - length l) NUL) = l @ replicate (100 - length l) NUL"
    using assms(2) by (simp add: take_replicate min_def)
qed

text \<open>What a program has written to a descriptor.\<close>

definition written :: "int \<Rightarrow> (io_call \<times> io_ans) list \<Rightarrow> string" where
  "written fd h = concat (map (\<lambda>(c, a). case c of IoWrite f t \<Rightarrow> if f = fd then t else [] | _ \<Rightarrow> []) h)"

lemma client_writes:
  assumes "\<forall>h. fst (KC h USocket) = sfd" and "sfd \<noteq> - 1" and "\<forall>h. fst (KC h (Connect sfd UNIX_SOCKET_PATH)) = 0"
    and "\<forall>h. snd (KC h Stdin) = line" and "fgets 100 line = Some l" and "l \<noteq> []" "length l < 100" "NUL \<notin> set l"
  shows "written sfd (calls (exec (unix_client KC) init_world)) = l"
  using assms(1-5) filled_zero [OF assms(6-8)]
  by (simp add: unix_client_def MSG_MAX_LENGTH_def Let_def written_def)

lemma server_writes:
  assumes "\<forall>h. fst (KS h USocket) = lfd" and "lfd \<noteq> - 1" and "\<forall>h. fst (KS h (UBind lfd UNIX_SOCKET_PATH)) = 0"
    and "\<forall>h. fst (KS h (Listen lfd 5)) = 0" and "\<forall>h. fst (KS h (Accept lfd)) = cfd" and "0 \<le> cfd"
    and "\<forall>h. KS h (IoRead cfd 100) = (int (length l), l)" and "l \<noteq> []" "length l < 100" "NUL \<notin> set l"
  shows "written cfd (calls (exec (unix_server KS) init_world)) = l @ replicate (100 - length l) NUL"
    and "result (unix_server KS) init_world = 0"
    and "out (exec (unix_server KS) init_world)
      = [(''read from client:%s\<newline>'', [PStr l]), (''write to client:%s\<newline>'', [PStr l])]"
  using assms(1-7) filled_zero [OF assms(8-10)]
  by (simp_all add: unix_server_def MSG_MAX_LENGTH_def Let_def written_def)

text \<open>
  C34: the two echo programs work together.  Each socket call succeeds with the answer that its
  manual page documents (a descriptor from socket and accept, 0 from bind, listen and connect, the
  number of bytes from write), the message reaches the server in one piece, and the client's read
  delivers the first bytes of what the server has written.  Then, for every line of up to 99
  characters without a NUL that is typed, both programs end with 0, the server reports the line as
  read and written, and the client prints it as it was sent.  The server always writes 100 bytes,
  the message and zeros.
\<close>
theorem unix_echo:
  assumes typed: "fgets 100 line = Some l" "NUL \<notin> set l"
    and server: "\<forall>h. fst (KS h USocket) = lfd" "lfd \<noteq> - 1" "\<forall>h. fst (KS h (UBind lfd UNIX_SOCKET_PATH)) = 0"
      "\<forall>h. fst (KS h (Listen lfd 5)) = 0" "\<forall>h. fst (KS h (Accept lfd)) = cfd" "0 \<le> cfd"
    and client: "\<forall>h. fst (KC h USocket) = sfd" "sfd \<noteq> - 1" "\<forall>h. fst (KC h (Connect sfd UNIX_SOCKET_PATH)) = 0"
      "\<forall>h. snd (KC h Stdin) = line" "\<forall>h t. fst (KC h (IoWrite sfd t)) = int (length t)"
    and message: "msg = written sfd (calls (exec (unix_client KC) init_world))"
      "\<forall>h. KS h (IoRead cfd 100) = (int (length msg), msg)"
    and reply: "\<forall>h. KC h (IoRead sfd (int (length msg)))
      = (int (length msg), take (length msg) (written cfd (calls (exec (unix_server KS) init_world))))"
  shows "result (unix_client KC) init_world = 0 \<and> result (unix_server KS) init_world = 0
    \<and> out (exec (unix_client KC) init_world) = [(''read from server:%s\<newline>'', [PStr l])]
    \<and> out (exec (unix_server KS) init_world)
      = [(''read from client:%s\<newline>'', [PStr l]), (''write to client:%s\<newline>'', [PStr l])]
    \<and> length (written cfd (calls (exec (unix_server KS) init_world))) = 100"
proof -
  have l: "l \<noteq> []" "length l < 100" using fgets_length [OF typed(1)] by simp_all
  note f = filled_zero [OF l typed(2)]
  have msg: "msg = l" unfolding message(1) by (rule client_writes [OF client(1-4) typed(1) l typed(2)])
  note sv = server_writes [OF server message(2) [unfolded msg] l typed(2)]
  have "result (unix_client KC) init_world = 0
    \<and> out (exec (unix_client KC) init_world) = [(''read from server:%s\<newline>'', [PStr l])]"
    using client typed(1) f reply [unfolded msg]
    by (simp add: unix_client_def MSG_MAX_LENGTH_def Let_def sv(1) filled_again [OF l(1)])
  then show ?thesis using sv l by simp
qed

definition echo_server :: "string \<Rightarrow> io_kernel" where
  "echo_server l h c = (case c of
      USocket \<Rightarrow> (3, []) | Accept _ \<Rightarrow> (4, []) | IoRead _ n \<Rightarrow> (int (length l), l)
    | IoWrite _ t \<Rightarrow> (int (length t), []) | _ \<Rightarrow> (0, []))"

definition echo_client :: "string \<Rightarrow> io_kernel" where
  "echo_client l h c = (case c of
      USocket \<Rightarrow> (5, []) | Stdin \<Rightarrow> (0, l)
    | IoRead _ n \<Rightarrow> (min n 100, take (nat n) (l @ replicate (100 - length l) NUL))
    | IoWrite _ t \<Rightarrow> (int (length t), []) | _ \<Rightarrow> (0, []))"

theorem unix_echo_witness:
  "result (unix_client (echo_client ''hi'')) init_world = 0 \<and> result (unix_server (echo_server ''hi'')) init_world = 0
    \<and> out (exec (unix_client (echo_client ''hi'')) init_world) = [(''read from server:%s\<newline>'', [PStr ''hi''])]
    \<and> out (exec (unix_server (echo_server ''hi'')) init_world)
      = [(''read from client:%s\<newline>'', [PStr ''hi'']), (''write to client:%s\<newline>'', [PStr ''hi''])]
    \<and> length (written 4 (calls (exec (unix_server (echo_server ''hi'')) init_world))) = 100"
proof -
  have hi: "fgets 100 ''hi'' = Some ''hi''" "NUL \<notin> set ''hi''" by (simp_all add: fgets_def NL_def NUL_def)
  have c: "written 5 (calls (exec (unix_client (echo_client ''hi'')) init_world)) = ''hi''"
    by (rule client_writes [where line = "''hi''"]) (use hi in \<open>simp_all add: echo_client_def\<close>)
  have s: "written 4 (calls (exec (unix_server (echo_server ''hi'')) init_world)) = ''hi'' @ replicate (100 - length ''hi'') NUL"
    by (rule server_writes [where lfd = 3]) (use hi in \<open>simp_all add: echo_server_def\<close>)
  show ?thesis
    by (rule unix_echo [where line = "''hi''" and lfd = 3 and sfd = 5 and msg = "''hi''", OF hi])
      (simp_all only: c s, simp_all add: echo_server_def echo_client_def)
qed

definition pipe_reader :: "int list \<Rightarrow> io_kernel" where
  "pipe_reader rs h c = (case c of IoRead _ _ \<Rightarrow> (rs ! nreads h, []) | IoGetpid \<Rightarrow> (77, []) | _ \<Rightarrow> (6, []))"

theorem pipe_client_count_witness:
  "result (pipe_client (pipe_reader ([1024, 300] @ [- 1])) 9) init_world = Inr 0
    \<and> last (out (exec (pipe_client (pipe_reader ([1024, 300] @ [- 1])) 9) init_world))
      = (''Process %d finished read %d bytes\<newline>'', [PInt 77, PInt (sum_list [1024, 300] + - 1)])"
  by (rule pipe_client_count [where fd = 6]) (simp_all add: pipe_reader_def)

end
