(* ===== verification/ThreadLocal.thy ===== *)
theory ThreadLocal
  imports CBase
begin

section \<open>A thread-local variable (\<open>__thread/main.c\<close>)\<close>

text \<open>
  The main thread creates a reader and a writer and waits for them.  Every thread has its own
  copy of \<open>g_mydata\<close>, made with the value 99 when the thread starts.  An event is one turn of a
  thread: a creation (with whether \<open>pthread_create\<close> succeeds; its result is not tested), the
  attempt to join the writer, one round of a thread's endless loop.  \<open>fault\<close> is undefined behaviour.
\<close>

datatype thr = MainThread | Reader | Writer

datatype main_pc = CreateReader | CreateWriter | JoinWriter

datatype tls_event = MainCreates bool | MainJoins | ReaderTurn | WriterTurn

record tls =
  main_at :: main_pc
  g_mydata :: "thr \<Rightarrow> int option"
  shown :: "int list"
  fault :: "ub option"

definition tls_init :: tls where
  "tls_init = \<lparr>main_at = CreateReader, g_mydata = [MainThread \<mapsto> 99], shown = [], fault = None\<rparr>"

text \<open>A thread that was not created has no turns.\<close>

definition thread_read :: "tls \<Rightarrow> tls option" where
  "thread_read s = (case g_mydata s Reader of None \<Rightarrow> None | Some v \<Rightarrow> Some (s\<lparr>shown := shown s @ [v]\<rparr>))"

definition thread_write :: "tls \<Rightarrow> tls option" where
  "thread_write s = (case g_mydata s Writer of None \<Rightarrow> None
     | Some v \<Rightarrow> (case i32 (v + 1) of
          Inl e \<Rightarrow> Some (s\<lparr>fault := Some e\<rparr>)
        | Inr v' \<Rightarrow> Some (s\<lparr>g_mydata := (g_mydata s)(Writer \<mapsto> v')\<rparr>)))"

definition spawn :: "thr \<Rightarrow> bool \<Rightarrow> tls \<Rightarrow> tls" where
  "spawn t ok s = (if ok then s\<lparr>g_mydata := (g_mydata s)(t \<mapsto> 99)\<rparr> else s)"

text \<open>
  \<open>pthread_join\<close> waits for a thread that never returns; of a writer that was not created the
  identifier is uninitialised.
\<close>

definition main_turn :: "tls_event \<Rightarrow> tls \<Rightarrow> tls option" where
  "main_turn e s = (case main_at s of
       CreateReader \<Rightarrow> (case e of MainCreates ok \<Rightarrow> Some ((spawn Reader ok s)\<lparr>main_at := CreateWriter\<rparr>) | _ \<Rightarrow> None)
     | CreateWriter \<Rightarrow> (case e of MainCreates ok \<Rightarrow> Some ((spawn Writer ok s)\<lparr>main_at := JoinWriter\<rparr>) | _ \<Rightarrow> None)
     | JoinWriter \<Rightarrow> (case e of
          MainJoins \<Rightarrow> (case g_mydata s Writer of None \<Rightarrow> Some (s\<lparr>fault := Some UninitRead\<rparr>) | Some _ \<Rightarrow> None)
        | _ \<Rightarrow> None))"

definition tls_turn :: "tls_event \<Rightarrow> tls \<Rightarrow> tls option" where
  "tls_turn e s = (if fault s \<noteq> None then None
     else (case e of ReaderTurn \<Rightarrow> thread_read s | WriterTurn \<Rightarrow> thread_write s | _ \<Rightarrow> main_turn e s))"

inductive tls_run :: "tls_event list \<Rightarrow> tls \<Rightarrow> bool" where
  start: "tls_run [] tls_init"
| step: "tls_run es s \<Longrightarrow> tls_turn e s = Some s' \<Longrightarrow> tls_run (es @ [e]) s'"

inductive_cases tls_run_snocE: "tls_run (es @ [e]) s"

definition writes :: "tls_event list \<Rightarrow> int" where
  "writes es = int (length (filter (\<lambda>e. e = WriterTurn) es))"

lemma writes_simps [simp]: "writes [] = 0" "writes (es @ [e]) = writes es + (if e = WriterTurn then 1 else 0)"
  by (simp_all add: writes_def)

definition reads :: "tls_event list \<Rightarrow> nat" where
  "reads es = length (filter (\<lambda>e. e = ReaderTurn) es)"

lemma reads_simps [simp]: "reads [] = 0" "reads (es @ [e]) = reads es + (if e = ReaderTurn then 1 else 0)"
  by (simp_all add: reads_def)

text \<open>The copies of the threads after the events \<open>es\<close>.\<close>

definition tls_inv :: "tls_event list \<Rightarrow> tls \<Rightarrow> bool" where
  "tls_inv es s \<longleftrightarrow> g_mydata s MainThread = Some 99 \<and> (g_mydata s Reader = None \<or> g_mydata s Reader = Some 99)
     \<and> (g_mydata s Writer = None \<and> writes es = 0 \<or> g_mydata s Writer = Some (99 + writes es) \<and> main_at s = JoinWriter
        \<or> fault s = Some SignedOverflow \<and> writes es = 2147483549)
     \<and> (main_at s = CreateReader \<longrightarrow> g_mydata s Reader = None \<and> g_mydata s Writer = None)
     \<and> (main_at s = CreateWriter \<longrightarrow> g_mydata s Writer = None)
     \<and> shown s = replicate (reads es) 99 \<and> writes es \<le> 2147483549
     \<and> (fault s = Some SignedOverflow \<longleftrightarrow> writes es = 2147483549)"

lemma tls_run_inv: "tls_run es s \<Longrightarrow> tls_inv es s"
proof (induction rule: tls_run.induct)
  case start
  then show ?case by (simp add: tls_inv_def tls_init_def)
next
  case (step es s e s')
  have f: "fault s = None" using step.hyps(2) by (auto simp: tls_turn_def split: if_splits)
  then have w: "writes es \<noteq> 2147483549" "writes es \<le> 2147483549" using step.IH by (simp_all add: tls_inv_def)
  show ?case
  proof (cases e)
    case (MainCreates ok)
    then show ?thesis using step f w
      by (cases "main_at s"; cases ok) (auto simp: tls_inv_def tls_turn_def main_turn_def spawn_def)
  next
    case MainJoins
    then show ?thesis using step f w
      by (cases "main_at s") (auto simp: tls_inv_def tls_turn_def main_turn_def split: option.splits)
  next
    case ReaderTurn
    then show ?thesis using step f w
      by (auto simp: tls_inv_def tls_turn_def thread_read_def replicate_append_same split: option.splits)
  next
    case WriterTurn
    then obtain v where v: "g_mydata s Writer = Some v" using step.hyps(2) f
      by (auto simp: tls_turn_def thread_write_def split: option.splits)
    then have j: "v = 99 + writes es" "main_at s = JoinWriter" using step.IH f by (auto simp: tls_inv_def)
    show ?thesis
    proof (cases "writes es = 2147483548")
      case True
      then show ?thesis using step WriterTurn f v j
        by (auto simp: tls_inv_def tls_turn_def thread_write_def i32_def int_ok_def)
    next
      case False
      then have "int_ok (v + 1)" using w j by (intro int_okI) (simp_all add: writes_def)
      then show ?thesis using step WriterTurn f v j False w
        by (auto simp: tls_inv_def tls_turn_def thread_write_def i32_ok)
    qed
  qed
qed

text \<open>
  The variable is one per thread.  In every interleaving, with threads that may fail to be
  created, the reader prints 99 every time and the main thread's copy stays 99, while the
  writer's copy counts its rounds; the writer's increment overflows in round 2147483549, not
  before and not later.
\<close>
theorem thread_local_isolated:
  assumes "tls_run es s"
  shows "shown s = replicate (reads es) 99 \<and> g_mydata s MainThread = Some 99
    \<and> (fault s = Some SignedOverflow \<longleftrightarrow> writes es = 2147483549) \<and> writes es \<le> 2147483549
    \<and> (g_mydata s Writer = None \<or> g_mydata s Writer = Some (99 + writes es) \<or> fault s = Some SignedOverflow)"
  using tls_run_inv [OF assms] unfolding tls_inv_def by blast

theorem thread_local_isolated_witness:
  "shown \<lparr>main_at = JoinWriter, g_mydata = [MainThread \<mapsto> 99, Reader \<mapsto> 99, Writer \<mapsto> 100], shown = [99], fault = None\<rparr>
      = replicate (reads [MainCreates True, MainCreates True, WriterTurn, ReaderTurn]) 99
    \<and> [MainThread \<mapsto> 99, Reader \<mapsto> 99, Writer \<mapsto> (100::int)] MainThread = Some 99
    \<and> (None = Some SignedOverflow \<longleftrightarrow> writes [MainCreates True, MainCreates True, WriterTurn, ReaderTurn] = 2147483549)
    \<and> writes [MainCreates True, MainCreates True, WriterTurn, ReaderTurn] \<le> 2147483549
    \<and> ([MainThread \<mapsto> 99, Reader \<mapsto> 99, Writer \<mapsto> (100::int)] Writer = None
      \<or> [MainThread \<mapsto> 99, Reader \<mapsto> 99, Writer \<mapsto> (100::int)] Writer
          = Some (99 + writes [MainCreates True, MainCreates True, WriterTurn, ReaderTurn])
      \<or> None = Some SignedOverflow)"
proof -
  let ?s = "\<lparr>main_at = JoinWriter, g_mydata = [MainThread \<mapsto> 99, Reader \<mapsto> 99, Writer \<mapsto> 100], shown = [99], fault = None\<rparr>"
  note d = tls_turn_def main_turn_def spawn_def thread_read_def thread_write_def i32_def int_ok_def
  have "tls_run ([] @ [MainCreates True]) \<lparr>main_at = CreateWriter, g_mydata = [MainThread \<mapsto> 99, Reader \<mapsto> 99],
      shown = [], fault = None\<rparr>"
    by (rule tls_run.step [OF tls_run.start]) (simp add: tls_init_def d)
  then have "tls_run (([] @ [MainCreates True]) @ [MainCreates True]) \<lparr>main_at = JoinWriter,
      g_mydata = [MainThread \<mapsto> 99, Reader \<mapsto> 99, Writer \<mapsto> 99], shown = [], fault = None\<rparr>"
    by (rule tls_run.step) (simp add: d)
  then have "tls_run ((([] @ [MainCreates True]) @ [MainCreates True]) @ [WriterTurn]) \<lparr>main_at = JoinWriter,
      g_mydata = [MainThread \<mapsto> 99, Reader \<mapsto> 99, Writer \<mapsto> 100], shown = [], fault = None\<rparr>"
    by (rule tls_run.step) (simp add: d)
  then have "tls_run (((([] @ [MainCreates True]) @ [MainCreates True]) @ [WriterTurn]) @ [ReaderTurn]) ?s"
    by (rule tls_run.step) (simp add: d)
  then have "tls_run [MainCreates True, MainCreates True, WriterTurn, ReaderTurn] ?s" by simp
  from thread_local_isolated [OF this] show ?thesis by simp
qed

text \<open>The creation of the writer may fail unnoticed; then the join reads an uninitialised identifier.\<close>

lemma failed_creation_joins_nothing:
  assumes "tls_run es s" and "main_at s = JoinWriter" and "g_mydata s Writer = None" and "fault s = None"
  shows "tls_run (es @ [MainJoins]) (s\<lparr>fault := Some UninitRead\<rparr>)"
  using assms(1) by (rule tls_run.step) (use assms in \<open>simp add: tls_turn_def main_turn_def\<close>)

end
