(* ===== verification/Processes.thy ===== *)
theory Processes
  imports Syscalls CString
begin

section \<open>File locks, duplicated descriptors, thread identities (\<open>process/\<close>, \<open>dup_dup2/\<close>, \<open>pid_tid/\<close>)\<close>

text \<open>
  Four programs that show one feature of the kernel each.  A program that forks is followed as one
  process: the kernel's answer to \<open>fork\<close> says whether it goes on as the parent or the child.
\<close>

subsection \<open>File locks across fork\<close>

datatype lock_op = LOCK_EX | LOCK_UN

datatype lock_call =
    OpenRW string
  | Flock int lock_op
  | LFork
  | LSleep int
  | Waitpid int

type_synonym lock_kernel = "(lock_call, int) kernel"

definition child_inherit_main :: "lock_kernel \<Rightarrow> (lock_call, int, int) prog" where
  "child_inherit_main K = do {
     fd \<leftarrow> sys K (OpenRW ''./test_flock.txt'');
     if fd = - 1 then do { printf ''Fail to open file\<newline>'' []; ret 1 }
     else do {
       r \<leftarrow> sys K (Flock fd LOCK_EX);
       if r = - 1 then do { printf ''Fail to flock\<newline>'' []; ret 1 }
       else do {
         printf ''Parent get the flock at the first time\<newline>'' [];
         child \<leftarrow> sys K LFork;
         if child = - 1 then do { printf ''Fail to fork\<newline>'' []; ret 1 }
         else if child = 0 then do {
           printf ''Child sleeps now\<newline>'' [];
           sys K (LSleep 30);
           printf ''Child wakes up and exits\<newline>'' [];
           ret 1
         }
         else do { printf ''Parent exit\<newline>'' []; ret 0 }
       }
     }
   }"

definition child_share_main :: "lock_kernel \<Rightarrow> (lock_call, int, int) prog" where
  "child_share_main K = do {
     fd \<leftarrow> sys K (OpenRW ''./test_flock.txt'');
     if fd = - 1 then do { printf ''Fail to open file\<newline>'' []; ret 1 }
     else do {
       r \<leftarrow> sys K (Flock fd LOCK_EX);
       if r = - 1 then do { printf ''Fail to flock\<newline>'' []; ret 1 }
       else do {
         printf ''Parent get the flock at the first time\<newline>'' [];
         child \<leftarrow> sys K LFork;
         if child = - 1 then do { printf ''Fail to fork\<newline>'' []; ret 1 }
         else if child = 0 then do {
           printf ''Child sleeps now\<newline>'' [];
           sys K (LSleep 30);
           printf ''Child wakes up and exits\<newline>'' [];
           ret 1
         }
         else do {
           sys K (Flock fd LOCK_UN);
           printf ''Parent release the lock\<newline>'' [];
           printf ''Parent tries to get flock again\<newline>'' [];
           sys K (Flock fd LOCK_EX);
           sys K (Waitpid child);
           printf ''Parent exit\<newline>'' [];
           ret 0
         }
       }
     }
   }"

text \<open>The operations on the lock in a history, and the child that was waited for.\<close>

definition lock_ops :: "(lock_call \<times> int) list \<Rightarrow> lock_op list" where
  "lock_ops h = concat (map (\<lambda>(c, a). case c of Flock _ x \<Rightarrow> [x] | _ \<Rightarrow> []) h)"

definition fork_answer :: "(lock_call \<times> int) list \<Rightarrow> int option" where
  "fork_answer h = map_option snd (find (\<lambda>(c, a). c = LFork) h)"

lemmas lock_simps = lock_ops_def fork_answer_def

text \<open>
  In both programs the child never operates on the lock that it shares with its parent.  In the
  first one no one releases it, so the lock goes when the last copy of the descriptor does; in
  the second the parent releases it and takes it again before it waits for the child.
\<close>

lemma inherit_never_unlocks:
  "lock_ops (calls (exec (child_inherit_main K) init_world)) \<in> {[], [LOCK_EX]}
   \<and> (result (child_inherit_main K) init_world = 0 \<longleftrightarrow>
       (\<exists>c. fork_answer (calls (exec (child_inherit_main K) init_world)) = Some c \<and> c \<noteq> - 1 \<and> c \<noteq> 0))"
  by (simp add: child_inherit_main_def lock_simps)

lemma share_unlocks_and_relocks:
  "lock_ops (calls (exec (child_share_main K) init_world))
     = (if result (child_share_main K) init_world = 0 then [LOCK_EX, LOCK_UN, LOCK_EX]
        else if K [] (OpenRW ''./test_flock.txt'') = - 1 then [] else [LOCK_EX])
   \<and> (result (child_share_main K) init_world = 0 \<longleftrightarrow>
       (\<exists>c. fork_answer (calls (exec (child_share_main K) init_world)) = Some c \<and> c \<noteq> - 1 \<and> c \<noteq> 0))"
  by (simp add: child_share_main_def lock_simps)

subsection \<open>Duplicated descriptors\<close>

datatype dup_call =
    OpenAppend string
  | Dup int
  | DWrite int string
  | Dup2 int int

definition dup_buf :: string where
  "dup_buf = ''this will be output to file dup.txt'' @ [NL, NUL]"

text \<open>\<open>sizeof(buf)\<close> counts the NUL.\<close>

definition dup2_test :: "(dup_call, int) kernel \<Rightarrow> int \<Rightarrow> (dup_call, int, unit) prog" where
  "dup2_test K fd = do { sys K (Dup2 fd 1); printf ''I will printed in the file\<newline>'' [] }"

definition dup_main :: "(dup_call, int) kernel \<Rightarrow> (dup_call, int, int) prog" where
  "dup_main K = do {
     file_desc \<leftarrow> sys K (OpenAppend ''dup.txt'');
     only_if (file_desc < 0) (printf ''open file error\<newline>'' []);
     copy_desc \<leftarrow> sys K (Dup file_desc);
     sys K (DWrite file_desc dup_buf);
     sys K (DWrite copy_desc dup_buf);
     dup2_test K file_desc;
     ret 0
   }"

text \<open>Both descriptors get the same bytes, the NUL at the end included, whether the file could be opened or not.\<close>

lemma dup_writes_nul:
  "\<exists>fd fd'. filter (\<lambda>c. \<exists>d s. c = DWrite d s) (map fst (calls (exec (dup_main K) init_world)))
     = [DWrite fd dup_buf, DWrite fd' dup_buf] \<and> fd = K [] (OpenAppend ''dup.txt'') \<and> last dup_buf = NUL"
  by (simp add: dup_main_def dup2_test_def dup_buf_def)

subsection \<open>The identities of threads\<close>

datatype id_call = Pthread_self | TGetpid | Gettid | PthreadCreate string | Pause

definition thread_ids :: "(id_call, int) kernel \<Rightarrow> string \<Rightarrow> string \<Rightarrow> string \<Rightarrow> (id_call, int, unit) prog" where
  "thread_ids K f g h = do {
     p \<leftarrow> sys K Pthread_self;
     printf f [PInt p];
     t \<leftarrow> sys K TGetpid;
     printf g [PInt t];
     l \<leftarrow> sys K Gettid;
     printf h [PInt l]
   }"

definition ThreadFunc1 :: "(id_call, int) kernel \<Rightarrow> (id_call, int, int) prog" where
  "ThreadFunc1 K = do {
     thread_ids K ''the pthread_1 id is %ld\<newline>'' ''the thread_1's tgid is %d\<newline>'' ''The LWPID/tid of thread_1 is: %ld\<newline>\<newline>'';
     sys K Pause;
     ret 0
   }"

definition ThreadFunc2 :: "(id_call, int) kernel \<Rightarrow> (id_call, int, int) prog" where
  "ThreadFunc2 K = do {
     thread_ids K ''the pthread_2 id is %ld\<newline>'' ''the thread_2's tgid is %d\<newline>'' ''The LWPID/tid of thread_2 is: %ld\<newline>\<newline>'';
     sys K Pause;
     ret 0
   }"

definition pid_main :: "(id_call, int) kernel \<Rightarrow> (id_call, int, int) prog" where
  "pid_main K = do {
     thread_ids K ''the master thread's pthread id is %ld\<newline>'' ''the master thread's tgid is %d\<newline>''
       ''The LWPID/tid of master thread is: %ld\<newline>\<newline>'';
     sys K (PthreadCreate ''ThreadFunc2'');
     sys K (PthreadCreate ''ThreadFunc1'');
     sys K Pause;
     ret 0
   }"

text \<open>All three threads report the process id second, and only the main thread creates threads.\<close>

lemma threads_report_pid:
  "(\<forall>h. K h TGetpid = pid) \<Longrightarrow>
   map snd [out (exec (pid_main K) init_world) ! 1, out (exec (ThreadFunc1 K) init_world) ! 1,
     out (exec (ThreadFunc2 K) init_world) ! 1] = [[PInt pid], [PInt pid], [PInt pid]]"
  by (simp add: pid_main_def ThreadFunc1_def ThreadFunc2_def thread_ids_def)

end
