(* ===== verification/Snippets.thy ===== *)
theory Snippets
  imports CString
begin

section \<open>Sizes of types and a function made by macros (\<open>array_sizeof/\<close>, \<open>struct_bit_field/\<close>, \<open>macro/\<close>)\<close>

text \<open>
  Sizes are those of the x86-64 System V ABI, which the programs' build uses: 4 bytes for an
  \<open>int\<close>, 8 for a pointer.  A parameter declared as an array is a pointer.  Bit-fields of one
  \<open>unsigned int\<close> each share units of 32 bits.
\<close>

datatype ctype = CInt | CUnsigned | CPtr ctype | CArr ctype nat

fun c_sizeof :: "ctype \<Rightarrow> int" where
  "c_sizeof CInt = 4"
| "c_sizeof CUnsigned = 4"
| "c_sizeof (CPtr t) = 8"
| "c_sizeof (CArr t n) = c_sizeof t * int n"

fun elem_type :: "ctype \<Rightarrow> ctype" where
  "elem_type (CPtr t) = t"
| "elem_type (CArr t n) = t"
| "elem_type t = t"

fun param_type :: "ctype \<Rightarrow> ctype" where
  "param_type (CArr t n) = CPtr t"
| "param_type t = t"

definition ARRAY_SIZE :: nat where "ARRAY_SIZE = 10"

text \<open>The three numbers that \<open>DoSomething\<close> prints.\<close>

definition DoSomething :: "ctype \<Rightarrow> int \<times> int \<times> int" where
  "DoSomething arg = (let t = param_type arg; totalSize = c_sizeof t; unitSize = c_sizeof (elem_type t)
     in (totalSize, unitSize, c_sizeof t div c_sizeof (elem_type t)))"

definition sizeof_main :: "int \<times> int \<times> int" where
  "sizeof_main = DoSomething (CArr CInt ARRAY_SIZE)"

lemma parameter_forgets_length:
  "DoSomething (CArr CInt n) = (8, 4, 2)"
  "c_sizeof (CArr CInt n) div c_sizeof CInt = int n"
  by (simp_all add: DoSomething_def)

subsection \<open>Bit-fields\<close>

definition NoBitFiled :: "ctype list" where
  "NoBitFiled = [CUnsigned, CUnsigned]"

definition BitFiled :: "nat list" where
  "BitFiled = [1, 1]"

text \<open>A field that does not fit into the rest of its unit starts the next one.\<close>

fun bit_units :: "nat \<Rightarrow> nat list \<Rightarrow> nat" where
  "bit_units used [] = (if used = 0 then 0 else 1)"
| "bit_units used (w # ws) = (if used + w \<le> 32 then bit_units (used + w) ws else Suc (bit_units w ws))"

definition bit_field_main :: "int \<times> int" where
  "bit_field_main = (sum_list (map c_sizeof NoBitFiled), 4 * int (bit_units 0 BitFiled))"

lemma bit_field_sizes: "bit_field_main = (8, 4)"
  by (simp add: bit_field_main_def NoBitFiled_def BitFiled_def)

lemma bit_units_shared: "ws \<noteq> [] \<Longrightarrow> 0 \<notin> set ws \<Longrightarrow> used + sum_list ws \<le> 32 \<Longrightarrow> bit_units used ws = 1"
proof (induction ws arbitrary: used)
  case (Cons w ws)
  show ?case
  proof (cases "ws = []")
    case True
    then show ?thesis using Cons.prems by simp
  next
    case False
    then show ?thesis using Cons.prems Cons.IH [of "used + w"] by (simp add: add.assoc)
  qed
qed simp

subsection \<open>The adders\<close>

text \<open>
  The template at \<open>int\<close>, and at \<open>double\<close>.  A finite binary64 number is \<open>(m, e)\<close>, for \<open>m * 2 ^ e\<close>
  with \<open>- 1074 \<le> e\<close> and a mantissa of at most 53 bits.  The sum is exact, then rounded to 53 bits,
  to the nearest, ties to even; \<open>None\<close> stands for infinity.
\<close>

definition addInt :: "int \<Rightarrow> int \<Rightarrow> int res" where
  "addInt a b = i32 (a + b)"

type_synonym binary64 = "int \<times> int"

fun bit_len :: "nat \<Rightarrow> nat" where
  "bit_len n = (if n = 0 then 0 else Suc (bit_len (n div 2)))"

declare bit_len.simps [simp del]

definition round_even :: "int \<Rightarrow> int \<Rightarrow> int" where
  "round_even m d = (let q = m div d; r = 2 * (m mod d)
     in if r < d \<or> r = d \<and> even q then q else q + 1)"

definition double_limit :: int where "double_limit = 2 ^ 1024"

definition to_binary64 :: "int \<Rightarrow> int \<Rightarrow> binary64 option" where
  "to_binary64 m e =
     (let k = bit_len (nat \<bar>m\<bar>) - 53; m' = round_even m (2 ^ k)
      in if double_limit \<le> \<bar>m'\<bar> * 2 ^ nat (e + int k) then None else Some (m', e + int k))"

definition addDouble :: "binary64 \<Rightarrow> binary64 \<Rightarrow> binary64 option" where
  "addDouble a b = (case (a, b) of ((m1, e1), (m2, e2)) \<Rightarrow>
     let e = min e1 e2 in to_binary64 (m1 * 2 ^ nat (e1 - e) + m2 * 2 ^ nat (e2 - e)) e)"

definition addInt_main :: "int res" where
  "addInt_main = addInt 5 3"

text \<open>
  \<open>printf ("%f")\<close> of a number that is not negative and has \<open>e \<le> 0\<close>: six places, rounded the same way.
\<close>

definition show_f :: "binary64 \<Rightarrow> string" where
  "show_f x = (case x of (m, e) \<Rightarrow>
     let n = nat (round_even (m * 10 ^ 6) (2 ^ nat (- e)))
     in dec (n div 10 ^ 6) @ ''.'' @ tl (dec (10 ^ 6 + n mod 10 ^ 6)))"

text \<open>The compiler's constants for 5.5 and 3.1, which has no exact representation.\<close>

definition addDouble_main :: "string option" where
  "addDouble_main = map_option (\<lambda>r. ''int result:'' @ show_f r @ [NL])
     (addDouble (11, - 1) (6980579422424269, - 51))"

lemma addInt_commutes: "addInt a b = addInt b a"
  by (simp add: addInt_def add.commute)

lemma addInt_main_prints: "addInt_main = Inr 8"
  by (simp add: addInt_main_def addInt_def i32_def int_ok_def)

lemma addDouble_commutes: "addDouble a b = addDouble b a"
  by (cases a; cases b) (simp add: addDouble_def min.commute add.commute)

text \<open>Rounding is off by at most half of the last place, and a sum that fits is exact.\<close>

lemma round_even_near:
  assumes "0 < d"
  shows "2 * \<bar>round_even m d * d - m\<bar> \<le> d"
proof -
  let ?q = "m div d" and ?r = "m mod d"
  have m: "m = ?q * d + ?r" by simp
  have r: "0 \<le> ?r" "?r < d" using assms by simp_all
  show ?thesis
  proof (cases "2 * ?r < d \<or> 2 * ?r = d \<and> even ?q")
    case True
    then have "round_even m d = ?q" by (auto simp: round_even_def Let_def)
    then have "round_even m d * d - m = - ?r" by (simp add: minus_mod_eq_div_mult [symmetric])
    then show ?thesis using True r by (elim disjE) simp_all
  next
    case False
    then have "round_even m d = ?q + 1" by (auto simp: round_even_def Let_def)
    then have "round_even m d * d - m = d - ?r"
      by (simp add: distrib_right minus_mod_eq_div_mult [symmetric])
    moreover have "d \<le> 2 * ?r" using False by auto
    ultimately show ?thesis using r by simp
  qed
qed

lemma bit_len_le: "n < 2 ^ k \<Longrightarrow> bit_len n \<le> k"
proof (induction k arbitrary: n)
  case (Suc k)
  then show ?case by (subst bit_len.simps) (simp add: Suc.IH less_mult_imp_div_less mult.commute)
qed (simp add: bit_len.simps)

lemma round_even_1 [simp]: "round_even m 1 = m"
  by (simp add: round_even_def Let_def)

lemma to_binary64_exact:
  assumes "bit_len (nat \<bar>m\<bar>) - 53 = 0" and "\<bar>m\<bar> * 2 ^ nat e < double_limit"
  shows "to_binary64 m e = Some (m, e)"
  using assms(2) unfolding to_binary64_def Let_def assms(1) by simp

lemma addDouble_exact:
  fixes m1 m2 e :: int
  assumes "\<bar>m1 + m2\<bar> < 2 ^ 53" and "e \<le> 971"
  shows "addDouble (m1, e) (m2, e) = Some (m1 + m2, e)"
proof -
  have "nat \<bar>m1 + m2\<bar> < 2 ^ 53" using assms(1) by (simp add: nat_less_iff)
  then have k: "bit_len (nat \<bar>m1 + m2\<bar>) - 53 = 0" using bit_len_le by simp
  have "(2::int) ^ nat e \<le> 2 ^ 971" using assms(2) by (intro power_increasing) simp_all
  then have "\<bar>m1 + m2\<bar> * 2 ^ nat e < 2 ^ 53 * 2 ^ 971"
    using assms(1) by (intro mult_less_le_imp_less) simp_all
  then have "\<bar>m1 + m2\<bar> * 2 ^ nat e < double_limit"
    unfolding double_limit_def by (simp only: power_add [symmetric]) simp
  with k have "to_binary64 (m1 + m2) e = Some (m1 + m2, e)" by (intro to_binary64_exact) simp_all
  then show ?thesis by (simp add: addDouble_def Let_def)
qed

lemma addDouble_main_prints: "addDouble_main = Some (''int result:8.600000'' @ [NL])"
proof -
  have k: "bit_len (nat \<bar>19365478397693133\<bar>) - 53 = 2" by (simp add: bit_len.simps)
  have "round_even 19365478397693133 (2 ^ 2) = 4841369599423283" by (simp add: round_even_def)
  then have "to_binary64 19365478397693133 (- 51) = Some (4841369599423283, - 49)"
    unfolding to_binary64_def Let_def k by (simp add: double_limit_def)
  then have "addDouble (11, - 1) (6980579422424269, - 51) = Some (4841369599423283, - 49)"
    by (simp add: addDouble_def)
  moreover have "show_f (4841369599423283, - 49) = ''8.600000''"
    by (simp add: show_f_def round_even_def Let_def) (simp add: dec.simps, code_simp)
  ultimately show ?thesis by (simp add: addDouble_main_def)
qed

end
