(* ===== verification/Spec2Isabelle.thy ===== *)
theory Spec2Isabelle
  imports TimerProps ModuleProps TimerMain TimerFaults TimerThreadProps TimerTypes PoolThreads TaosProps TaosClients WheelRace SpinLock ReuseAddr ContainerIp Veth
    ArrayTemplate Salary StringMap Seccomp PacketFanout Getdents Pipes ThreadLocal Processes Snippets
begin

text \<open>
  A verification library for the programs of this repository: a timer library in two versions
  (\<open>src/ttimer\<close>) and a collection of small C and C++ programs, most of which try out one feature
  of the kernel or of the language.  The library models all of them; the theorems that matter
  most are about the timers.

  Conventions.  \<open>CBase\<close>: undefined behaviour is a value, \<open>Inl\<close> of a \<open>ub\<close>, so a theorem that a
  function returns \<open>Inr\<close> says that it is free of undefined behaviour; \<open>int\<close> is checked
  (\<open>i32\<close>), narrowing conversions and unsigned types wrap (\<open>to_i16\<close>, words); objects live in a
  store from addresses to records, so aliasing is visible and freed memory is absent.  Loops over
  linked lists, and loops that end when the kernel lets them, have fuel: \<open>OutOfFuel\<close> is an
  error that the theorems exclude.  The list loops of the first timer get one more round than the
  pool has blocks (\<open>loop_fuel\<close>), which is enough since a list never holds a block twice; in the
  other components the fuel is an argument and the theorems say how much is enough.
  \<open>Syscalls\<close>: code outside the repository is a parameter.  The kernel is a function from the calls
  made so far and the next call to its answer, and a program records its calls and its output, so
  that a theorem for every kernel covers failing calls in every combination.  Theorems that need
  the kernel to work say so in hypotheses about this function.

  The first timer, \<open>ttimer/tdengine_old.c\<close>.  \<open>MemPool\<close> (memPoolInit, memPoolMalloc,
  memPoolFree, memPoolCleanup) rests on \<open>RingBuffer\<close>; \<open>PoolSpec\<close> shows that the pool is a FIFO
  queue of distinct blocks, for single calls and over scripts.  \<open>DList\<close> holds the intrusive
  lists.  \<open>TimerCtrl\<close> has the controller (tmrReset, tmrProcessList and their loops), \<open>TimerModule\<close>
  the module around it (tmrModuleInit, tmrInit, timerLoopFunc, processAlarmSignal).
  \<open>TimerSpec\<close> is the specification: a countdown for each armed timer.  \<open>WheelInv\<close>, \<open>WheelOps\<close>,
  \<open>WheelTick\<close>, \<open>TimerArm\<close> and \<open>TimerRuns\<close> show that each operation keeps the invariant of
  the wheel and refines the specification, and that runs of operations do; \<open>TimerDemo\<close> has
  concrete states.  The properties are in \<open>TimerProps\<close> (refinement, and when a timer is called),
  \<open>ModuleProps\<close> (set-up and the alarm thread) and \<open>TimerFaults\<close> (where the code fails:
  16-bit turns, wrapping periods, stale handles, failing allocations); \<open>TimerTypes\<close> shows that every
  field keeps the range of its C type.  \<open>TimerMain\<close> is the program itself: main, test and its two
  callbacks, turn by turn with the alarm thread; it shows which read of a dead local variable is the
  only failure, and at which alarm an undelayed run ends there.  In these theories an operation is one step, as the mutexes
  of the code make it; alarms and calls may come in any order.  That this is right is shown, not
  assumed: \<open>Locked\<close> has the contract of an object behind a mutex, whose operations may themselves ask
  for the mutex and give it up in the middle; \<open>TimerSections\<close> the two
  operations between lock and unlock as steps of single loop iterations, with the callbacks called
  while the mutex is held, and a callback that calls tmrReset asking for it again; \<open>TimerThreads\<close> the alarm thread and any number of clients interleaved at
  these steps, with the accesses that the code makes outside the mutex, and a refinement map to the
  runs of \<open>TimerRuns\<close>.  \<open>TimerThreadProps\<close> has what follows: every interleaving is a run of the
  atomic operations, timers are called on time, every request can be completed, and a callback
  that re-arms a timer of its own controller waits for its own thread and stops everything.  \<open>PoolThreads\<close> does the same for
  the pool, whose memPoolMalloc clears the block after it has unlocked.

  The second timer, \<open>ttimer/timer.c\<close>, is unfinished: nothing sets it up and nothing scans its
  wheels.  \<open>Atomics\<close> has the macro families of \<open>os.h\<close> over words of any width, \<open>TaosTimer\<close> the
  ids, reference counts, list locks and the time, \<open>SpinLock\<close> the lock with the threads interleaved
  at each atomic access, \<open>TaosMap\<close> the map from ids to timers and \<open>TaosWheel\<close> the time wheels;
  \<open>TaosMapSpec\<close>, \<open>TaosProps\<close> and \<open>TaosWheelProps\<close> show that these are a finite map and a set,
  when references are freed, which slot a timer gets, and what goes wrong on wrap-around and on
  the initial state; \<open>WheelRace\<close> has removals that race, with other threads between the two looks of
  removeFromWheel.  \<open>TaosClients\<close> puts map, wheels and reference counts together: scripts of the calls
  of any threads, with books of who holds a reference, and the theorem that a timer lives exactly
  while there is one.

  Programs that call the kernel.  \<open>ReuseAddr\<close>: \<open>networks/reuse_addr_option.c\<close>.
  \<open>Namespaces\<close>, \<open>ContainerIp\<close> and \<open>Veth\<close>: \<open>obtain_container_ip/\<close>, with the C strings of
  \<open>CString\<close>; they show that namespaces and descriptors are restored on every path but one, each
  namespace unless the kernel refuses the way back to it, and
  which address and interface is found.  \<open>Seccomp\<close>: \<open>seccomp/\<close>, the rules against the
  policy that the program announces.  \<open>PacketFanout\<close>: \<open>packet_mmap/packet_mmap.c\<close>.
  \<open>Getdents\<close>: \<open>getdents64/getdents64_test.c\<close>, a round trip with the kernel's encoding.
  \<open>Pipes\<close>: \<open>named_pipe/\<close> and \<open>unix_client_server/\<close>.  \<open>Processes\<close>: \<open>process/\<close>, \<open>dup_dup2/\<close> and
  \<open>pid_tid/\<close>.  \<open>ThreadLocal\<close>: \<open>__thread/main.c\<close>, its threads interleaved.

  Programs about the language.  In \<open>CPlusPlusThings/practical_exercises/\<close>: \<open>ArrayTemplate\<close>
  (Sort against the library's sort), \<open>Salary\<close> (scripts of assignments and look-ups through operator[], and display, refine a finite map) and \<open>StringMap\<close>
  (a map ordered by addresses, against the same program on strings).  \<open>Snippets\<close>:
  \<open>array_sizeof/\<close>, \<open>struct_bit_field/\<close> and \<open>macro/\<close>, with the addition of two doubles rounded
  as IEEE 754 says.

  Not modelled: the layout of output beyond the arguments of each \<open>printf\<close>, since nothing reads it
  back; buffering of the standard streams; infinities, NaNs and negative zero (the salaries are of any
  type, the adder of doubles is on finite numbers); weak memory, since the shared variables of the threads are accessed
  atomically or under a mutex; \<open>kernel_list/kernel_list_example.c\<close> and \<open>tdengine_timer/timer.c\<close>,
  which have no code.
\<close>

end
